(* ===== verification/Prelude.thy ===== *)
theory Prelude
  imports "HOL-Library.Word" "HOL-Library.Monad_Syntax"
begin

unbundle bit_operations_syntax

text \<open>
  Shared vocabulary of the development: the fixed-width integers of \<open>stdint.h\<close> as words,
  C strings as byte lists, the counting loops of the source, the collections of rewrite
  rules the components extend, and the facts about words, lists and options that more than
  one component uses.
\<close>

section \<open>Types\<close>

type_synonym u8 = "8 word"
type_synonym u16 = "16 word"
type_synonym u32 = "32 word"
type_synonym u64 = "64 word"

text \<open>A C string: its bytes, the terminating NUL left out or anything after it ignored.\<close>

type_synonym cstr = "u8 list"

text \<open>The bytes of a string literal of the source.\<close>

definition lit :: "string \<Rightarrow> cstr" where
  "lit s = map of_char s"

text \<open>The bytes of a C string object up to its NUL.\<close>

definition upto_nul :: "u8 list \<Rightarrow> cstr" where
  "upto_nul bs = takeWhile (\<lambda>b. b \<noteq> 0) bs"

text \<open>A \<open>for (i = 0; i < n; i++)\<close> loop whose body changes a state.\<close>

definition for_upto :: "nat \<Rightarrow> (nat \<Rightarrow> 's \<Rightarrow> 's) \<Rightarrow> 's \<Rightarrow> 's" where
  "for_upto n body s = fold body [0..<n] s"

text \<open>Straight-line code as the list of its statements, and code that may stop the machine for good.\<close>

definition seq_do :: "('s \<Rightarrow> 's) list \<Rightarrow> 's \<Rightarrow> 's" where
  "seq_do fs s = fold (\<lambda>f. f) fs s"

datatype 's outcome = Returns 's | Halts 's

section \<open>Collections\<close>

named_theorems addr_simps \<open>address arithmetic inside mapped memory\<close>
named_theorems mem_simps \<open>reads after writes\<close>
named_theorems layout \<open>unfolding of layout predicates\<close>
named_theorems frame \<open>fields an operation leaves alone\<close>

section \<open>Sequences and loops\<close>

lemma seq_do_Nil [simp]: "seq_do [] s = s"
  and seq_do_Cons [simp]: "seq_do (f # fs) s = seq_do fs (f s)"
  by (simp_all add: seq_do_def)

lemma for_upto_0 [simp]: "for_upto 0 body s = s"
  by (simp add: for_upto_def)

lemma for_upto_Suc: "for_upto (Suc n) body s = body n (for_upto n body s)"
  by (simp add: for_upto_def)

lemma for_upto_invariant:
  assumes "P 0 s" and "\<And>i t. i < n \<Longrightarrow> P i t \<Longrightarrow> P (Suc i) (body i t)"
  shows "P n (for_upto n body s)"
  using assms
proof (induction n)
  case 0
  then show ?case by simp
next
  case (Suc n)
  then show ?case by (simp add: for_upto_Suc)
qed

lemma for_upto_cong_result:
  assumes "\<And>i t. i < n \<Longrightarrow> f (body i t) = f t"
  shows "f (for_upto n body s) = f s"
  using for_upto_invariant [where P = "\<lambda>_ t. f t = f s"] assms by metis

section \<open>Strings\<close>

lemma lit_Nil [simp]: "lit [] = []"
  by (simp add: lit_def)

lemma lit_Cons: "lit (c # cs) = of_char c # lit cs"
  by (simp add: lit_def)

lemmas lit_simps = lit_Nil lit_Cons

lemma length_lit [simp]: "length (lit s) = length s"
  by (simp add: lit_def)

lemma upto_nul_Nil [simp]: "upto_nul [] = []"
  by (simp add: upto_nul_def)

lemma upto_nul_Cons [simp]: "upto_nul (b # bs) = (if b = 0 then [] else b # upto_nul bs)"
  by (simp add: upto_nul_def)

lemma upto_nul_no_nul [simp]: "0 \<notin> set (upto_nul bs)"
  by (induction bs) auto

lemma upto_nul_id: "0 \<notin> set bs \<Longrightarrow> upto_nul bs = bs"
  by (induction bs) auto

lemma upto_nul_append_nul: "0 \<notin> set bs \<Longrightarrow> upto_nul (bs @ 0 # cs) = bs"
  by (induction bs) auto

section \<open>Words\<close>

lemma unat_add_small [addr_simps]:
  fixes a b :: "'a::len word"
  assumes "unat a + unat b < 2 ^ LENGTH('a)"
  shows "unat (a + b) = unat a + unat b"
  using assms by (simp add: unat_word_ariths)

lemma unat_diff_small:
  fixes a b :: "'a::len word"
  assumes "unat b \<le> unat a"
  shows "unat (a - b) = unat a - unat b"
  using assms by (simp add: unat_sub word_le_nat_alt)

lemma unat_of_nat_small [simp]:
  "n < 2 ^ LENGTH('a::len) \<Longrightarrow> unat (of_nat n :: 'a word) = n"
  by (simp add: unat_of_nat take_bit_nat_eq_self)

lemma u32_of_nat_inj:
  assumes "m < 2 ^ 32" and "n < 2 ^ 32"
  shows "(of_nat m :: u32) = of_nat n \<longleftrightarrow> m = n"
proof
  assume "(of_nat m :: u32) = of_nat n"
  then have "unat (of_nat m :: u32) = unat (of_nat n :: u32)" by simp
  then show "m = n" using assms by simp
qed simp

lemma unat_ucast_mod:
  "unat (ucast w :: 'b::len word) = unat (w :: 'a::len word) mod 2 ^ LENGTH('b)"
  by (simp add: unsigned_ucast_eq take_bit_eq_mod)

lemma unat_take_bit_mod: "unat (take_bit n (w :: 'a::len word)) = unat w mod 2 ^ n"
  by (simp add: unsigned_take_bit_eq flip: take_bit_eq_mod)

lemma unat_drop_bit_div: "unat (drop_bit n (w :: 'a::len word)) = unat w div 2 ^ n"
proof -
  have "unat w div 2 ^ n < 2 ^ LENGTH('a)"
    using unsigned_less [of w] by (meson div_le_dividend le_less_trans)
  then show ?thesis
    by (simp add: unsigned_drop_bit_eq take_bit_nat_eq_self flip: drop_bit_eq_div)
qed

lemma and_0xFF: "(w :: 'a::len word) AND 0xFF = take_bit 8 w"
  using take_bit_eq_mask [of 8 w] by (simp add: mask_eq_exp_minus_1)

lemma and_0xFFFF: "(w :: 'a::len word) AND 0xFFFF = take_bit 16 w"
  using take_bit_eq_mask [of 16 w] by (simp add: mask_eq_exp_minus_1)

lemmas unat_bits = unat_ucast_mod unat_take_bit_mod unat_drop_bit_div and_0xFF and_0xFFFF

section \<open>Options\<close>

lemma bind_Some_iff:
  "Option.bind x f = Some y \<longleftrightarrow> (\<exists>z. x = Some z \<and> f z = Some y)"
  by (cases x) auto

end
