(* ===== verification/Machine.thy ===== *)
theory Machine
  imports Prelude
begin

text \<open>
  The kernel's global state, one record per translation unit. C has one address space of
  globals, so the records form a chain: each extends the one before, and an operation of one
  component is polymorphic in everything declared after it (\<open>'a vga_scheme\<close> and so on). An
  operation of the screen therefore runs unchanged on the state of the whole kernel, and
  its type says that it cannot touch the fields of later records.
\<close>

section \<open>Hardware: ports, registers, interrupt flag\<close>

text \<open>
  Port traffic is an event log. What a device answers to \<open>inb\<close> is not code of the
  repository: it is the parameter \<open>dev_in\<close>, a function of the traffic so far and the port.
  The same holds for the leaves of \<open>cpuid\<close>.
\<close>

datatype port_event = OutB u16 u8 | OutW u16 u16 | InB u16 u8

record cpu_regs =
  r_cs :: u16
  r_ds :: u16
  r_es :: u16
  r_fs :: u16
  r_gs :: u16
  r_ss :: u16
  r_tr :: u16
  r_cr0 :: u32
  r_cr2 :: u32
  r_cr3 :: u32
  r_cr4 :: u32
  r_eflags :: u32
  r_esp :: u32
  r_eip :: u32
  r_gdtr_base :: u32
  r_gdtr_limit :: u16
  r_idtr_base :: u32
  r_idtr_limit :: u16

record hw =
  port_log :: "port_event list"
  dev_in :: "port_event list \<Rightarrow> u16 \<Rightarrow> u8"
  cpuid_leaf :: "u32 \<Rightarrow> u32 \<times> u32 \<times> u32 \<times> u32"
  regs :: cpu_regs
  interrupts_on :: bool

section \<open>\<open>video/vga.c\<close>\<close>

text \<open>
  \<open>terminal_buffer\<close> is the array of 16-bit cells at \<open>0xB8000\<close>, indexed as the code indexes
  it; it is a function on all indices, so a write beyond the 25 by 80 cells is not lost.
\<close>

record vga = hw +
  terminal_row :: u32
  terminal_column :: u32
  terminal_color :: u8
  terminal_buffer :: "u32 \<Rightarrow> u16"

section \<open>\<open>core/time.c\<close>, \<open>drivers/keyboard.c\<close>, \<open>core/console.c\<close>\<close>

record timer = vga +
  ticks :: u32
  seconds :: u32
  previousSeconds :: u32

record keyboard = timer +
  keyboard_buffer :: "u32 \<Rightarrow> u8"
  buffer_head :: u32
  buffer_tail :: u32

record console = keyboard +
  line_buffer :: "u8 list"
  line_length :: u32

section \<open>\<open>mm/pmm.c\<close>, \<open>mm/paging.c\<close>, \<open>mm/heap.c\<close>\<close>

text \<open>
  The frame bitmap and the page tables are arrays of 32-bit words reached through pointers:
  \<open>bitmap\<close> by word index, \<open>table_mem t i\<close> for entry \<open>i\<close> of the table at physical address
  \<open>t\<close>. The heap lives in \<open>ram\<close>, the byte memory the kernel sees at virtual addresses.
\<close>

record pmm = console +
  bitmap :: "u32 \<Rightarrow> u32"
  total_frames :: u32

record paging = pmm +
  page_directory :: "u32 \<Rightarrow> u32"
  page_tables :: "u32 \<Rightarrow> u32"
  table_mem :: "u32 \<Rightarrow> u32 \<Rightarrow> u32"

record heap = paging +
  ram :: "u32 \<Rightarrow> u8"
  heap_start :: u32
  heap_end :: u32
  heap_head :: u32

section \<open>A concrete state\<close>

text \<open>All globals zero, as the loader leaves \<open>.bss\<close>; silent devices; empty memory.\<close>

definition reset_regs :: cpu_regs where
  "reset_regs = \<lparr>r_cs = 0, r_ds = 0, r_es = 0, r_fs = 0, r_gs = 0, r_ss = 0, r_tr = 0, r_cr0 = 0,
     r_cr2 = 0, r_cr3 = 0, r_cr4 = 0, r_eflags = 0, r_esp = 0, r_eip = 0, r_gdtr_base = 0,
     r_gdtr_limit = 0, r_idtr_base = 0, r_idtr_limit = 0\<rparr>"

definition power_on :: heap where
  "power_on = \<lparr>port_log = [], dev_in = (\<lambda>_ _. 0), cpuid_leaf = (\<lambda>_. (0, 0, 0, 0)),
     regs = reset_regs, interrupts_on = False,
     terminal_row = 0, terminal_column = 0, terminal_color = 0, terminal_buffer = (\<lambda>_. 0),
     ticks = 0, seconds = 0, previousSeconds = 0,
     keyboard_buffer = (\<lambda>_. 0), buffer_head = 0, buffer_tail = 0,
     line_buffer = replicate 256 0, line_length = 0,
     bitmap = (\<lambda>_. 0), total_frames = 0,
     page_directory = (\<lambda>_. 0), page_tables = (\<lambda>_. 0), table_mem = (\<lambda>_ _. 0),
     ram = (\<lambda>_. 0), heap_start = 0, heap_end = 0, heap_head = 0\<rparr>"

lemma power_on_simps [simp]:
  "terminal_row power_on = 0" "terminal_column power_on = 0" "port_log power_on = []"
  "ram power_on = (\<lambda>_. 0)" "heap_start power_on = 0" "heap_end power_on = 0" "heap_head power_on = 0"
  by (simp_all add: power_on_def)

end
