(* ===== verification/Ports.thy ===== *)
theory Ports
  imports Machine
begin

text \<open>
  \<open>drivers/io.c\<close>, \<open>drivers/pic.c\<close>, \<open>drivers/pit.c\<close> and \<open>arch/x86/cpuid.c\<close>: the port
  instructions as events of the log, the programming sequences of the interrupt controllers
  and of the timer chip, and the brand string read from \<open>cpuid\<close>.
\<close>

section \<open>\<open>drivers/io.c\<close>\<close>

definition outb :: "u16 \<Rightarrow> u8 \<Rightarrow> 'a hw_scheme \<Rightarrow> 'a hw_scheme" where
  "outb port v s = s\<lparr>port_log := port_log s @ [OutB port v]\<rparr>"

definition inb :: "u16 \<Rightarrow> 'a hw_scheme \<Rightarrow> u8 \<times> 'a hw_scheme" where
  "inb port s =
     (let ret = dev_in s (port_log s) port
      in (ret, s\<lparr>port_log := port_log s @ [InB port ret]\<rparr>))"

definition outw :: "u16 \<Rightarrow> u16 \<Rightarrow> 'a hw_scheme \<Rightarrow> 'a hw_scheme" where
  "outw port v s = s\<lparr>port_log := port_log s @ [OutW port v]\<rparr>"

section \<open>\<open>drivers/pic.c\<close>\<close>

abbreviation PIC1_COMMAND :: u16 where "PIC1_COMMAND \<equiv> 0x20"
abbreviation PIC1_DATA :: u16 where "PIC1_DATA \<equiv> 0x21"
abbreviation PIC2_COMMAND :: u16 where "PIC2_COMMAND \<equiv> 0xA0"
abbreviation PIC2_DATA :: u16 where "PIC2_DATA \<equiv> 0xA1"
abbreviation ICW1_INIT :: u8 where "ICW1_INIT \<equiv> 0x10"
abbreviation ICW1_ICW4 :: u8 where "ICW1_ICW4 \<equiv> 0x01"
abbreviation ICW4_8086 :: u8 where "ICW4_8086 \<equiv> 0x01"

definition pic_remap :: "'a hw_scheme \<Rightarrow> 'a hw_scheme" where
  "pic_remap s =
     (let (a1, s) = inb PIC1_DATA s;
          (a2, s) = inb PIC2_DATA s;
          s = outb PIC1_COMMAND (ICW1_INIT OR ICW1_ICW4) s;
          s = outb PIC2_COMMAND (ICW1_INIT OR ICW1_ICW4) s;
          s = outb PIC1_DATA 0x20 s;
          s = outb PIC2_DATA 0x28 s;
          s = outb PIC1_DATA 4 s;
          s = outb PIC2_DATA 2 s;
          s = outb PIC1_DATA ICW4_8086 s;
          s = outb PIC2_DATA ICW4_8086 s;
          s = outb PIC1_DATA a1 s
      in outb PIC2_DATA a2 s)"

definition pic_send_eoi :: "u8 \<Rightarrow> 'a hw_scheme \<Rightarrow> 'a hw_scheme" where
  "pic_send_eoi irq s =
     (let s = (if 8 \<le> irq then outb 0xA0 0x20 s else s) in outb 0x20 0x20 s)"

section \<open>\<open>drivers/pit.c\<close>\<close>

text \<open>\<open>None\<close> is the divide error of \<open>1193182 / 0\<close>. The port takes a byte: \<open>ucast\<close> cuts.\<close>

definition pit_init :: "u32 \<Rightarrow> 'a hw_scheme \<Rightarrow> 'a hw_scheme option" where
  "pit_init frequency s =
     (if frequency = 0 then None else
      let divisor = 1193182 div frequency;
          s = outb 0x43 0x36 s;
          s = outb 0x40 (ucast (divisor AND 0xFF)) s
      in Some (outb 0x40 (ucast (drop_bit 8 divisor AND 0xFF)) s))"

section \<open>\<open>arch/x86/cpuid.c\<close>\<close>

text \<open>A 32-bit store of the little-endian machine, as the bytes it leaves.\<close>

definition bytes_of_u32 :: "u32 \<Rightarrow> u8 list" where
  "bytes_of_u32 w = [ucast w, ucast (drop_bit 8 w), ucast (drop_bit 16 w), ucast (drop_bit 24 w)]"

definition cpuid :: "u32 \<Rightarrow> 'a hw_scheme \<Rightarrow> u32 \<times> u32 \<times> u32 \<times> u32" where
  "cpuid eax_in s = cpuid_leaf s eax_in"

text \<open>The 49 bytes \<open>cpu_get_brand\<close> leaves in its buffer: three leaves and the NUL.\<close>

definition cpu_get_brand :: "'a hw_scheme \<Rightarrow> u8 list" where
  "cpu_get_brand s =
     concat (map (\<lambda>i. let (eax, ebx, ecx, edx) = cpuid (0x80000002 + of_nat i) s
                      in bytes_of_u32 eax @ bytes_of_u32 ebx
                         @ bytes_of_u32 ecx @ bytes_of_u32 edx) [0..<3])
     @ [0]"

section \<open>Facts\<close>

lemma port_log_outb [simp]: "port_log (outb p v s) = port_log s @ [OutB p v]"
  by (simp add: outb_def)

lemma port_log_outw [simp]: "port_log (outw p v s) = port_log s @ [OutW p v]"
  by (simp add: outw_def)

lemma dev_in_outb [simp]: "dev_in (outb p v s) = dev_in s"
  by (simp add: outb_def)

lemma outb_more [simp]: "hw.more (outb p v s) = hw.more s"
  by (simp add: outb_def)

lemma length_bytes_of_u32 [simp]: "length (bytes_of_u32 w) = 4"
  by (simp add: bytes_of_u32_def)

text \<open>Only the port log changes: the remaining fields of any state are kept.\<close>

lemma outb_shape: "\<exists>l. outb p v s = s\<lparr>port_log := l\<rparr>"
  by (auto simp: outb_def)

lemma pic_send_eoi_shape: "\<exists>l. pic_send_eoi irq s = s\<lparr>port_log := l\<rparr>"
  by (auto simp: pic_send_eoi_def outb_def Let_def)

lemma pic_send_eoi_log:
  "port_log (pic_send_eoi irq s) =
     port_log s @ (if 8 \<le> irq then [OutB 0xA0 0x20] else []) @ [OutB 0x20 0x20]"
  by (simp add: pic_send_eoi_def Let_def)

lemma length_cpu_get_brand: "length (cpu_get_brand s) = 49"
  by (simp add: cpu_get_brand_def upt_rec split_def Let_def)

section \<open>Properties\<close>

text \<open>Remapping writes the two initialisation sequences in order (vector bases 32 and 40)
  and ends by writing back the interrupt masks it read first.\<close>

lemma pic_remap_sequence:
  fixes s :: "'a hw_scheme"
  defines "m1 \<equiv> dev_in s (port_log s) 0x21"
  defines "m2 \<equiv> dev_in s (port_log s @ [InB 0x21 m1]) 0xA1"
  shows "pic_remap s = s\<lparr>port_log := port_log s @
     [InB 0x21 m1, InB 0xA1 m2,
      OutB 0x20 0x11, OutB 0xA0 0x11, OutB 0x21 0x20, OutB 0xA1 0x28,
      OutB 0x21 4, OutB 0xA1 2, OutB 0x21 1, OutB 0xA1 1,
      OutB 0x21 m1, OutB 0xA1 m2]\<rparr>"
  by (simp add: pic_remap_def inb_def outb_def Let_def m1_def m2_def)

text \<open>The two data bytes sent to the timer chip are the low and the high byte of the
  16-bit divisor, and together they give the divisor whenever it fits in 16 bits.\<close>

lemma pit_init_divisor:
  assumes "19 \<le> unat frequency"
  shows "\<exists>lo hi. pit_init frequency s =
           Some (s\<lparr>port_log := port_log s @ [OutB 0x43 0x36, OutB 0x40 lo, OutB 0x40 hi]\<rparr>)
         \<and> unat lo + 256 * unat hi = 1193182 div unat frequency"
proof -
  let ?d = "1193182 div frequency :: u32"
  let ?lo = "ucast (?d AND 0xFF) :: u8"
  let ?hi = "ucast (drop_bit 8 ?d AND 0xFF) :: u8"
  have d: "unat ?d = 1193182 div unat frequency"
    by (simp add: unat_div)
  have "1193182 div unat frequency \<le> 1193182 div 19"
    using assms by (intro div_le_mono2) auto
  then have "unat ?d < 256 * 256" by (simp add: d)
  then have "unat ?lo + 256 * unat ?hi = unat ?d"
    by (simp add: unat_bits div_less_iff_less_mult)
  moreover have "frequency \<noteq> 0" using assms by auto
  ultimately show ?thesis
    by (intro exI [of _ ?lo] exI [of _ ?hi]) (simp add: pit_init_def outb_def Let_def d)
qed

lemma pit_init_divisor_witness:
  "\<exists>lo hi. pit_init 100 power_on =
       Some (power_on\<lparr>port_log := [OutB 0x43 0x36, OutB 0x40 lo, OutB 0x40 hi]\<rparr>)
     \<and> unat lo + 256 * unat hi = 11931"
  using pit_init_divisor [of 100 power_on] by simp

end
