(* ===== verification/Vga.thy ===== *)
theory Vga
  imports Ports
begin

text \<open>
  \<open>video/vga.c\<close>: the text-mode screen of 25 rows of 80 cells, its cursor and the printing
  routines. The invariant \<open>on_screen\<close> says that the cursor is a cell of the screen; the
  linear position \<open>vga_pos\<close> is the abstract view in which printing is an append.
\<close>

section \<open>Operations\<close>

abbreviation VGA_WIDTH :: u32 where "VGA_WIDTH \<equiv> 80"
abbreviation VGA_HEIGHT :: u32 where "VGA_HEIGHT \<equiv> 25"
abbreviation default_terminal_color :: u8 where "default_terminal_color \<equiv> 0x07"

definition vga_entry :: "u8 \<Rightarrow> u8 \<Rightarrow> u16" where
  "vga_entry uc color = ucast uc OR push_bit 8 (ucast color)"

definition vga_disable_cursor :: "'a vga_scheme \<Rightarrow> 'a vga_scheme" where
  "vga_disable_cursor s = outb 0x3D5 0x20 (outb 0x3D4 0x0A s)"

definition vga_enable_cursor :: "u8 \<Rightarrow> u8 \<Rightarrow> 'a vga_scheme \<Rightarrow> 'a vga_scheme" where
  "vga_enable_cursor start end s =
     (let s = outb 0x3D4 0x0A s;
          (v, s) = inb 0x3D5 s;
          s = outb 0x3D5 ((v AND 0xC0) OR start) s;
          s = outb 0x3D4 0x0B s;
          (v, s) = inb 0x3D5 s
      in outb 0x3D5 ((v AND 0xE0) OR end) s)"

definition vga_update_cursor :: "'a vga_scheme \<Rightarrow> 'a vga_scheme" where
  "vga_update_cursor s =
     (let pos = (ucast (terminal_row s * VGA_WIDTH + terminal_column s) :: u16);
          s = outb 0x3D4 0x0F s;
          s = outb 0x3D5 (ucast (pos AND 0xFF)) s;
          s = outb 0x3D4 0x0E s
      in outb 0x3D5 (ucast (drop_bit 8 pos AND 0xFF)) s)"

definition vga_set_color :: "u8 \<Rightarrow> 'a vga_scheme \<Rightarrow> 'a vga_scheme" where
  "vga_set_color color s = s\<lparr>terminal_color := color\<rparr>"

definition vga_set_cursor :: "u32 \<Rightarrow> u32 \<Rightarrow> 'a vga_scheme \<Rightarrow> 'a vga_scheme" where
  "vga_set_cursor row col s =
     (let s = (if row < VGA_HEIGHT then s\<lparr>terminal_row := row\<rparr> else s)
      in if col < VGA_WIDTH then s\<lparr>terminal_column := col\<rparr> else s)"

text \<open>The copying loop of \<open>vga_scroll\<close>; the source's \<open>y\<close> is \<open>y + 1\<close> here.\<close>

definition scroll_lines :: "(u32 \<Rightarrow> u16) \<Rightarrow> u32 \<Rightarrow> u16" where
  "scroll_lines =
     for_upto 24 (\<lambda>y. for_upto 80 (\<lambda>x b.
       b(of_nat (y * 80 + x) := b (of_nat ((y + 1) * 80 + x)))))"

definition clear_last_line :: "u8 \<Rightarrow> (u32 \<Rightarrow> u16) \<Rightarrow> u32 \<Rightarrow> u16" where
  "clear_last_line color =
     for_upto 80 (\<lambda>x b. b(of_nat ((25 - 1) * 80 + x) := vga_entry 0x20 color))"

definition vga_scroll :: "'a vga_scheme \<Rightarrow> 'a vga_scheme" where
  "vga_scroll s =
     (if VGA_HEIGHT \<le> terminal_row s then
        s\<lparr>terminal_buffer :=
            clear_last_line (terminal_color s) (scroll_lines (terminal_buffer s)),
          terminal_row := VGA_HEIGHT - 1\<rparr>
      else s)"

definition vga_clear :: "'a vga_scheme \<Rightarrow> 'a vga_scheme" where
  "vga_clear s =
     s\<lparr>terminal_buffer :=
         for_upto 25 (\<lambda>y. for_upto 80 (\<lambda>x b.
           b(of_nat (y * 80 + x) := vga_entry 0x20 (terminal_color s)))) (terminal_buffer s),
       terminal_row := 0,
       terminal_column := 0\<rparr>"

definition vga_putchar :: "u8 \<Rightarrow> 'a vga_scheme \<Rightarrow> 'a vga_scheme" where
  "vga_putchar c s =
     (if c = 10 then
        vga_scroll (s\<lparr>terminal_column := 0, terminal_row := terminal_row s + 1\<rparr>)
      else if c = 8 then
        let s = (if 0 < terminal_column s then s\<lparr>terminal_column := terminal_column s - 1\<rparr>
                 else if 0 < terminal_row s then
                   s\<lparr>terminal_row := terminal_row s - 1, terminal_column := VGA_WIDTH - 1\<rparr>
                 else s);
            index = terminal_row s * VGA_WIDTH + terminal_column s
        in vga_update_cursor
             (s\<lparr>terminal_buffer := (terminal_buffer s)(index := vga_entry 0x20 (terminal_color s))\<rparr>)
      else
        let index = terminal_row s * VGA_WIDTH + terminal_column s;
            s = s\<lparr>terminal_buffer := (terminal_buffer s)(index := vga_entry c (terminal_color s))\<rparr>;
            s = s\<lparr>terminal_column := terminal_column s + 1\<rparr>;
            s = (if VGA_WIDTH \<le> terminal_column s then
                   s\<lparr>terminal_column := 0, terminal_row := terminal_row s + 1\<rparr>
                 else s)
        in vga_update_cursor (vga_scroll s))"

text \<open>Printing stops at the NUL of the string, or at the end of the bytes given.\<close>

fun vga_print :: "cstr \<Rightarrow> 'a vga_scheme \<Rightarrow> 'a vga_scheme" where
  "vga_print [] s = s"
| "vga_print (c # cs) s = (if c = 0 then s else vga_print cs (vga_putchar c s))"

declare vga_print.simps [simp del]

text \<open>The digits \<open>vga_print_dec\<close> collects in its buffer, least significant first.\<close>

function dec_digits :: "u32 \<Rightarrow> u8 list" where
  "dec_digits num =
     (if 0 < num then (0x30 + ucast (num mod 10)) # dec_digits (num div 10) else [])"
  by pat_completeness auto
termination
  by (relation "measure unat") (auto simp: unat_div unat_gt_0)

declare dec_digits.simps [simp del]

definition vga_print_dec :: "u32 \<Rightarrow> 'a vga_scheme \<Rightarrow> 'a vga_scheme" where
  "vga_print_dec num s =
     (if num = 0 then vga_print (lit ''0'') s
      else fold (\<lambda>c. vga_print [c, 0]) (rev (dec_digits num)) s)"

definition hex_chars :: cstr where
  "hex_chars = lit ''0123456789ABCDEF''"

definition hex_nibble :: "u32 \<Rightarrow> nat \<Rightarrow> u8" where
  "hex_nibble value i = hex_chars ! unat (drop_bit (28 - i * 4) value AND 0xF)"

definition hex_string :: "u32 \<Rightarrow> cstr" where
  "hex_string value = lit ''0x'' @ map (hex_nibble value) [0..<8]"

definition vga_print_hex :: "u32 \<Rightarrow> 'a vga_scheme \<Rightarrow> 'a vga_scheme" where
  "vga_print_hex value s = vga_print (hex_string value @ [0]) s"

definition vga_get_column :: "'a vga_scheme \<Rightarrow> u32" where
  "vga_get_column s = terminal_column s"

definition vga_print_color :: "cstr \<Rightarrow> u8 \<Rightarrow> 'a vga_scheme \<Rightarrow> 'a vga_scheme" where
  "vga_print_color str color s =
     (vga_print str (s\<lparr>terminal_color := color\<rparr>))\<lparr>terminal_color := default_terminal_color\<rparr>"

section \<open>Shape: which fields the operations touch\<close>

text \<open>A state that differs from another in the port log, the cursor and the cells only.\<close>

definition screen_step :: "'a vga_scheme \<Rightarrow> 'a vga_scheme \<Rightarrow> bool" where
  "screen_step s t \<longleftrightarrow>
     t = s\<lparr>port_log := port_log t, terminal_row := terminal_row t,
           terminal_column := terminal_column t, terminal_buffer := terminal_buffer t\<rparr>"

lemma screen_step_refl [simp, intro]: "screen_step s s"
  by (simp add: screen_step_def)

lemma screen_stepE:
  assumes "screen_step s t"
  obtains l r c b where
    "t = s\<lparr>port_log := l, terminal_row := r, terminal_column := c, terminal_buffer := b\<rparr>"
  using assms unfolding screen_step_def by blast

lemma screen_stepI:
  "t = s\<lparr>port_log := l, terminal_row := r, terminal_column := c, terminal_buffer := b\<rparr>
     \<Longrightarrow> screen_step s t"
  by (simp add: screen_step_def)

lemma screen_step_trans [trans]: "screen_step s t \<Longrightarrow> screen_step t u \<Longrightarrow> screen_step s u"
  by (elim screen_stepE, intro screen_stepI) simp

lemma screen_step_row [simp]: "screen_step s (s\<lparr>terminal_row := r\<rparr>)"
  and screen_step_col [simp]: "screen_step s (s\<lparr>terminal_column := c\<rparr>)"
  and screen_step_cell [simp]: "screen_step s (s\<lparr>terminal_buffer := b\<rparr>)"
  by (simp_all add: screen_step_def)

lemma screen_step_outb [simp]: "screen_step s (outb p v s)"
  by (simp add: screen_step_def outb_def)

lemma screen_step_update_cursor: "screen_step s (vga_update_cursor s)"
  by (simp add: screen_step_def vga_update_cursor_def outb_def Let_def)

lemma screen_step_scroll: "screen_step s (vga_scroll s)"
  by (simp add: screen_step_def vga_scroll_def)

lemma screen_step_clear: "screen_step s (vga_clear s)"
  by (simp add: screen_step_def vga_clear_def)

lemma screen_step_putchar: "screen_step s (vga_putchar c s)"
  by (simp add: screen_step_def vga_putchar_def vga_scroll_def vga_update_cursor_def
      outb_def Let_def)

lemma screen_step_print: "screen_step s (vga_print cs s)"
  by (induction cs arbitrary: s)
    (auto simp: vga_print.simps intro: screen_step_trans screen_step_putchar)

lemma screen_step_print_dec: "screen_step s (vga_print_dec n s)"
proof -
  have "screen_step s (fold (\<lambda>c. vga_print [c, 0]) ds s)" for ds
    by (induction ds arbitrary: s) (auto intro: screen_step_trans screen_step_print)
  then show ?thesis by (simp add: vga_print_dec_def screen_step_print)
qed

lemma screen_step_print_hex: "screen_step s (vga_print_hex n s)"
  by (simp add: vga_print_hex_def screen_step_print)

lemmas screen_steps =
  screen_step_putchar screen_step_print screen_step_print_dec screen_step_print_hex
  screen_step_scroll screen_step_clear screen_step_update_cursor

lemma screen_step_fields:
  assumes "screen_step s t"
  shows "terminal_color t = terminal_color s" "dev_in t = dev_in s" "regs t = regs s"
    "cpuid_leaf t = cpuid_leaf s" "interrupts_on t = interrupts_on s"
    "vga.more t = vga.more s"
  using assms by (auto elim!: screen_stepE)

section \<open>Invariant: the cursor is on the screen\<close>

definition on_screen :: "'a vga_scheme \<Rightarrow> bool" where
  "on_screen s \<longleftrightarrow> terminal_row s < VGA_HEIGHT \<and> terminal_column s < VGA_WIDTH"

definition vga_pos :: "'a vga_scheme \<Rightarrow> nat" where
  "vga_pos s = unat (terminal_row s) * 80 + unat (terminal_column s)"

lemma on_screen_nat: "on_screen s \<longleftrightarrow> unat (terminal_row s) < 25 \<and> unat (terminal_column s) < 80"
  by (simp add: on_screen_def word_less_nat_alt)

lemma vga_pos_bound: "on_screen s \<Longrightarrow> vga_pos s < 2000"
  by (simp add: on_screen_nat vga_pos_def)

lemma unat_index:
  assumes "on_screen s"
  shows "unat (terminal_row s * 80 + terminal_column s) = vga_pos s"
proof -
  have "vga_pos s < 2 ^ 32" using vga_pos_bound [OF assms] by simp
  then show ?thesis
    by (simp add: vga_pos_def unat_word_ariths)
qed

section \<open>Closed forms of the loops\<close>

lemma scroll_lines_inner:
  assumes "\<forall>i. b i = (if unat i < y * 80 then old (i + 80) else old i)" and "y < 24" and "n \<le> 80"
  shows "for_upto n (\<lambda>x b. b(of_nat (y * 80 + x) := b (of_nat ((y + 1) * 80 + x)))) b i =
           (if unat i < y * 80 + n then old (i + 80) else old (i :: u32))"
proof (rule spec [OF for_upto_invariant [where P = "\<lambda>n b. \<forall>i. b i =
          (if unat i < y * 80 + n then old (i + 80) else old i)"]], goal_cases)
  case 1
  show ?case using assms(1) by simp
next
  case (2 x b)
  let ?p = "of_nat (y * 80 + x) :: u32"
  have p: "unat ?p = y * 80 + x" using assms(2,3) 2(1) by (simp del: of_nat_add of_nat_mult)
  have q: "(of_nat ((y + 1) * 80 + x) :: u32) = ?p + 80" by (simp add: algebra_simps)
  have "unat (?p + 80) = y * 80 + x + 80"
    using assms(2,3) 2(1) p by (simp add: unat_word_ariths del: of_nat_add of_nat_mult)
  then have b: "b (?p + 80) = old (?p + 80)" using 2(2) by simp
  show ?case
  proof (intro allI)
    fix i :: u32
    have "unat i = y * 80 + x \<longleftrightarrow> i = ?p" using p by (metis word_unat_eq_iff)
    then show "(b(?p := b (of_nat ((y + 1) * 80 + x)))) i =
        (if unat i < y * 80 + Suc x then old (i + 80) else old i)"
      using 2(2) b p unfolding q by (auto simp: less_Suc_eq simp del: of_nat_add of_nat_mult)
  qed
qed

lemma scroll_lines_eq:
  "scroll_lines b i = (if unat i < 1920 then b (i + 80) else b i)"
proof -
  have "\<forall>i. scroll_lines b i = (if unat i < 24 * 80 then b (i + 80) else b i)"
    unfolding scroll_lines_def
  proof (rule for_upto_invariant [where P = "\<lambda>y c. \<forall>i. c i =
        (if unat i < y * 80 then b (i + 80) else b i)"], goal_cases)
    case (2 y c)
    then show ?case
      using scroll_lines_inner [of c y b 80] by (simp add: algebra_simps)
  qed simp
  then show ?thesis by simp
qed

lemma fill_inner:
  assumes "k + n \<le> 2 ^ 32"
  shows "for_upto n (\<lambda>x b. b(of_nat (k + x) := v)) b i =
           (if k \<le> unat i \<and> unat i < k + n then v else b (i :: u32))"
  using assms
proof (induction n)
  case (Suc n)
  have "unat (of_nat (k + n) :: u32) = k + n" using Suc.prems by (simp del: of_nat_add)
  then have "i = of_nat (k + n) \<longleftrightarrow> unat i = k + n" by (metis word_unat_eq_iff)
  with Suc show ?case by (auto simp: for_upto_Suc)
qed auto

lemma clear_last_line_eq:
  "clear_last_line color b i =
     (if 1920 \<le> unat i \<and> unat i < 2000 then vga_entry 0x20 color else b i)"
  using fill_inner [of 1920 80 "vga_entry 0x20 color" b i] by (simp add: clear_last_line_def)

lemma clear_screen_eq:
  "for_upto 25 (\<lambda>y. for_upto 80 (\<lambda>x b. b(of_nat (y * 80 + x) := v))) b i =
     (if unat i < 2000 then v else b (i :: u32))"
proof -
  have "\<forall>i. for_upto 25 (\<lambda>y. for_upto 80 (\<lambda>x b. b(of_nat (y * 80 + x) := v))) b i =
     (if unat i < 25 * 80 then v else b (i :: u32))"
  proof (rule for_upto_invariant [where P = "\<lambda>y c. \<forall>i. c i =
        (if unat i < y * 80 then v else b i)"], goal_cases)
    case (2 y c)
    then show ?case using fill_inner [of "y * 80" 80 v c] by (auto simp: algebra_simps)
  qed simp
  then show ?thesis by simp
qed

text \<open>The cells after a scroll: every line moves up by one and the last line is blank.\<close>

definition scrolled :: "u8 \<Rightarrow> (u32 \<Rightarrow> u16) \<Rightarrow> u32 \<Rightarrow> u16" where
  "scrolled color b i =
     (if unat i < 1920 then b (i + 80)
      else if unat i < 2000 then vga_entry 0x20 color else b i)"

lemma vga_scroll_eq:
  "vga_scroll s =
     (if VGA_HEIGHT \<le> terminal_row s then
        s\<lparr>terminal_buffer := scrolled (terminal_color s) (terminal_buffer s), terminal_row := 24\<rparr>
      else s)"
proof -
  have "clear_last_line color (scroll_lines b) = scrolled color b" for color b
    by (rule ext) (simp add: clear_last_line_eq scroll_lines_eq scrolled_def)
  then show ?thesis by (simp add: vga_scroll_def)
qed

section \<open>Putting a character\<close>

lemma update_cursor_fields [simp]:
  "terminal_row (vga_update_cursor s) = terminal_row s"
  "terminal_column (vga_update_cursor s) = terminal_column s"
  "terminal_buffer (vga_update_cursor s) = terminal_buffer s"
  by (simp_all add: vga_update_cursor_def outb_def Let_def)

lemma on_screen_update_cursor [simp]: "on_screen (vga_update_cursor s) = on_screen s"
  by (simp add: on_screen_def)

lemma u32_suc: "unat (x :: u32) < 2 ^ 32 - 1 \<Longrightarrow> unat (x + 1) = unat x + 1"
  by (simp add: unat_word_ariths)

lemma on_screen_putchar:
  assumes "on_screen s"
  shows "on_screen (vga_putchar c s)"
proof -
  have r: "unat (terminal_row s + 1) = unat (terminal_row s) + 1"
    and c: "unat (terminal_column s + 1) = unat (terminal_column s) + 1"
    by (rule u32_suc, use assms in \<open>simp add: on_screen_nat\<close>)+
  have d: "0 < x \<Longrightarrow> unat (x - 1) = unat x - 1" for x :: u32
    by (simp add: unat_sub word_le_nat_alt unat_gt_0 Suc_le_eq)
  show ?thesis
    using assms r c
    by (auto simp: vga_putchar_def vga_scroll_eq on_screen_nat Let_def word_le_nat_alt d)
qed

lemma on_screen_print: "on_screen s \<Longrightarrow> on_screen (vga_print cs s)"
  by (induction cs arbitrary: s) (auto simp: vga_print.simps on_screen_putchar)

text \<open>An ordinary character: neither NUL, backspace nor newline.\<close>

definition plain :: "u8 \<Rightarrow> bool" where
  "plain c \<longleftrightarrow> c \<noteq> 0 \<and> c \<noteq> 8 \<and> c \<noteq> 10"

lemma putchar_plain:
  assumes "on_screen s" and "plain c" and "vga_pos s + 1 < 2000"
  shows "vga_pos (vga_putchar c s) = vga_pos s + 1"
    and "terminal_buffer (vga_putchar c s) =
           (terminal_buffer s)(of_nat (vga_pos s) := vga_entry c (terminal_color s))"
proof -
  have r: "unat (terminal_row s + 1) = unat (terminal_row s) + 1"
    and c: "unat (terminal_column s + 1) = unat (terminal_column s) + 1"
    by (rule u32_suc, use assms in \<open>simp add: on_screen_nat\<close>)+
  have idx: "terminal_row s * 80 + terminal_column s = of_nat (vga_pos s)"
    by (simp add: vga_pos_def)
  show "vga_pos (vga_putchar c s) = vga_pos s + 1"
    using assms r c
    by (auto simp: vga_putchar_def vga_scroll_eq vga_pos_def on_screen_nat plain_def
        Let_def word_le_nat_alt)
  show "terminal_buffer (vga_putchar c s) =
           (terminal_buffer s)(of_nat (vga_pos s) := vga_entry c (terminal_color s))"
    using assms r c unfolding idx [symmetric]
    by (auto simp: vga_putchar_def vga_scroll_eq vga_pos_def on_screen_nat plain_def
        Let_def word_le_nat_alt)
qed

lemma putchar_beyond:
  assumes "on_screen s" and "2000 \<le> unat i"
  shows "terminal_buffer (vga_putchar c s) i = terminal_buffer s i"
proof -
  have ne: "i \<noteq> terminal_row u * 80 + terminal_column u" if "on_screen u" for u :: "'a vga_scheme"
    using that assms(2) unat_index [of u] vga_pos_bound [of u] by auto
  let ?left = "s\<lparr>terminal_column := terminal_column s - 1\<rparr>"
  let ?up = "s\<lparr>terminal_row := terminal_row s - 1, terminal_column := 79\<rparr>"
  have "0 < terminal_column s \<Longrightarrow> on_screen ?left"
    using assms(1) by (auto simp: on_screen_nat unat_gt_0 unat_minus_one)
  then have left: "0 < terminal_column s \<Longrightarrow>
      i \<noteq> terminal_row s * 80 + (terminal_column s - 1)" using ne [of ?left] by simp
  have "0 < terminal_row s \<Longrightarrow> on_screen ?up"
    using assms(1) by (auto simp: on_screen_nat unat_gt_0 unat_minus_one)
  then have up: "0 < terminal_row s \<Longrightarrow> i \<noteq> (terminal_row s - 1) * 80 + 79"
    using ne [of ?up] by simp
  consider "c = 10" | "c = 8" | "c \<noteq> 10" "c \<noteq> 8" by blast
  then show ?thesis
  proof cases
    case 2
    show ?thesis
      using 2 ne [OF assms(1)] left up
      by (cases "0 < terminal_column s"; cases "0 < terminal_row s")
        (simp_all add: vga_putchar_def Let_def)
  qed (use ne [OF assms(1)] assms(2) in
        \<open>simp_all add: vga_putchar_def vga_scroll_eq scrolled_def Let_def\<close>)
qed

definition cursor_events :: "u8 \<Rightarrow> u8 \<Rightarrow> port_event list" where
  "cursor_events lo hi =
     [OutB 0x3D4 0x0F, OutB 0x3D5 lo, OutB 0x3D4 0x0E, OutB 0x3D5 hi]"

lemma update_cursor_log:
  assumes "on_screen s"
  shows "\<exists>lo hi. port_log (vga_update_cursor s) = port_log s @ cursor_events lo hi
         \<and> unat lo + 256 * unat hi = vga_pos s"
proof -
  let ?pos = "ucast (terminal_row s * VGA_WIDTH + terminal_column s) :: u16"
  have "unat ?pos = vga_pos s"
    using unat_index [OF assms] vga_pos_bound [OF assms] by (simp add: unat_ucast_mod)
  moreover have "vga_pos s < 256 * 256" using vga_pos_bound [OF assms] by simp
  ultimately have "unat (ucast (?pos AND 0xFF) :: u8)
      + 256 * unat (ucast (drop_bit 8 ?pos AND 0xFF) :: u8) = vga_pos s"
    by (simp add: unat_bits div_less_iff_less_mult)
  then show ?thesis
    by (intro exI conjI) (simp_all add: vga_update_cursor_def cursor_events_def Let_def)
qed

lemma putchar_updates_cursor:
  assumes "c \<noteq> 10"
  shows "\<exists>u. vga_putchar c s = vga_update_cursor u"
  using assms by (auto simp: vga_putchar_def Let_def)

section \<open>Printing\<close>

lemma print_plain:
  assumes "on_screen s" and "\<forall>c \<in> set cs. plain c" and "vga_pos s + length cs < 2000"
  shows "vga_pos (vga_print cs s) = vga_pos s + length cs
       \<and> (\<forall>i. terminal_buffer (vga_print cs s) i =
            (if vga_pos s \<le> unat i \<and> unat i < vga_pos s + length cs
             then vga_entry (cs ! (unat i - vga_pos s)) (terminal_color s)
             else terminal_buffer s i))"
  using assms
proof (induction cs arbitrary: s)
  case Nil
  then show ?case by (auto simp: vga_print.simps)
next
  case (Cons c cs)
  let ?t = "vga_putchar c s"
  have c: "plain c" "c \<noteq> 0" using Cons.prems(2) by (auto simp: plain_def)
  have t: "vga_pos ?t = vga_pos s + 1" "terminal_color ?t = terminal_color s" "on_screen ?t"
    "terminal_buffer ?t = (terminal_buffer s)(of_nat (vga_pos s) := vga_entry c (terminal_color s))"
    using putchar_plain [OF Cons.prems(1) c(1)] Cons.prems(3) on_screen_putchar [OF Cons.prems(1)]
      screen_step_fields [OF screen_step_putchar [of s c]] by auto
  have "unat (of_nat (vga_pos s) :: u32) = vga_pos s" using Cons.prems(3) by simp
  then have eq: "i = of_nat (vga_pos s) \<longleftrightarrow> unat i = vga_pos s" for i :: u32
    by (metis word_unat_eq_iff)
  show ?case
    using Cons.IH [of ?t] Cons.prems t c
    by (auto simp: vga_print.simps eq nth_Cons' Suc_diff_le)
qed

lemma vga_print_append:
  "0 \<notin> set cs \<Longrightarrow> vga_print (cs @ ds) s = vga_print ds (vga_print cs s)"
  by (induction cs arbitrary: s) (auto simp: vga_print.simps)

lemma vga_print_upto_nul: "vga_print cs s = vga_print (upto_nul cs) s"
  by (induction cs arbitrary: s) (auto simp: vga_print.simps)

lemma vga_print_fold: "0 \<notin> set cs \<Longrightarrow> vga_print cs s = fold (\<lambda>c. vga_print [c, 0]) cs s"
  by (induction cs arbitrary: s) (auto simp: vga_print.simps)

text \<open>Decimal digits, most significant first, as a number.\<close>

definition dec_value :: "cstr \<Rightarrow> nat" where
  "dec_value ds = foldl (\<lambda>a d. 10 * a + unat (d - 0x30)) 0 ds"

definition dec_string :: "u32 \<Rightarrow> cstr" where
  "dec_string n = (if n = 0 then lit ''0'' else rev (dec_digits n))"

lemma dec_digit:
  fixes n :: u32
  shows "unat (0x30 + ucast (n mod 10) :: u8) = 48 + unat n mod 10"
    and "unat (ucast (n mod 10) :: u8) = unat n mod 10"
proof -
  have m: "unat (n mod 10) = unat n mod 10" by (simp add: unat_mod)
  have "unat n mod 10 < 10" by simp
  then show "unat (0x30 + ucast (n mod 10) :: u8) = 48 + unat n mod 10"
    and "unat (ucast (n mod 10) :: u8) = unat n mod 10"
    by (auto simp add: unat_word_ariths unat_ucast_mod m)
qed

lemma dec_digits_value: "dec_value (rev (dec_digits n)) = unat n"
proof (induction n rule: dec_digits.induct)
  case (1 n)
  show ?case
  proof (cases "n = 0")
    case False
    then have "dec_value (rev (dec_digits (n div 10))) = unat n div 10"
      using "1.IH" by (simp add: word_gt_0 unat_div)
    with False show ?thesis
      by (subst dec_digits.simps) (simp add: word_gt_0 dec_value_def dec_digit(2))
  qed (simp add: dec_digits.simps dec_value_def)
qed

lemma dec_digits_length: "unat n < 10 ^ k \<Longrightarrow> length (dec_digits n) \<le> k"
proof (induction k arbitrary: n)
  case 0
  then show ?case by (simp add: dec_digits.simps unat_eq_0)
next
  case (Suc k)
  then have "unat (n div 10) < 10 ^ k" by (simp add: unat_div div_less_iff_less_mult mult.commute)
  then have "length (dec_digits (n div 10)) \<le> k" by (rule Suc.IH)
  then show ?case by (subst dec_digits.simps) simp
qed

lemma dec_digits_0 [simp]: "dec_digits 0 = []"
  by (subst dec_digits.simps) simp

lemma dec_digits_pos:
  "0 < n \<Longrightarrow> dec_digits n = (0x30 + ucast (n mod 10)) # dec_digits (n div 10)"
  by (subst dec_digits.simps) simp

lemma dec_digits_range: "\<forall>d \<in> set (dec_digits n). 48 \<le> unat d \<and> unat d \<le> 57"
proof (induction n rule: dec_digits.induct)
  case (1 n)
  have "unat n mod 10 \<le> 9" by presburger
  then have "48 \<le> unat (0x30 + ucast (n mod 10) :: u8) \<and> unat (0x30 + ucast (n mod 10) :: u8) \<le> 57"
    by (simp only: dec_digit(1)) simp
  note head = this
  show ?case
  proof (cases "n = 0")
    case False
    then have n: "0 < n" by (simp add: word_gt_0)
    then show ?thesis
      unfolding dec_digits_pos [OF n] using "1.IH" [OF n] head by simp
  qed simp
qed

lemma dec_digits_last: "0 < n \<Longrightarrow> last (dec_digits n) \<noteq> 0x30 \<and> dec_digits n \<noteq> []"
proof (induction n rule: dec_digits.induct)
  case (1 n)
  show ?case
  proof (cases "n div 10 = 0")
    case True
    then have "unat n div 10 = 0" by (simp add: word_unat_eq_iff unat_div)
    then have "unat n mod 10 \<noteq> 0" using "1.prems" by (auto simp: unat_gt_0 word_gt_0)
    then have "(ucast (n mod 10) :: u8) \<noteq> 0" using dec_digit(2) [of n] by auto
    then show ?thesis using True "1.prems" by (simp add: dec_digits_pos dec_digits.simps [of 0])
  next
    case False
    then have "0 < n div 10" by (simp add: word_gt_0)
    with "1.IH" "1.prems" show ?thesis by (simp add: dec_digits_pos [of n])
  qed
qed

lemma vga_print_dec_string: "vga_print_dec n s = vga_print (dec_string n) s"
proof -
  have "0 \<notin> set (rev (dec_digits n))" using dec_digits_range by fastforce
  then show ?thesis by (simp add: vga_print_dec_def dec_string_def vga_print_fold)
qed

text \<open>Hexadecimal digits as a number.\<close>

definition hex_digit :: "u8 \<Rightarrow> nat" where
  "hex_digit c = (if c \<le> 0x39 then unat c - 48 else unat c - 55)"

definition hex_value :: "cstr \<Rightarrow> nat" where
  "hex_value ds = foldl (\<lambda>a d. 16 * a + hex_digit d) 0 ds"

lemma hex_chars_digit: "k < 16 \<Longrightarrow> hex_digit (hex_chars ! k) = k \<and> hex_chars ! k \<noteq> 0"
proof -
  have "\<forall>k \<in> set [0..<16]. hex_digit (hex_chars ! k) = k \<and> hex_chars ! k \<noteq> 0"
    by (simp add: upt_rec hex_chars_def lit_def hex_digit_def)
  then show "k < 16 \<Longrightarrow> hex_digit (hex_chars ! k) = k \<and> hex_chars ! k \<noteq> 0" by simp
qed

lemma hex_nibble_digit:
  "hex_digit (hex_nibble v i) = unat v div 2 ^ (28 - i * 4) mod 16 \<and> hex_nibble v i \<noteq> 0"
proof -
  have "drop_bit (28 - i * 4) v AND 0xF = take_bit 4 (drop_bit (28 - i * 4) v)"
    using take_bit_eq_mask [of 4 "drop_bit (28 - i * 4) v"] by (simp add: mask_eq_exp_minus_1)
  then have "unat (drop_bit (28 - i * 4) v AND 0xF) = unat v div 2 ^ (28 - i * 4) mod 16"
    by (simp add: unat_take_bit_mod unat_drop_bit_div)
  then show ?thesis using hex_chars_digit by (simp add: hex_nibble_def)
qed

lemma nibble_step: "16 * (n div (16 * k)) + n div k mod 16 = n div (k :: nat)"
  by (metis div_mult2_eq mult.commute mult_div_mod_eq)

lemma hex_string_value: "hex_value (drop 2 (hex_string v)) = unat v"
proof -
  have "unat v < 2 ^ 32" using unsigned_less [of v] by simp
  then have top: "unat v div 268435456 mod 16 = unat v div 268435456"
    by (simp add: div_less_iff_less_mult)
  show ?thesis
    using nibble_step [of "unat v" 16777216] nibble_step [of "unat v" 1048576]
      nibble_step [of "unat v" 65536] nibble_step [of "unat v" 4096]
      nibble_step [of "unat v" 256] nibble_step [of "unat v" 16] nibble_step [of "unat v" 1]
    by (simp add: hex_string_def hex_value_def hex_nibble_digit upt_rec lit_def top)
qed

lemma putchar_newline:
  assumes "on_screen s"
  shows "vga_putchar 10 s =
     (if terminal_row s = 24
      then s\<lparr>terminal_column := 0, terminal_row := 24,
             terminal_buffer := scrolled (terminal_color s) (terminal_buffer s)\<rparr>
      else s\<lparr>terminal_column := 0, terminal_row := terminal_row s + 1\<rparr>)"
proof -
  have "unat (terminal_row s + 1) = unat (terminal_row s) + 1"
    by (rule u32_suc, use assms in \<open>simp add: on_screen_nat\<close>)
  moreover have "terminal_row s = 24 \<longleftrightarrow> unat (terminal_row s) = 24"
    by (simp add: word_unat_eq_iff)
  ultimately show ?thesis
    using assms by (simp add: vga_putchar_def vga_scroll_eq on_screen_nat word_le_nat_alt)
qed

lemma vga_print_hex_string: "vga_print_hex v s = vga_print (hex_string v) s"
proof -
  have "0 \<notin> set (hex_string v)"
    using hex_nibble_digit [of v] by (auto simp: hex_string_def lit_def)
  then show ?thesis
    using vga_print_upto_nul [of "hex_string v @ [0]" s] upto_nul_append_nul [of "hex_string v" "[]"]
    by (simp add: vga_print_hex_def)
qed

lemma length_hex_string: "length (hex_string v) = 10"
  by (simp add: hex_string_def lit_def)

lemma dec_string_length: "length (dec_string n) \<le> 10"
proof -
  have "unat n < 2 ^ 32" using unsigned_less [of n] by simp
  then have "unat n < 10 ^ 10" by simp
  then show ?thesis using dec_digits_length [of n 10] by (simp add: dec_string_def)
qed

section \<open>Properties\<close>

lemma power_on_screen: "on_screen power_on"
  by (simp add: on_screen_def)

text \<open>C17: printing any string keeps the cursor on the screen, and no cell outside the 2000
  visible ones is ever written.\<close>

theorem vga_print_stays_on_screen:
  assumes "on_screen s"
  shows "on_screen (vga_print cs s)
       \<and> (\<forall>i. 2000 \<le> unat i \<longrightarrow> terminal_buffer (vga_print cs s) i = terminal_buffer s i)"
  using assms
  by (induction cs arbitrary: s) (simp_all add: vga_print.simps on_screen_putchar putchar_beyond)

theorem vga_print_stays_on_screen_witness:
  "on_screen (vga_print (lit ''hello\<newline>'') power_on)
   \<and> terminal_buffer (vga_print (lit ''hello\<newline>'') power_on) 2000 = terminal_buffer power_on 2000"
  using vga_print_stays_on_screen [OF power_on_screen] by simp

text \<open>A string of ordinary characters that fits before the end of the screen is written
  to consecutive cells in the current colour, everything else is kept, and the cursor ends
  right after it.\<close>

lemma vga_print_writes_text:
  assumes "on_screen s" and "\<forall>c \<in> set cs. plain c" and "vga_pos s + length cs < 2000"
  shows "vga_pos (vga_print cs s) = vga_pos s + length cs
       \<and> (\<forall>i. terminal_buffer (vga_print cs s) i =
            (if vga_pos s \<le> unat i \<and> unat i < vga_pos s + length cs
             then vga_entry (cs ! (unat i - vga_pos s)) (terminal_color s)
             else terminal_buffer s i))"
  using assms by (rule print_plain)

lemma vga_print_writes_text_witness:
  "terminal_buffer (vga_print (lit ''ok'') power_on) 1 = vga_entry 0x6B 0"
  using vga_print_writes_text [OF power_on_screen, of "lit ''ok''"]
  by (simp add: lit_def plain_def vga_pos_def power_on_def)

text \<open>A newline on the last line scrolls: every line moves up by one, the last line is blank
  in the current colour and the cursor is at its start; above the last line it only moves the
  cursor.\<close>

lemma vga_putchar_newline:
  assumes "on_screen s"
  shows "vga_putchar 10 s =
     (if terminal_row s = 24
      then s\<lparr>terminal_column := 0, terminal_row := 24,
             terminal_buffer := scrolled (terminal_color s) (terminal_buffer s)\<rparr>
      else s\<lparr>terminal_column := 0, terminal_row := terminal_row s + 1\<rparr>)"
  using assms by (rule putchar_newline)

lemma vga_putchar_newline_witness:
  "terminal_row (vga_putchar 10 (power_on\<lparr>terminal_row := 24\<rparr>)) = 24
   \<and> terminal_row (vga_putchar 10 power_on) = 1"
  using vga_putchar_newline [of "power_on\<lparr>terminal_row := 24\<rparr>"] vga_putchar_newline [of power_on]
  by (simp add: on_screen_def)

text \<open>After any character but a newline the hardware cursor is programmed last, and the two
  bytes sent to the controller are the cursor's position.\<close>

lemma vga_putchar_cursor:
  assumes "on_screen s" and "c \<noteq> 10"
  shows "\<exists>l lo hi. port_log (vga_putchar c s) = l @ cursor_events lo hi
       \<and> unat lo + 256 * unat hi = vga_pos (vga_putchar c s)"
proof -
  obtain u where u: "vga_putchar c s = vga_update_cursor u"
    using putchar_updates_cursor [OF assms(2)] by blast
  then have "on_screen u" using on_screen_putchar [OF assms(1), of c] by simp
  then show ?thesis using update_cursor_log [of u] u by (auto simp: vga_pos_def)
qed

lemma vga_putchar_cursor_witness:
  "\<exists>l lo hi. port_log (vga_putchar 0x41 power_on) = l @ cursor_events lo hi
     \<and> unat lo + 256 * unat hi = vga_pos (vga_putchar 0x41 power_on)"
  by (rule vga_putchar_cursor [OF power_on_screen]) simp

text \<open>C18: a number printed in decimal is its shortest decimal representation: at most ten
  digits, none leading zero but for 0 itself, and their value is the number.\<close>

theorem vga_print_dec_decimal:
  "vga_print_dec n s = vga_print (dec_string n) s
   \<and> dec_value (dec_string n) = unat n
   \<and> length (dec_string n) \<le> 10
   \<and> (n \<noteq> 0 \<longrightarrow> hd (dec_string n) \<noteq> 0x30)
   \<and> (\<forall>d \<in> set (dec_string n). 48 \<le> unat d \<and> unat d \<le> 57)"
proof -
  have hd: "n \<noteq> 0 \<Longrightarrow> hd (rev (dec_digits n)) \<noteq> 0x30"
    using dec_digits_last [of n] by (simp add: hd_rev word_gt_0)
  show ?thesis
    using dec_string_length [of n] hd dec_digits_value [of n] dec_digits_range [of n]
    by (auto simp: vga_print_dec_string dec_string_def lit_def dec_value_def)
qed

theorem vga_print_dec_decimal_witness:
  "dec_value (dec_string 1024) = 1024 \<and> hd (dec_string 1024) \<noteq> 0x30"
  using vga_print_dec_decimal [of 1024 power_on] by simp

text \<open>A number printed in hexadecimal is \<open>0x\<close> and exactly eight digits whose value is the
  number.\<close>

lemma vga_print_hex_hexadecimal:
  "vga_print_hex v s = vga_print (hex_string v) s
   \<and> length (hex_string v) = 10 \<and> take 2 (hex_string v) = lit ''0x''
   \<and> hex_value (drop 2 (hex_string v)) = unat v"
  by (simp add: vga_print_hex_string length_hex_string hex_string_value)
    (simp add: hex_string_def lit_def)

text \<open>Clearing the screen blanks exactly the 2000 cells in the current colour and homes the cursor.\<close>

lemma vga_clear_blank:
  "terminal_buffer (vga_clear s) i =
     (if unat i < 2000 then vga_entry 0x20 (terminal_color s) else terminal_buffer s i)
   \<and> vga_pos (vga_clear s) = 0 \<and> on_screen (vga_clear s)"
  by (simp add: vga_clear_def clear_screen_eq vga_pos_def on_screen_def
      del: of_nat_add of_nat_mult)

end
