(* ===== verification/Memory.thy ===== *)
theory Memory
  imports Machine
begin

text \<open>
  The byte memory the kernel sees once paging is on, and 32-bit loads and stores on it.
  \<open>paging_init\<close> maps every page from \<open>0x1000\<close> to \<open>0x3FFFFF\<close> onto itself and leaves page 0
  out; the page-fault handler maps any page of \<open>0x400000\<close> to \<open>0x7FFFFF\<close> on first touch and
  panics for every other address. A load or store outside \<open>0x1000 .. 0x7FFFFF\<close> therefore
  never returns: it is \<open>None\<close>. The content of a page that was never written is whatever the
  memory held, which is why no theorem assumes anything about it.
\<close>

section \<open>Loads and stores\<close>

type_synonym mem = "u32 \<Rightarrow> u8"

definition accessible :: "u32 \<Rightarrow> nat \<Rightarrow> bool" where
  "accessible a n \<longleftrightarrow> 0x1000 \<le> unat a \<and> unat a + n \<le> 0x800000"

text \<open>Little-endian 32-bit words.\<close>

definition get32 :: "mem \<Rightarrow> u32 \<Rightarrow> u32" where
  "get32 m a = ucast (m a) OR push_bit 8 (ucast (m (a + 1)))
     OR push_bit 16 (ucast (m (a + 2))) OR push_bit 24 (ucast (m (a + 3)))"

definition put32 :: "u32 \<Rightarrow> u32 \<Rightarrow> mem \<Rightarrow> mem" where
  "put32 a v m = m(a := ucast v, a + 1 := ucast (drop_bit 8 v),
     a + 2 := ucast (drop_bit 16 v), a + 3 := ucast (drop_bit 24 v))"

definition ld8 :: "mem \<Rightarrow> u32 \<Rightarrow> u8 option" where
  "ld8 m a = (if accessible a 1 then Some (m a) else None)"

definition st8 :: "u32 \<Rightarrow> u8 \<Rightarrow> mem \<Rightarrow> mem option" where
  "st8 a v m = (if accessible a 1 then Some (m(a := v)) else None)"

definition ld32 :: "mem \<Rightarrow> u32 \<Rightarrow> u32 option" where
  "ld32 m a = (if accessible a 4 then Some (get32 m a) else None)"

definition st32 :: "u32 \<Rightarrow> u32 \<Rightarrow> mem \<Rightarrow> mem option" where
  "st32 a v m = (if accessible a 4 then Some (put32 a v m) else None)"

section \<open>Reads after writes\<close>

lemma ld32_ok: "accessible a 4 \<Longrightarrow> ld32 m a = Some (get32 m a)"
  by (simp add: ld32_def)

lemma st32_ok: "accessible a 4 \<Longrightarrow> st32 a v m = Some (put32 a v m)"
  by (simp add: st32_def)

lemma assemble32:
  "ucast (ucast v :: u8) OR push_bit 8 (ucast (ucast (drop_bit 8 v) :: u8))
     OR push_bit 16 (ucast (ucast (drop_bit 16 v) :: u8))
     OR push_bit 24 (ucast (ucast (drop_bit 24 v) :: u8)) = (v :: u32)" (is "?l = v")
proof (rule bit_word_eqI)
  fix n assume n: "n < LENGTH(32)"
  consider "n < 8" | "8 \<le> n" "n < 16" | "16 \<le> n" "n < 24" | "24 \<le> n" by linarith
  then show "bit ?l n = bit v n"
  proof cases
    case 1
    then show ?thesis by (auto simp: bit_simps)
  next
    case 2
    then show ?thesis by (auto simp: bit_simps)
  next
    case 3
    then show ?thesis by (auto simp: bit_simps)
  next
    case 4
    then show ?thesis using n by (auto simp: bit_simps)
  qed
qed
lemma word_off_neq:
  fixes a :: u32
  shows "a + 1 \<noteq> a" "a + 2 \<noteq> a" "a + 3 \<noteq> a" "a + 2 \<noteq> a + 1" "a + 3 \<noteq> a + 1" "a + 3 \<noteq> a + 2"
    "a \<noteq> a + 1" "a \<noteq> a + 2" "a \<noteq> a + 3" "a + 1 \<noteq> a + 2" "a + 1 \<noteq> a + 3" "a + 2 \<noteq> a + 3"
  by (simp_all add: add_left_cancel)

lemma get32_put32_same [simp]: "get32 (put32 a v m) a = v"
  by (simp add: get32_def put32_def word_off_neq assemble32)

text \<open>Two word accesses at different distance: apart by at least four bytes, around the wrap.\<close>

definition apart :: "u32 \<Rightarrow> u32 \<Rightarrow> bool" where
  "apart a b \<longleftrightarrow> 3 < a - b \<and> 3 < b - a"

lemma apart_sym: "apart a b \<longleftrightarrow> apart b a"
  by (auto simp: apart_def)

lemma apart_byte:
  assumes "apart a b" and "i < 4" and "j < 4"
  shows "a + of_nat i \<noteq> b + of_nat j"
proof
  assume "a + of_nat i = b + of_nat j"
  then have d: "a - b = of_nat j - of_nat i" "b - a = of_nat i - of_nat j"
    by (simp_all add: algebra_simps)
  have "i \<in> {0,1,2,3}" "j \<in> {0,1,2,3}" using assms(2,3) by auto
  with assms(1) d show False by (auto simp: apart_def)
qed

lemma get32_put32_apart:
  assumes "apart a b"
  shows "get32 (put32 a v m) b = get32 m b"
proof -
  have n: "a + of_nat i \<noteq> b + of_nat j" if "i < 4" "j < 4" for i j
    using apart_byte [OF assms that] .
  show ?thesis
    using n [of 0 0] n [of 0 1] n [of 0 2] n [of 0 3] n [of 1 0] n [of 1 1] n [of 1 2] n [of 1 3]
      n [of 2 0] n [of 2 1] n [of 2 2] n [of 2 3] n [of 3 0] n [of 3 1] n [of 3 2] n [of 3 3]
    by (simp add: get32_def put32_def)
qed

lemma apart_nat:
  assumes "unat a + 4 \<le> unat b \<or> unat b + 4 \<le> unat a"
    and "unat a + 4 \<le> 2 ^ 32" and "unat b + 4 \<le> 2 ^ 32"
  shows "apart a b"
proof -
  have *: "3 < y - x \<and> 3 < x - y" if "unat x + 4 \<le> unat y" "unat y + 4 \<le> 2 ^ 32" for x y :: u32
  proof
    have "unat (y - x) = unat y - unat x" using that by (simp add: unat_diff_small)
    then show "3 < y - x" using that by (simp add: word_less_nat_alt)
    have "unat (x - y) = 2 ^ 32 + unat x - unat y"
      using that by (simp add: unat_sub_if')
    then show "3 < x - y" using that by (simp add: word_less_nat_alt)
  qed
  from assms show ?thesis by (auto simp: apart_def dest: *)
qed

text \<open>A word store changes four bytes only.\<close>

lemma put32_byte:
  assumes "unat b < unat a \<or> unat a + 4 \<le> unat b" and "unat a + 4 \<le> 2 ^ 32"
  shows "put32 a v m b = m b"
proof -
  have "unat (a + of_nat i) = unat a + i" if "i < 4" for i
    using that assms(2) by (simp add: unat_word_ariths)
  from this [of 0] this [of 1] this [of 2] this [of 3]
  have "b \<noteq> a" "b \<noteq> a + 1" "b \<noteq> a + 2" "b \<noteq> a + 3"
    using assms(1) by (auto simp: word_unat_eq_iff)
  then show ?thesis by (simp add: put32_def)
qed

text \<open>Reading a word depends on its four bytes only.\<close>

lemma get32_cong:
  assumes "m a = m' a" "m (a + 1) = m' (a + 1)" "m (a + 2) = m' (a + 2)" "m (a + 3) = m' (a + 3)"
  shows "get32 m a = get32 m' a"
  using assms by (simp add: get32_def)

end
