(* ===== verification/Heap.thy ===== *)
theory Heap
  imports Vga Memory
begin

text \<open>
  \<open>mm/heap.c\<close>: the kernel heap, a doubly linked list of blocks in the byte memory. A block is
  a 20-byte header (\<open>magic\<close> at 0, \<open>size\<close> at 4, \<open>free\<close> at 8, \<open>next\<close> at 12, \<open>prev\<close> at 16),
  its payload and a magic word after the payload. Every field access of the source is a load
  or a store here, in the source's order, including the loads it repeats. \<open>None\<close> means
  that the call does not return: an access outside the mapped memory, or a list walk that never
  ends.
\<close>

section \<open>Operations\<close>

abbreviation KERNEL_HEAP_START :: u32 where "KERNEL_HEAP_START \<equiv> 0x400000"
abbreviation KERNEL_HEAP_END :: u32 where "KERNEL_HEAP_END \<equiv> 0x800000"
abbreviation HEAP_MAGIC :: u32 where "HEAP_MAGIC \<equiv> 0xDEADBEEF"
abbreviation MIN_BLOCK_SIZE :: u32 where "MIN_BLOCK_SIZE \<equiv> 8"
abbreviation HDR :: u32 where "HDR \<equiv> 20"
abbreviation TAIL :: u32 where "TAIL \<equiv> 4"

definition heap_init :: "'a heap_scheme \<Rightarrow> 'a heap_scheme" where
  "heap_init s = s\<lparr>heap_start := KERNEL_HEAP_START, heap_end := KERNEL_HEAP_START\<rparr>"

text \<open>The five header stores of a new block.\<close>

definition init_block :: "u32 \<Rightarrow> u32 \<Rightarrow> u32 \<Rightarrow> u32 \<Rightarrow> u32 \<Rightarrow> mem \<Rightarrow> mem option" where
  "init_block b sz free next prev m = do {
     m \<leftarrow> st32 b HEAP_MAGIC m;
     m \<leftarrow> st32 (b + 4) sz m;
     m \<leftarrow> st32 (b + 8) free m;
     m \<leftarrow> st32 (b + 12) next m;
     st32 (b + 16) prev m }"

definition kmalloc_first :: "u32 \<Rightarrow> 'a heap_scheme \<Rightarrow> (u32 \<times> 'a heap_scheme) option" where
  "kmalloc_first sz s =
     (let new_end = heap_end s + HDR + sz; head = heap_end s
      in if KERNEL_HEAP_END \<le> new_end then Some (0, s)
         else do {
           m \<leftarrow> init_block head sz 0 0 0 (ram s);
           m \<leftarrow> st32 (head + HDR + sz) HEAP_MAGIC m;
           Some (head + HDR, s\<lparr>ram := m, heap_head := head, heap_end := new_end\<rparr>) })"

datatype search = Fit u32 | Last u32

partial_function (option) heap_search :: "u32 \<Rightarrow> mem \<Rightarrow> u32 \<Rightarrow> search option" where
  "heap_search sz m current = do {
     free \<leftarrow> ld32 m (current + 8);
     fits \<leftarrow> (if free \<noteq> 0 then do { csize \<leftarrow> ld32 m (current + 4); Some (sz \<le> csize) }
              else Some False);
     if fits then Some (Fit current)
     else do {
       next \<leftarrow> ld32 m (current + 12);
       if next = 0 then Some (Last current) else heap_search sz m next } }"

definition split_block :: "u32 \<Rightarrow> u32 \<Rightarrow> mem \<Rightarrow> mem option" where
  "split_block current sz m =
     (let new_block = current + HDR + sz in do {
        m \<leftarrow> st32 new_block HEAP_MAGIC m;
        csize \<leftarrow> ld32 m (current + 4);
        m \<leftarrow> st32 (new_block + 4) (csize - sz - HDR - TAIL) m;
        m \<leftarrow> st32 (new_block + 8) 1 m;
        cnext \<leftarrow> ld32 m (current + 12);
        m \<leftarrow> st32 (new_block + 12) cnext m;
        m \<leftarrow> st32 (new_block + 16) current m;
        nsize \<leftarrow> ld32 m (new_block + 4);
        m \<leftarrow> st32 (new_block + HDR + nsize) HEAP_MAGIC m;
        nnext \<leftarrow> ld32 m (new_block + 12);
        m \<leftarrow> (if nnext \<noteq> 0 then st32 (nnext + 16) new_block m else Some m);
        m \<leftarrow> st32 (current + 4) sz m;
        m \<leftarrow> st32 (current + 12) new_block m;
        st32 (current + HDR + sz) HEAP_MAGIC m })"

definition kmalloc_take :: "u32 \<Rightarrow> u32 \<Rightarrow> 'a heap_scheme \<Rightarrow> (u32 \<times> 'a heap_scheme) option" where
  "kmalloc_take sz current s = do {
     csize \<leftarrow> ld32 (ram s) (current + 4);
     m \<leftarrow> (if sz + HDR + TAIL + MIN_BLOCK_SIZE \<le> csize
           then split_block current sz (ram s) else Some (ram s));
     m \<leftarrow> st32 (current + 8) 0 m;
     Some (current + HDR, s\<lparr>ram := m\<rparr>) }"

definition kmalloc_append :: "u32 \<Rightarrow> u32 \<Rightarrow> 'a heap_scheme \<Rightarrow> (u32 \<times> 'a heap_scheme) option" where
  "kmalloc_append sz current s =
     (let new_end = heap_end s + HDR + sz + TAIL; new_block = heap_end s
      in if new_end < heap_end s then Some (0, s)
         else if KERNEL_HEAP_END \<le> new_end then Some (0, s)
         else do {
           m \<leftarrow> init_block new_block sz 0 0 current (ram s);
           nsize \<leftarrow> ld32 m (new_block + 4);
           m \<leftarrow> st32 (new_block + HDR + nsize) HEAP_MAGIC m;
           m \<leftarrow> st32 (current + 12) new_block m;
           Some (new_block + HDR, s\<lparr>ram := m, heap_end := new_end\<rparr>) })"

definition kmalloc :: "u32 \<Rightarrow> 'a heap_scheme \<Rightarrow> (u32 \<times> 'a heap_scheme) option" where
  "kmalloc sz s =
     (if sz = 0 then Some (0, s)
      else let aligned = (sz + 7) AND NOT 7
      in if aligned < sz then Some (0, s)
      else let sz = aligned
      in if KERNEL_HEAP_END - heap_end s - HDR - TAIL < sz then Some (0, s)
      else if heap_head s = 0 then kmalloc_first sz s
      else do {
        found \<leftarrow> heap_search sz (ram s) (heap_head s);
        case found of
          Fit current \<Rightarrow> kmalloc_take sz current s
        | Last current \<Rightarrow> kmalloc_append sz current s })"

text \<open>\<open>kfree\<close>: the two merges and the release of the end of the heap.\<close>

definition in_heap :: "u32 \<Rightarrow> 'a heap_scheme \<Rightarrow> bool" where
  "in_heap b s \<longleftrightarrow> heap_start s \<le> b \<and> b < heap_end s"

definition merge_next :: "u32 \<Rightarrow> 'a heap_scheme \<Rightarrow> mem \<Rightarrow> mem option" where
  "merge_next block s m = do {
     next \<leftarrow> ld32 m (block + 12);
     if next \<noteq> 0 \<and> in_heap next s
     then do {
       nfree \<leftarrow> ld32 m (next + 8);
       if nfree \<noteq> 0
       then do {
         bsize \<leftarrow> ld32 m (block + 4);
         nsize \<leftarrow> ld32 m (next + 4);
         m \<leftarrow> st32 (block + 4) (bsize + (HDR + nsize + TAIL)) m;
         next \<leftarrow> ld32 m (block + 12);
         nnext \<leftarrow> ld32 m (next + 12);
         m \<leftarrow> st32 (block + 12) nnext m;
         bsize \<leftarrow> ld32 m (block + 4);
         m \<leftarrow> st32 (block + HDR + bsize) HEAP_MAGIC m;
         bnext \<leftarrow> ld32 m (block + 12);
         if bnext \<noteq> 0 then st32 (bnext + 16) block m else Some m }
       else Some m }
     else Some m }"

definition merge_prev :: "u32 \<Rightarrow> 'a heap_scheme \<Rightarrow> mem \<Rightarrow> mem option" where
  "merge_prev block s m = do {
     prev \<leftarrow> ld32 m (block + 16);
     if prev \<noteq> 0 \<and> in_heap prev s
     then do {
       pfree \<leftarrow> ld32 m (prev + 8);
       if pfree \<noteq> 0
       then do {
         psize \<leftarrow> ld32 m (prev + 4);
         bsize \<leftarrow> ld32 m (block + 4);
         m \<leftarrow> st32 (prev + 4) (psize + (HDR + bsize + TAIL)) m;
         prev \<leftarrow> ld32 m (block + 16);
         psize \<leftarrow> ld32 m (prev + 4);
         m \<leftarrow> st32 (prev + HDR + psize) HEAP_MAGIC m;
         prev \<leftarrow> ld32 m (block + 16);
         bnext \<leftarrow> ld32 m (block + 12);
         m \<leftarrow> st32 (prev + 12) bnext m;
         bnext \<leftarrow> ld32 m (block + 12);
         if bnext \<noteq> 0
         then do { prev \<leftarrow> ld32 m (block + 16); st32 (bnext + 16) prev m }
         else Some m }
       else Some m }
     else Some m }"

partial_function (option) last_block :: "mem \<Rightarrow> u32 \<Rightarrow> u32 option" where
  "last_block m cur = do {
     next \<leftarrow> ld32 m (cur + 12);
     if next = 0 then Some cur else last_block m next }"

definition release_end :: "'a heap_scheme \<Rightarrow> 'a heap_scheme option" where
  "release_end s =
     (if heap_head s = 0 then Some s
      else do {
        free \<leftarrow> ld32 (ram s) (heap_head s + 8);
        only \<leftarrow> (if free \<noteq> 0 then do { next \<leftarrow> ld32 (ram s) (heap_head s + 12); Some (next = 0) }
                 else Some False);
        if only then Some (s\<lparr>heap_end := heap_start s, heap_head := 0\<rparr>)
        else do {
          end_block \<leftarrow> last_block (ram s) (heap_head s);
          lfree \<leftarrow> ld32 (ram s) (end_block + 8);
          Some (if lfree \<noteq> 0 then s\<lparr>heap_end := end_block\<rparr> else s) } })"

definition kfree_block :: "u32 \<Rightarrow> 'a heap_scheme \<Rightarrow> 'a heap_scheme option" where
  "kfree_block block s = do {
     m \<leftarrow> st32 (block + 8) 1 (ram s);
     m \<leftarrow> merge_next block s m;
     m \<leftarrow> merge_prev block s m;
     release_end (s\<lparr>ram := m\<rparr>) }"

definition kfree :: "u32 \<Rightarrow> 'a heap_scheme \<Rightarrow> 'a heap_scheme option" where
  "kfree ptr s =
     (if ptr = 0 then Some s
      else let block = ptr - HDR
      in if block < heap_start s \<or> heap_end s \<le> block
         then Some (vga_print (lit ''Invalid free header!\<newline>'') s)
      else do {
        magic \<leftarrow> ld32 (ram s) block;
        if magic \<noteq> HEAP_MAGIC
        then Some (vga_print (lit ''Heap header corrupted!\<newline>'') s)
        else do {
          sz \<leftarrow> ld32 (ram s) (block + 4);
          tail \<leftarrow> ld32 (ram s) (block + HDR + sz);
          if tail \<noteq> HEAP_MAGIC
          then Some (vga_print (lit ''Heap tail corruption detected!\<newline>'') s)
          else if sz = 0 \<or> heap_end s < block + HDR + sz
          then Some (vga_print (lit ''Heap corruption detected!\<newline>'') s)
          else do {
            free \<leftarrow> ld32 (ram s) (block + 8);
            if free \<noteq> 0 then Some (vga_print (lit ''Double free detected!\<newline>'') s)
            else kfree_block block s } } })"

text \<open>\<open>heap_dump\<close>: one line per block.\<close>

definition heap_dump_line :: "u32 \<Rightarrow> u32 \<Rightarrow> u32 \<Rightarrow> bool \<Rightarrow> 'a heap_scheme \<Rightarrow> 'a heap_scheme" where
  "heap_dump_line index current sz free s =
     (let s = vga_print (lit ''  Block '') s;
          s = vga_print_dec index s;
          s = vga_print (lit '': addr='') s;
          s = vga_print_hex current s;
          s = vga_print (lit '' size='') s;
          s = vga_print_dec sz s;
          s = vga_print (lit '' header='') s;
          s = vga_print_hex current s;
          s = vga_print (lit '' payload='') s;
          s = vga_print_hex (current + HDR) s;
          s = vga_print (lit '' '') s;
          s = vga_print (if free then lit ''FREE'' else lit ''USED'') s
      in vga_print (lit ''\<newline>'') s)"

partial_function (option) heap_dump_loop ::
    "u32 \<Rightarrow> u32 \<Rightarrow> 'a heap_scheme \<Rightarrow> 'a heap_scheme option" where
  "heap_dump_loop index current s =
     (if current = 0 then Some s
      else do {
        sz \<leftarrow> ld32 (ram s) (current + 4);
        free \<leftarrow> ld32 (ram s) (current + 8);
        let s = heap_dump_line index current sz (free \<noteq> 0) s;
        next \<leftarrow> ld32 (ram s) (current + 12);
        heap_dump_loop (index + 1) next s })"

definition heap_dump :: "'a heap_scheme \<Rightarrow> 'a heap_scheme option" where
  "heap_dump s =
     (if heap_head s = 0 then Some (vga_print (lit ''Heap empty.\<newline>'') s)
      else heap_dump_loop 0 (heap_head s) (vga_print (lit ''Heap blocks:\<newline>'') s))"

text \<open>\<open>heap_validate\<close>: the two-pointer cycle test, then the checks block by block.\<close>

partial_function (option) heap_cycle :: "mem \<Rightarrow> u32 \<Rightarrow> u32 \<Rightarrow> bool option" where
  "heap_cycle m slow fast =
     (if fast = 0 then Some False
      else do {
        fnext \<leftarrow> ld32 m (fast + 12);
        if fnext = 0 then Some False
        else do {
          slow \<leftarrow> ld32 m (slow + 12);
          fast \<leftarrow> ld32 m (fnext + 12);
          if slow = fast then Some True else heap_cycle m slow fast } })"

partial_function (option) heap_check :: "'a heap_scheme \<Rightarrow> u32 \<Rightarrow> cstr option" where
  "heap_check s current =
     (if current = 0 then Some (lit ''Heap structure valid.\<newline>'')
      else do {
        magic \<leftarrow> ld32 (ram s) current;
        if magic \<noteq> HEAP_MAGIC then Some (lit ''Heap magic corrupted!\<newline>'')
        else do {
          next \<leftarrow> ld32 (ram s) (current + 12);
          back \<leftarrow> (if next \<noteq> 0 then ld32 (ram s) (next + 16) else Some current);
          if back \<noteq> current then Some (lit ''Heap corruption detected!\<newline>'')
          else if current < heap_start s \<or> heap_end s \<le> current
          then Some (lit ''Block outside heap range!\<newline>'')
          else do {
            sz \<leftarrow> ld32 (ram s) (current + 4);
            if heap_end s < current + HDR + sz
            then Some (lit ''Block exceeds heap boundary!\<newline>'')
            else heap_check s next } } })"

definition heap_validate :: "'a heap_scheme \<Rightarrow> 'a heap_scheme option" where
  "heap_validate s = do {
     cycle \<leftarrow> heap_cycle (ram s) (heap_head s) (heap_head s);
     if cycle then Some (vga_print (lit ''Heap cycle detected!\<newline>'') s)
     else do {
       message \<leftarrow> heap_check s (heap_head s);
       Some (vga_print message s) } }"

end
