(* ===== verification/HeapSpec.thy ===== *)
theory HeapSpec
  imports Heap
begin

text \<open>
  The heap of \<open>mm/heap.c\<close> against an abstract allocator. All block addresses and sizes are
  multiples of four bytes, so the abstract view counts in 32-bit words: \<open>adr k\<close> is the byte
  address (or byte count) of \<open>k\<close> words, and \<open>wd m k\<close> the word stored there.
\<close>

section \<open>Word-indexed memory\<close>

definition adr :: "nat \<Rightarrow> u32" where
  "adr k = of_nat (4 * k)"

definition wd :: "mem \<Rightarrow> nat \<Rightarrow> u32" where
  "wd m k = get32 m (adr k)"

lemma adr_add: "adr a + adr b = adr (a + b)"
  by (simp add: adr_def algebra_simps)

lemma adr_plus [addr_simps]:
  "adr k + 4 = adr (k + 1)" "adr k + 8 = adr (k + 2)" "adr k + 12 = adr (k + 3)"
  "adr k + 16 = adr (k + 4)" "adr k + 20 = adr (k + 5)" "adr k + adr j = adr (k + j)"
  by (simp_all add: adr_def algebra_simps)

lemma unat_adr [addr_simps]: "k < 0x40000000 \<Longrightarrow> unat (adr k) = 4 * k"
  unfolding adr_def by (rule unat_of_nat_small) simp

lemma adr_eq [addr_simps]:
  "a < 0x40000000 \<Longrightarrow> b < 0x40000000 \<Longrightarrow> adr a = adr b \<longleftrightarrow> a = b"
  using unat_adr [of a] unat_adr [of b] by (auto simp: word_unat_eq_iff)

lemma adr_le [addr_simps]:
  "a < 0x40000000 \<Longrightarrow> b < 0x40000000 \<Longrightarrow> adr a \<le> adr b \<longleftrightarrow> a \<le> b"
  "a < 0x40000000 \<Longrightarrow> b < 0x40000000 \<Longrightarrow> adr a < adr b \<longleftrightarrow> a < b"
  by (simp_all add: word_le_nat_alt word_less_nat_alt unat_adr)

lemma adr_minus [addr_simps]: "b \<le> a \<Longrightarrow> adr a - adr b = adr (a - b)"
  by (simp add: adr_def of_nat_diff right_diff_distrib)

lemma adr_0 [addr_simps]: "a < 0x40000000 \<Longrightarrow> adr a = 0 \<longleftrightarrow> a = 0"
  using unat_adr [of a] by (auto simp: word_unat_eq_iff)

lemma adr_numeral:
  "KERNEL_HEAP_START = adr 0x100000" "KERNEL_HEAP_END = adr 0x200000" "HDR = adr 5" "TAIL = adr 1"
  "MIN_BLOCK_SIZE = adr 2" "(0 :: u32) = adr 0"
  by (simp_all add: adr_def)

lemma accessible_adr [addr_simps]:
  "k < 0x40000000 \<Longrightarrow> accessible (adr k) 4 \<longleftrightarrow> 0x400 \<le> k \<and> k < 0x200000"
  by (auto simp: accessible_def unat_adr)

lemma apart_adr:
  assumes "a < 0x40000000" and "b < 0x40000000" and "a \<noteq> b"
  shows "apart (adr a) (adr b)"
  using assms by (intro apart_nat) (auto simp: unat_adr)

lemma wd_put32 [mem_simps]:
  assumes "a < 0x40000000" and "b < 0x40000000"
  shows "wd (put32 (adr a) v m) b = (if a = b then v else wd m b)"
  using apart_adr [OF assms] by (simp add: wd_def get32_put32_apart)

lemma ld32_adr [mem_simps]:
  "0x400 \<le> k \<Longrightarrow> k < 0x200000 \<Longrightarrow> ld32 m (adr k) = Some (wd m k)"
  by (simp add: ld32_def accessible_adr wd_def)

lemma st32_adr [mem_simps]:
  "0x400 \<le> k \<Longrightarrow> k < 0x200000 \<Longrightarrow> st32 (adr k) v m = Some (put32 (adr k) v m)"
  by (simp add: st32_def accessible_adr)

section \<open>Blocks, layout and the doubly linked list\<close>

text \<open>Address and size in words; the payload starts five words after the address.\<close>

datatype block = Block (baddr: nat) (bsize: nat) (bfree: bool)

definition first :: "block list \<Rightarrow> nat \<Rightarrow> nat" where
  "first bs e = (case bs of [] \<Rightarrow> e | b # _ \<Rightarrow> baddr b)"

definition final :: "nat \<Rightarrow> block list \<Rightarrow> nat" where
  "final p bs = (if bs = [] then p else baddr (last bs))"

text \<open>Blocks in address order, each with a nonempty payload that ends before the next one.\<close>

fun chained :: "block list \<Rightarrow> nat \<Rightarrow> bool" where
  "chained [] e \<longleftrightarrow> True"
| "chained (b # bs) e \<longleftrightarrow>
     0x100000 \<le> baddr b \<and> 0 < bsize b \<and> even (bsize b)
     \<and> baddr b + 5 + bsize b \<le> first bs e \<and> chained bs e"

text \<open>The list in memory from \<open>pv\<close>, the block before, to \<open>nx\<close>, the block after.\<close>

fun linked :: "mem \<Rightarrow> nat \<Rightarrow> block list \<Rightarrow> nat \<Rightarrow> bool" where
  "linked m pv [] nx \<longleftrightarrow> True"
| "linked m pv (b # bs) nx \<longleftrightarrow>
     wd m (baddr b) = HEAP_MAGIC \<and> wd m (baddr b + 1) = adr (bsize b)
     \<and> (wd m (baddr b + 2) \<noteq> 0) = bfree b \<and> wd m (baddr b + 3) = adr (first bs nx)
     \<and> wd m (baddr b + 4) = adr pv \<and> linked m (baddr b) bs nx"

definition tails :: "mem \<Rightarrow> block list \<Rightarrow> bool" where
  "tails m bs \<longleftrightarrow> (\<forall>b \<in> set bs. wd m (baddr b + 5 + bsize b) = HEAP_MAGIC)"

definition heap_inv :: "block list \<Rightarrow> 'a heap_scheme \<Rightarrow> bool" where
  "heap_inv bs s \<longleftrightarrow>
     heap_start s = KERNEL_HEAP_START
     \<and> (\<exists>e. heap_end s = adr e \<and> e < 0x200000 \<and> 0x100000 \<le> e \<and> chained bs e \<and> (bs = [] \<longrightarrow> e = 0x100000))
     \<and> heap_head s = adr (first bs 0) \<and> first bs 0x100000 = 0x100000
     \<and> linked (ram s) 0 bs 0 \<and> tails (ram s) bs"

lemma first_simps [simp]:
  "first [] e = e" "first (b # bs) e = baddr b"
  by (simp_all add: first_def)

lemma first_append: "first (as @ bs) e = first as (first bs e)"
  by (cases as) auto

lemma final_simps [simp]:
  "final p [] = p" "final p (as @ [b]) = baddr b"
  by (simp_all add: final_def)

lemma final_Cons: "final p (b # bs) = final (baddr b) bs"
  by (simp add: final_def)

lemma linked_append:
  "linked m pv (as @ bs) nx \<longleftrightarrow> linked m pv as (first bs nx) \<and> linked m (final pv as) bs nx"
  by (induction as arbitrary: pv) (auto simp: first_append final_Cons)

lemma chained_append:
  "chained (as @ bs) e \<longleftrightarrow> chained as (first bs e) \<and> chained bs e"
  by (induction as) (auto simp: first_append)

lemma chained_le: "chained bs e \<Longrightarrow> first bs e \<le> e"
  by (induction bs) auto

lemma chained_in:
  assumes "chained bs e" and "b \<in> set bs"
  shows "0x100000 \<le> baddr b" "first bs e \<le> baddr b" "baddr b + 5 + bsize b \<le> e" "0 < bsize b"
  using assms by (induction bs) (auto dest: chained_le)

lemma tails_append [simp]: "tails m (as @ bs) \<longleftrightarrow> tails m as \<and> tails m bs"
  by (auto simp: tails_def)

lemma tails_simps [simp]:
  "tails m []" "tails m (b # bs) \<longleftrightarrow> wd m (baddr b + 5 + bsize b) = HEAP_MAGIC \<and> tails m bs"
  by (auto simp: tails_def)

text \<open>Only the header words of its blocks matter for a segment of the list.\<close>

lemma linked_cong:
  assumes "\<And>b k. b \<in> set bs \<Longrightarrow> k < 5 \<Longrightarrow> wd m (baddr b + k) = wd m' (baddr b + k)"
  shows "linked m pv bs nx = linked m' pv bs nx"
  using assms
proof (induction bs arbitrary: pv)
  case (Cons b bs)
  have "wd m (baddr b + k) = wd m' (baddr b + k)" if "k < 5" for k
    using Cons.prems that by simp
  from this [of 0] this [of 1] this [of 2] this [of 3] this [of 4]
  show ?case using Cons.IH Cons.prems by simp
qed simp

lemma linked_outside:
  assumes "\<And>b. b \<in> set bs \<Longrightarrow> (x < baddr b \<or> baddr b + 5 \<le> x) \<and> baddr b + 5 < 0x40000000"
    and "x < 0x40000000"
  shows "linked (put32 (adr x) v m) pv bs nx = linked m pv bs nx"
  by (rule linked_cong) (use assms in \<open>fastforce simp: wd_put32\<close>)

lemma tails_outside:
  assumes "\<And>b. b \<in> set bs \<Longrightarrow> x \<noteq> baddr b + 5 + bsize b \<and> baddr b + 5 + bsize b < 0x40000000"
    and "x < 0x40000000"
  shows "tails (put32 (adr x) v m) bs = tails m bs"
  using assms by (auto simp: tails_def wd_put32)

lemma tails_magic:
  assumes "tails m bs" and "x < 0x40000000"
    and "\<And>b. b \<in> set bs \<Longrightarrow> baddr b + 5 + bsize b < 0x40000000"
  shows "tails (put32 (adr x) HEAP_MAGIC m) bs"
  using assms by (auto simp: tails_def wd_put32)

end
