(* ===== verification/HeapAlloc.thy ===== *)
theory HeapAlloc
  imports HeapSpec
begin

section \<open>The abstract allocator\<close>

fun find_fit :: "nat \<Rightarrow> block list \<Rightarrow> (block list \<times> block \<times> block list) option" where
  "find_fit n [] = None"
| "find_fit n (b # bs) =
     (if bfree b \<and> n \<le> bsize b then Some ([], b, bs)
      else map_option (\<lambda>(xs, y, ys). (b # xs, y, ys)) (find_fit n bs))"

definition take_fit :: "nat \<Rightarrow> block \<Rightarrow> block list" where
  "take_fit n b =
     (if n + 8 \<le> bsize b
      then [Block (baddr b) n False, Block (baddr b + 5 + n) (bsize b - n - 6) True]
      else [Block (baddr b) (bsize b) False])"

text \<open>First fit with splitting, else a new block at the end, with its tail word except for the
  very first block. The result is the payload (0: none), the blocks and the end of the heap.\<close>

definition abs_alloc :: "nat \<Rightarrow> block list \<Rightarrow> nat \<Rightarrow> nat \<times> block list \<times> nat" where
  "abs_alloc n bs e =
     (case find_fit n bs of
        Some (xs, b, ys) \<Rightarrow> (baddr b + 5, xs @ take_fit n b @ ys, e)
      | None \<Rightarrow>
          let e' = e + 5 + n + (if bs = [] then 0 else 1)
          in if e' < 0x200000 then (e + 5, bs @ [Block e n False], e') else (0, bs, e))"

text \<open>A request in bytes: rounded up to a multiple of eight, counted in words.\<close>

definition words_of :: "u32 \<Rightarrow> nat" where
  "words_of sz = 2 * ((unat sz + 7) div 8)"

definition abs_kmalloc :: "u32 \<Rightarrow> block list \<Rightarrow> nat \<Rightarrow> nat \<times> block list \<times> nat" where
  "abs_kmalloc sz bs e =
     (if sz = 0 \<or> 2 ^ 32 \<le> unat sz + 7 \<or> (6 \<le> 0x200000 - e \<and> 0x200000 - e < words_of sz + 6)
      then (0, bs, e) else abs_alloc (words_of sz) bs e)"

lemma find_fit_Some:
  "find_fit n bs = Some (xs, b, ys) \<Longrightarrow> bs = xs @ b # ys \<and> bfree b \<and> n \<le> bsize b"
  by (induction bs arbitrary: xs) (auto split: if_splits)

text \<open>The payloads of the blocks in use are the same in both memories.\<close>

definition keeps_payloads :: "block list \<Rightarrow> mem \<Rightarrow> mem \<Rightarrow> bool" where
  "keeps_payloads bs m m' \<longleftrightarrow>
     (\<forall>b \<in> set bs. \<not> bfree b \<longrightarrow>
        (\<forall>k. baddr b + 5 \<le> k \<and> k < baddr b + 5 + bsize b \<longrightarrow> wd m' k = wd m k))"

lemma keeps_payloads_simps [simp]:
  "keeps_payloads [] m m'" "keeps_payloads bs m m"
  "keeps_payloads (as @ bs) m m' \<longleftrightarrow> keeps_payloads as m m' \<and> keeps_payloads bs m m'"
  by (auto simp: keeps_payloads_def)

lemma keeps_payloads_free [simp]:
  "bfree b \<Longrightarrow> keeps_payloads (b # bs) m m' = keeps_payloads bs m m'"
  by (auto simp: keeps_payloads_def)

lemma keeps_payloadsI:
  assumes "\<And>b k. b \<in> set bs \<Longrightarrow> baddr b + 5 \<le> k \<Longrightarrow> k < baddr b + 5 + bsize b \<Longrightarrow> wd m' k = wd m k"
  shows "keeps_payloads bs m m'"
  using assms by (simp add: keeps_payloads_def)

section \<open>Searching\<close>

lemma heap_search_linked:
  assumes "linked m pv bs 0" and "chained bs e" and "e < 0x200000" and "bs \<noteq> []"
    and "n < 0x40000000"
  shows "heap_search (adr n) m (adr (first bs 0)) =
     Some (case find_fit n bs of Some (xs, b, ys) \<Rightarrow> Fit (adr (baddr b))
           | None \<Rightarrow> Last (adr (final 0 bs)))"
  using assms
proof (induction bs arbitrary: pv)
  case (Cons b bs)
  have b: "0x100000 \<le> baddr b" "baddr b + 5 + bsize b < 0x200000"
    using Cons.prems(2,3) chained_in [OF Cons.prems(2), of b] by auto
  have next_: "wd m (baddr b + 3) = adr (first bs 0)" and sz: "wd m (baddr b + 1) = adr (bsize b)"
    and fr: "(wd m (baddr b + 2) \<noteq> 0) = bfree b"
    using Cons.prems(1) by auto
  have n0: "adr (first bs 0) = 0 \<longleftrightarrow> bs = []"
    using Cons.prems(2,3) by (cases bs) (auto simp: addr_simps dest: chained_le)
  show ?case
  proof (cases "bfree b \<and> n \<le> bsize b")
    case True
    with b sz fr Cons.prems(5) show ?thesis
      by (subst heap_search.simps) (simp add: addr_simps mem_simps)
  next
    case False
    have step: "heap_search (adr n) m (adr (baddr b)) =
        (if bs = [] then Some (Last (adr (baddr b))) else heap_search (adr n) m (adr (first bs 0)))"
      using False b sz fr next_ n0 Cons.prems(5)
      by (subst heap_search.simps) (auto simp: addr_simps mem_simps)
    show ?thesis
    proof (cases "bs = []")
      case True
      with False step show ?thesis by (simp add: final_def)
    next
      case ne: False
      have "heap_search (adr n) m (adr (first bs 0)) =
         Some (case find_fit n bs of Some (xs, b, ys) \<Rightarrow> Fit (adr (baddr b))
               | None \<Rightarrow> Last (adr (final 0 bs)))"
        by (rule Cons.IH [of "baddr b"]) (use Cons.prems ne in simp_all)
      with ne False step show ?thesis
        by (auto simp: final_def split: option.splits)
    qed
  qed
qed simp

section \<open>Sizes\<close>

lemma and_not_7: "unat ((x :: u32) AND NOT 7) = 8 * (unat x div 8)"
proof -
  have "push_bit 3 (drop_bit 3 x) = x AND NOT (mask 3)"
    by (rule bit_word_eqI) (auto simp: bit_simps)
  then have "x AND NOT 7 = push_bit 3 (drop_bit 3 x)"
    by (simp add: mask_eq_exp_minus_1)
  then have "unat (x AND NOT 7) = unat x div 8 * 8 mod 2 ^ 32"
    by (simp add: push_bit_eq_mult unat_word_ariths unat_drop_bit_div)
  moreover have "unat x < 2 ^ LENGTH(32)" by (rule unsigned_less)
  then have "unat x div 8 * 8 < 2 ^ 32" by simp
  ultimately show ?thesis by simp
qed

lemma align_ok:
  assumes "unat sz + 7 < 2 ^ 32"
  shows "(sz + 7) AND NOT 7 = adr (words_of sz)" "\<not> (sz + 7) AND NOT 7 < sz"
    "words_of sz < 0x40000000"
proof -
  have p: "unat (sz + 7) = unat sz + 7" using assms by (simp add: unat_word_ariths)
  show w: "words_of sz < 0x40000000" using assms by (simp add: words_of_def)
  show "(sz + 7) AND NOT 7 = adr (words_of sz)"
    using w by (simp only: word_unat_eq_iff and_not_7 p unat_adr) (simp add: words_of_def)
  show "\<not> (sz + 7) AND NOT 7 < sz"
    unfolding word_less_nat_alt and_not_7 p by presburger
qed

lemma align_overflow:
  fixes sz :: u32
  assumes "2 ^ 32 \<le> unat sz + 7"
  shows "(sz + 7) AND NOT 7 < sz"
proof -
  have "unat sz < 2 ^ LENGTH(32)" by (rule unsigned_less)
  then have "unat (sz + 7) = unat sz + 7 - 2 ^ 32"
    using assms by (simp add: unat_plus_if')
  then have "unat (sz + 7) div 8 = 0" using \<open>unat sz < 2 ^ LENGTH(32)\<close> by simp
  moreover have "0 < unat sz" using assms by simp
  ultimately show ?thesis by (simp only: word_less_nat_alt and_not_7)
qed


section \<open>The three ways to allocate\<close>

lemma heap_invE:
  assumes "heap_inv bs s" and "heap_end s = adr e" and "e < 0x40000000"
  shows "chained bs e" "e < 0x200000" "0x100000 \<le> e" "heap_start s = adr 0x100000"
    "heap_head s = adr (first bs 0)" "linked (ram s) 0 bs 0" "tails (ram s) bs"
    "first bs 0x100000 = 0x100000" "bs = [] \<Longrightarrow> e = 0x100000"
proof -
  obtain e' where e': "heap_end s = adr e'" "e' < 0x200000" "0x100000 \<le> e'" "chained bs e'"
    "bs = [] \<longrightarrow> e' = 0x100000"
    using assms(1) by (auto simp: heap_inv_def)
  then have "e' = e" using assms(2,3) by (simp add: addr_simps)
  with e' assms(1) show "chained bs e" "e < 0x200000" "0x100000 \<le> e" "heap_start s = adr 0x100000"
    "heap_head s = adr (first bs 0)" "linked (ram s) 0 bs 0" "tails (ram s) bs"
    "first bs 0x100000 = 0x100000" "bs = [] \<Longrightarrow> e = 0x100000"
    by (auto simp: heap_inv_def adr_numeral)
qed

lemma heap_invI:
  assumes "chained bs e" "e < 0x200000" "0x100000 \<le> e" "heap_start s = adr 0x100000"
    "heap_end s = adr e" "heap_head s = adr (first bs 0)" "linked (ram s) 0 bs 0" "tails (ram s) bs"
    "first bs 0x100000 = 0x100000" "bs = [] \<Longrightarrow> e = 0x100000"
  shows "heap_inv bs s"
  using assms by (auto simp: heap_inv_def adr_numeral intro!: exI [of _ e])

lemma init_block_adr:
  assumes "0x100000 \<le> b" and "b + 5 \<le> 0x200000"
  shows "init_block (adr b) sz fr nx pv m = Some
     (put32 (adr (b + 4)) pv (put32 (adr (b + 3)) nx (put32 (adr (b + 2)) fr
       (put32 (adr (b + 1)) sz (put32 (adr b) HEAP_MAGIC m)))))"
  using assms by (simp add: init_block_def addr_simps mem_simps del: One_nat_def add_2_eq_Suc')

lemma kmalloc_first_refines:
  assumes inv: "heap_inv [] s" and e: "heap_end s = adr e" "e < 0x40000000"
    and n: "0 < n" "even n" "n + 6 \<le> 0x100000"
    and r: "abs_alloc n [] e = (r, bs', e')"
  shows "\<exists>s'. kmalloc_first (adr n) s = Some (adr r, s') \<and> heap_inv bs' s' \<and> heap_end s' = adr e'"
proof -
  note inv' = heap_invE [OF inv e]
  have e0: "e = 0x100000" using inv'(9) by simp
  define m where "m = put32 (adr (e + 5 + n)) HEAP_MAGIC
     (put32 (adr (e + 4)) 0 (put32 (adr (e + 3)) 0 (put32 (adr (e + 2)) 0
     (put32 (adr (e + 1)) (adr n) (put32 (adr e) HEAP_MAGIC (ram s))))))"
  let ?s = "s\<lparr>ram := m, heap_head := adr e, heap_end := adr (e + 5 + n)\<rparr>"
  have "kmalloc_first (adr n) s = Some (adr (e + 5), ?s)"
    using e0 e n unfolding kmalloc_first_def m_def
    by (simp add: addr_simps mem_simps adr_numeral(1-5) Let_def init_block_adr not_less
        del: One_nat_def add_2_eq_Suc')
  moreover have "heap_inv [Block e n False] ?s"
    using e0 n inv'
    by (intro heap_invI [of _ "e + 5 + n"])
      (auto simp: m_def mem_simps adr_numeral(6) simp del: One_nat_def add_2_eq_Suc')
  ultimately show ?thesis using n e0 r by (auto simp: abs_alloc_def Let_def)
qed

lemma put32_outside:
  assumes "linked m pv bs nx" and "chained bs e" and "e < 0x200000" and "e \<le> x" and "x < 0x40000000"
  shows "linked (put32 (adr x) v m) pv bs nx"
proof -
  have "linked (put32 (adr x) v m) pv bs nx = linked m pv bs nx"
    by (rule linked_outside)
      (use assms chained_in [OF assms(2)] in \<open>fastforce+\<close>)
  then show ?thesis using assms(1) by simp
qed

lemma tails_snoc_put32:
  assumes "tails m bs" and "chained bs e" and "e < 0x200000" and "e < x" and "x < 0x40000000"
  shows "tails (put32 (adr x) v m) bs"
proof -
  have "tails (put32 (adr x) v m) bs = tails m bs"
    by (rule tails_outside) (use assms chained_in [OF assms(2)] in \<open>fastforce+\<close>)
  then show ?thesis using assms(1) by simp
qed

lemma kmalloc_append_refines:
  assumes inv: "heap_inv bs s" and e: "heap_end s = adr e" "e < 0x40000000" and ne: "bs \<noteq> []"
    and n: "0 < n" "even n" "n \<le> 0x20000000"
    and none: "find_fit n bs = None" and r: "abs_alloc n bs e = (r, bs', e')"
  shows "\<exists>s'. kmalloc_append (adr n) (adr (final 0 bs)) s = Some (adr r, s')
           \<and> heap_inv bs' s' \<and> heap_end s' = adr e' \<and> keeps_payloads bs (ram s) (ram s')"
proof -
  note inv' = heap_invE [OF inv e]
  obtain xs l where bs: "bs = xs @ [l]" using ne by (metis rev_exhaust)
  have ch: "chained xs (baddr l)" "0x100000 \<le> baddr l" "baddr l + 5 + bsize l \<le> e"
    "even (bsize l)" "0 < bsize l"
    using inv'(1) by (auto simp: bs chained_append)
  have cur: "final 0 bs = baddr l" by (simp add: bs)
  show ?thesis
  proof (cases "e + 5 + n + 1 < 0x200000")
    case False
    then have "kmalloc_append (adr n) (adr (final 0 bs)) s = Some (adr 0, s)"
      using e n inv'(2) unfolding kmalloc_append_def
      by (simp add: addr_simps adr_numeral(1-4) Let_def not_less del: One_nat_def add_2_eq_Suc')
    with False ne none inv e r show ?thesis by (auto simp: abs_alloc_def Let_def)
  next
    case True
    define m where "m = put32 (adr (baddr l + 3)) (adr e) (put32 (adr (e + 5 + n)) HEAP_MAGIC
       (put32 (adr (e + 4)) (adr (baddr l)) (put32 (adr (e + 3)) 0 (put32 (adr (e + 2)) 0
       (put32 (adr (e + 1)) (adr n) (put32 (adr e) HEAP_MAGIC (ram s)))))))"
    let ?s = "s\<lparr>ram := m, heap_end := adr (e + 5 + n + 1)\<rparr>"
    have "kmalloc_append (adr n) (adr (final 0 bs)) s = Some (adr (e + 5), ?s)"
      using True e n inv'(2,3) ch unfolding kmalloc_append_def m_def cur
      by (simp add: addr_simps mem_simps adr_numeral(1-4) Let_def init_block_adr not_less
          del: One_nat_def add_2_eq_Suc')
    moreover have "heap_inv (bs @ [Block e n False]) ?s"
    proof (rule heap_invI [of _ "e + 5 + n + 1"])
      show "chained (bs @ [Block e n False]) (e + 5 + n + 1)"
        using inv'(1,3) n by (simp add: chained_append)
      have "linked m 0 xs (baddr l) = linked (ram s) 0 xs (baddr l)"
        by (rule linked_cong)
          (use chained_in [OF ch(1)] ch True in \<open>fastforce simp: m_def wd_put32\<close>)
      moreover have "linked (ram s) 0 xs (baddr l)" "linked (ram s) (final 0 xs) [l] 0"
        using inv'(6) by (simp_all add: bs linked_append)
      ultimately show "linked (ram ?s) 0 (bs @ [Block e n False]) 0"
        using ch True by (simp add: bs linked_append wd_put32 m_def adr_numeral(6)
            del: One_nat_def add_2_eq_Suc')
      have "tails m xs"
        using inv'(7) chained_in [OF ch(1)] ch True
        by (fastforce simp: m_def tails_def wd_put32 bs)
      then show "tails (ram ?s) (bs @ [Block e n False])"
        using inv'(7) ch True by (simp add: bs m_def wd_put32)
    qed (use inv' True in \<open>simp_all add: bs first_append\<close>)
    moreover have "keeps_payloads bs (ram s) (ram ?s)"
    proof (rule keeps_payloadsI)
      fix c k assume "c \<in> set bs" and k: "baddr c + 5 \<le> k" "k < baddr c + 5 + bsize c"
      then have "c = l \<or> baddr c + 5 + bsize c \<le> baddr l"
        using chained_in [OF ch(1), of c] by (auto simp: bs)
      with k ch True show "wd (ram ?s) k = wd (ram s) k" by (auto simp: m_def wd_put32)
    qed
    ultimately show ?thesis using True ne none r by (auto simp: abs_alloc_def Let_def)
  qed
qed


lemma linked_headers:
  assumes "linked m pv bs nx" and "b \<in> set bs"
  shows "wd m (baddr b) = HEAP_MAGIC" "wd m (baddr b + 1) = adr (bsize b)"
    "(wd m (baddr b + 2) \<noteq> 0) = bfree b"
  using assms by (induction bs arbitrary: pv) auto

lemma kmalloc_take_whole:
  assumes inv: "heap_inv (xs @ b # ys) s" and e: "heap_end s = adr e" "e < 0x40000000"
    and fit: "bfree b" "n \<le> bsize b" "bsize b < n + 8"
  shows "\<exists>s'. kmalloc_take (adr n) (adr (baddr b)) s = Some (adr (baddr b + 5), s')
           \<and> heap_inv (xs @ Block (baddr b) (bsize b) False # ys) s' \<and> heap_end s' = adr e
           \<and> keeps_payloads (xs @ b # ys) (ram s) (ram s')"
proof -
  note inv' = heap_invE [OF inv e]
  have ch: "chained xs (baddr b)" "chained ys e" "0x100000 \<le> baddr b" "0 < bsize b" "even (bsize b)"
    "baddr b + 5 + bsize b \<le> first ys e" "first ys e \<le> e"
    using inv'(1) by (auto simp: chained_append dest: chained_le)
  have link: "linked (ram s) 0 xs (baddr b)" "linked (ram s) (final 0 xs) (b # ys) 0"
    using inv'(6) by (auto simp: linked_append)
  define m where "m = put32 (adr (baddr b + 2)) 0 (ram s)"
  let ?b = "Block (baddr b) (bsize b) False" let ?s = "s\<lparr>ram := m\<rparr>"
  have "kmalloc_take (adr n) (adr (baddr b)) s = Some (adr (baddr b + 5), ?s)"
    using fit ch inv'(2) link(2) unfolding kmalloc_take_def m_def
    by (simp add: addr_simps mem_simps adr_numeral(1-5) del: One_nat_def add_2_eq_Suc')
  moreover have "heap_inv (xs @ ?b # ys) ?s"
  proof (rule heap_invI [of _ e])
    have "linked m 0 xs (baddr b)"
      unfolding m_def by (subst linked_outside) (use chained_in [OF ch(1)] link ch inv'(2) in fastforce)+
    moreover have "linked m (baddr b) ys 0"
      unfolding m_def by (subst linked_outside) (use chained_in [OF ch(2)] link ch inv'(2) in fastforce)+
    ultimately show "linked (ram ?s) 0 (xs @ ?b # ys) 0"
      using link(2) ch inv'(2)
      by (simp add: linked_append m_def wd_put32 adr_numeral(6) del: One_nat_def add_2_eq_Suc')
    have "tails m xs"
      unfolding m_def by (subst tails_outside) (use chained_in [OF ch(1)] inv' ch in fastforce)+
    moreover have "tails m ys"
      unfolding m_def by (subst tails_outside) (use chained_in [OF ch(2)] inv' ch in fastforce)+
    ultimately show "tails (ram ?s) (xs @ ?b # ys)"
      using inv'(7) ch inv'(2) by (simp add: m_def wd_put32)
  qed (use inv' e in \<open>simp_all add: first_append chained_append\<close>)
  moreover have "keeps_payloads xs (ram s) (ram ?s)" "keeps_payloads ys (ram s) (ram ?s)"
    using chained_in [OF ch(1)] chained_in [OF ch(2)] ch(3-7) inv'(2)
    by (force intro!: keeps_payloadsI simp: m_def wd_put32)+
  ultimately show ?thesis using e fit(1) by auto
qed

text \<open>The memory after a split of the block at \<open>a\<close> of size \<open>z\<close>, followed by the block at
  \<open>nn\<close> (0: none), and after the block is marked used.\<close>

definition split_mem :: "nat \<Rightarrow> nat \<Rightarrow> nat \<Rightarrow> nat \<Rightarrow> mem \<Rightarrow> mem" where
  "split_mem a z n nn m =
     (let nb = a + 5 + n;
          m1 = put32 (adr (nb + 4)) (adr a) (put32 (adr (nb + 3)) (adr nn) (put32 (adr (nb + 2)) 1
                 (put32 (adr (nb + 1)) (adr (z - n - 6)) (put32 (adr nb) HEAP_MAGIC m))));
          m2 = put32 (adr (a + 4 + z)) HEAP_MAGIC m1;
          m3 = (if nn = 0 then m2 else put32 (adr (nn + 4)) (adr nb) m2)
      in put32 (adr (a + 2)) 0 (put32 (adr nb) HEAP_MAGIC
           (put32 (adr (a + 3)) (adr nb) (put32 (adr (a + 1)) (adr n) m3))))"

lemma split_block_mem:
  assumes "0x100000 \<le> a" and "a + 5 + z \<le> e" and "e < 0x200000" and "n + 8 \<le> z"
    and "wd m (a + 1) = adr z" and "wd m (a + 3) = adr nn"
    and "nn = 0 \<or> (a + 5 + z \<le> nn \<and> nn + 5 < 0x200000)" and "0 < n"
  shows "map_option (put32 (adr (a + 2)) 0) (split_block (adr a) (adr n) m) = Some (split_mem a z n nn m)"
proof -
  have 1: "adr z - adr n - adr 5 - adr 1 = adr (z - n - 6)"
    using assms(4) by (simp add: addr_simps add.commute)
  have 2: "a + 5 + n + 5 + (z - n - 6) = a + 4 + z" using assms(4) by simp
  show ?thesis
  proof (cases "nn = 0")
    case True
    then show ?thesis
      using assms unfolding split_block_def split_mem_def
      by (simp add: addr_simps mem_simps adr_numeral(1-5) 1 2 Let_def del: One_nat_def add_2_eq_Suc')
        (simp add: ac_simps)
  next
    case False
    then show ?thesis
      using assms unfolding split_block_def split_mem_def
      by (simp add: addr_simps mem_simps adr_numeral(1-5) 1 2 Let_def del: One_nat_def add_2_eq_Suc')
        (simp add: ac_simps)
  qed
qed

lemma split_mem_at:
  fixes m :: mem
  assumes "0x100000 \<le> a" and "a + 5 + z < 0x200000" and "n + 8 \<le> z" and "0 < n"
    and "nn = 0 \<or> (a + 5 + z \<le> nn \<and> nn + 5 < 0x200000)"
  defines "w \<equiv> wd (split_mem a z n nn m)"
  shows "w (a + 1) = adr n" "w (a + 2) = 0" "w (a + 3) = adr (a + 5 + n)"
    "w (a + 5 + n) = HEAP_MAGIC" "w (a + 5 + n + 1) = adr (z - n - 6)" "w (a + 5 + n + 2) = 1"
    "w (a + 5 + n + 3) = adr nn" "w (a + 5 + n + 4) = adr a" "w (a + 4 + z) = HEAP_MAGIC"
    "nn \<noteq> 0 \<Longrightarrow> w (nn + 4) = adr (a + 5 + n)" "w (a + 4) = wd m (a + 4)"
    "k \<le> a \<Longrightarrow> w k = wd m k"
    "a + 5 + z \<le> k \<Longrightarrow> k < 0x40000000 \<Longrightarrow> k \<noteq> nn + 4 \<Longrightarrow> w k = wd m k"
  using assms(1-5)
  by (cases "nn = 0";
      simp add: w_def split_mem_def Let_def wd_put32 del: One_nat_def add_2_eq_Suc')+

lemma kmalloc_take_split:
  assumes inv: "heap_inv (xs @ b # ys) s" and e: "heap_end s = adr e" "e < 0x40000000"
    and fit: "n + 8 \<le> bsize b" "0 < n" "even n" and free: "bfree b"
  shows "\<exists>s'. kmalloc_take (adr n) (adr (baddr b)) s = Some (adr (baddr b + 5), s')
           \<and> heap_inv (xs @ Block (baddr b) n False
                # Block (baddr b + 5 + n) (bsize b - n - 6) True # ys) s'
           \<and> heap_end s' = adr e \<and> keeps_payloads (xs @ b # ys) (ram s) (ram s')"
proof -
  note inv' = heap_invE [OF inv e]
  let ?a = "baddr b" and ?z = "bsize b" and ?nn = "first ys 0"
  let ?b1 = "Block ?a n False" and ?b2 = "Block (?a + 5 + n) (?z - n - 6) True"
  have ch: "chained xs ?a" "chained ys e" "0x100000 \<le> ?a" "even ?z"
    "?a + 5 + ?z \<le> first ys e" "first ys e \<le> e"
    using inv'(1) by (auto simp: chained_append dest: chained_le)
  have link: "linked (ram s) 0 xs ?a" "linked (ram s) (final 0 xs) (b # ys) 0"
    using inv'(6) by (auto simp: linked_append)
  have nn: "?nn = 0 \<or> (?a + 5 + ?z \<le> ?nn \<and> ?nn + 5 < 0x200000)"
    using ch(2,5) inv'(2) by (cases ys) (auto dest: chained_le)
  define m where "m = split_mem ?a ?z n ?nn (ram s)"
  let ?s = "s\<lparr>ram := m\<rparr>"
  have xs: "baddr c + 5 + bsize c \<le> ?a" "0 < bsize c" if "c \<in> set xs" for c
    using chained_in [OF ch(1) that] by auto
  have ys: "?nn \<le> baddr c" "baddr c + 5 + bsize c < 0x200000" "0 < bsize c" "?nn \<noteq> 0" if "c \<in> set ys" for c
    using chained_in [OF ch(2) that] inv'(2) that ch(3,5) by (auto simp: first_def split: list.splits)
  note at = split_mem_at [where a = ?a and z = ?z and n = n and nn = ?nn and m = "ram s",
      folded m_def, OF ch(3) _ fit(1,2) nn]
  have z: "?a + 5 + ?z < 0x200000" using ch(5,6) inv'(2) by simp
  note low = at(12) [OF z] and high = at(13) [OF z]
  have "map_option (put32 (adr (?a + 2)) 0) (split_block (adr ?a) (adr n) (ram s)) = Some m"
    unfolding m_def by (rule split_block_mem [where e = e]) (use ch inv'(2) link fit nn in auto)
  then obtain m0 where "split_block (adr ?a) (adr n) (ram s) = Some m0"
    and "put32 (adr (?a + 2)) 0 m0 = m" by auto
  then have "kmalloc_take (adr n) (adr ?a) s = Some (adr (?a + 5), ?s)"
    using fit ch inv'(2) link(2) unfolding kmalloc_take_def
    by (simp add: addr_simps mem_simps adr_numeral(1-5) del: One_nat_def add_2_eq_Suc')
  moreover have "heap_inv (xs @ ?b1 # ?b2 # ys) ?s"
  proof (rule heap_invI [of _ e])
    have "linked m 0 xs ?a = linked (ram s) 0 xs ?a"
    proof (rule linked_cong)
      fix c k assume "c \<in> set xs" "k < (5 :: nat)"
      then show "wd m (baddr c + k) = wd (ram s) (baddr c + k)" using xs [of c] by (simp add: low)
    qed
    moreover have "linked m (?a + 5 + n) ys 0"
    proof (cases ys)
      case (Cons y ys')
      have y: "first ys 0 = baddr y" "baddr y \<noteq> 0" "?a + 5 + ?z \<le> baddr y"
        "baddr y + 5 + bsize y \<le> first ys' e" "chained ys' e" "baddr y + 5 + bsize y < 0x200000"
        using ch(2,5) ys [of y] inv'(2) Cons by auto
      have "linked m (baddr y) ys' 0 = linked (ram s) (baddr y) ys' 0"
      proof (rule linked_cong)
        fix c k assume c: "c \<in> set ys'" and k: "k < (5 :: nat)"
        have "baddr y + 5 + bsize y \<le> baddr c" "baddr c + 5 + bsize c < 0x200000"
          using chained_in [OF y(5) c] y(4) c inv'(2) by (auto simp: first_def split: list.splits)
        with y k show "wd m (baddr c + k) = wd (ram s) (baddr c + k)"
          by (simp add: high)
      qed
      then show ?thesis
        using link(2) y high [of "baddr y"] high [of "baddr y + 1"] high [of "baddr y + 2"]
          high [of "baddr y + 3"] at(10) [OF z] unfolding Cons by simp
    qed simp
    ultimately show "linked (ram ?s) 0 (xs @ ?b1 # ?b2 # ys) 0"
      using link at [OF z] by (simp add: linked_append del: One_nat_def add_2_eq_Suc')
    have "tails m xs"
      using inv'(7) xs by (simp add: tails_def low)
    moreover have "tails m ys"
      unfolding tails_def
    proof
      fix c assume c: "c \<in> set ys"
      have "wd m (baddr c + 5 + bsize c) = wd (ram s) (baddr c + 5 + bsize c)"
        by (rule high) (use ys [OF c] nn in auto)
      then show "wd m (baddr c + 5 + bsize c) = HEAP_MAGIC"
        using inv'(7) c by (simp add: tails_def)
    qed
    ultimately show "tails (ram ?s) (xs @ ?b1 # ?b2 # ys)"
      using fit(1) at(4,9) [OF z] by (simp add: add.commute add.left_commute)
  qed (use inv' e fit ch in \<open>auto simp: first_append chained_append\<close>)
  moreover have "keeps_payloads xs (ram s) (ram ?s)"
    by (rule keeps_payloadsI) (use xs low in \<open>fastforce\<close>)
  moreover have "keeps_payloads ys (ram s) (ram ?s)"
  proof (rule keeps_payloadsI)
    fix c k assume c: "c \<in> set ys" and k: "baddr c + 5 \<le> k" "k < baddr c + 5 + bsize c"
    have "wd m k = wd (ram s) k" by (rule high) (use ys [OF c] nn k in auto)
    then show "wd (ram ?s) k = wd (ram s) k" by simp
  qed
  ultimately show ?thesis using e free by auto
qed


section \<open>\<open>kmalloc\<close> refines the abstract allocator\<close>

lemma abs_alloc_fit:
  "find_fit n bs = Some (xs, b, ys) \<Longrightarrow> abs_alloc n bs e = (baddr b + 5, xs @ take_fit n b @ ys, e)"
  by (simp add: abs_alloc_def)

lemma kmalloc_take_refines:
  assumes inv: "heap_inv bs s" and e: "heap_end s = adr e" "e < 0x40000000"
    and n: "0 < n" "even n"
    and fit: "find_fit n bs = Some (xs, b, ys)" and r: "abs_alloc n bs e = (r, bs', e')"
  shows "\<exists>s'. kmalloc_take (adr n) (adr (baddr b)) s = Some (adr r, s')
           \<and> heap_inv bs' s' \<and> heap_end s' = adr e' \<and> keeps_payloads bs (ram s) (ram s')"
proof -
  have b: "bs = xs @ b # ys" "bfree b" "n \<le> bsize b" using find_fit_Some [OF fit] by auto
  have res: "r = baddr b + 5" "bs' = xs @ take_fit n b @ ys" "e' = e"
    using r by (auto simp: abs_alloc_fit [OF fit])
  show ?thesis
  proof (cases "n + 8 \<le> bsize b")
    case True
    then show ?thesis
      using kmalloc_take_split [OF inv [unfolded b(1)] e True n b(2)] by (simp add: res take_fit_def b(1))
  next
    case False
    then show ?thesis
      using kmalloc_take_whole [OF inv [unfolded b(1)] e b(2,3)] by (simp add: res take_fit_def b(1))
  qed
qed

lemma room_check:
  assumes "0x100000 \<le> e" and "e < 0x200000" and "n \<le> 0x20000000"
  shows "adr 0x200000 - adr e - adr 5 - adr 1 < adr n \<longleftrightarrow> 6 \<le> 0x200000 - e \<and> 0x200000 - e < n + 6"
proof (cases "6 \<le> 0x200000 - e")
  case True
  then have "adr 0x200000 - adr e - adr 5 - adr 1 = adr (0x200000 - e - 5 - 1)"
    using assms by (simp only: adr_minus)
  with True assms show ?thesis by (simp add: adr_le) linarith
next
  case False
  let ?d = "0x200000 - e"
  have d: "adr 0x200000 - adr e = adr ?d" using assms by (simp only: adr_minus)
  have "unat (adr 5 + adr 1) = 24" by (simp add: adr_def)
  moreover have "unat (adr ?d) = 4 * ?d" using assms by (simp add: unat_adr)
  ultimately have u: "unat (adr ?d - (adr 5 + adr 1)) = 2 ^ 32 + 4 * ?d - 24"
    using False by (simp add: unat_sub_if')
  have "unat (adr n) = 4 * n" using assms(3) by (simp add: unat_adr)
  then have "\<not> adr ?d - (adr 5 + adr 1) < adr n"
    using assms(3) by (simp only: word_less_nat_alt u) simp
  moreover have "adr 0x200000 - adr e - adr 5 - adr 1 = adr ?d - (adr 5 + adr 1)"
    by (simp only: d) (simp add: algebra_simps)
  ultimately have "\<not> adr 0x200000 - adr e - adr 5 - adr 1 < adr n" by (simp only:) simp
  with False show ?thesis by simp
qed

lemma kmalloc_refines_abs:
  assumes inv: "heap_inv bs s" and e: "heap_end s = adr e" "e < 0x200000"
    and sz: "unat sz < 2 ^ 31" and r: "abs_kmalloc sz bs e = (r, bs', e')"
  shows "\<exists>s'. kmalloc sz s = Some (adr r, s') \<and> heap_inv bs' s' \<and> heap_end s' = adr e'
           \<and> keeps_payloads bs (ram s) (ram s')"
proof (cases "sz = 0")
  case True
  with r inv e show ?thesis by (auto simp: kmalloc_def abs_kmalloc_def adr_def)
next
  case False
  let ?n = "words_of sz"
  have e2: "e < 0x40000000" using e(2) by simp
  note inv' = heap_invE [OF inv e(1) e2]
  have n: "0 < ?n" "even ?n" "?n \<le> 0x20000000"
  proof -
    have "1 \<le> unat sz" using False by (simp add: Suc_le_eq unat_gt_0)
    then show "0 < ?n" "even ?n" "?n \<le> 0x20000000" using sz by (auto simp: words_of_def)
  qed
  have al: "(sz + 7) AND NOT 7 = adr ?n" "\<not> (sz + 7) AND NOT 7 < sz"
    using align_ok [of sz] sz by auto
  let ?tight = "6 \<le> 0x200000 - e \<and> 0x200000 - e < ?n + 6"
  have room: "KERNEL_HEAP_END - heap_end s - HDR - TAIL < adr ?n \<longleftrightarrow> ?tight"
    using room_check [OF inv'(3) e(2) n(3)] by (simp only: e(1) adr_numeral(2-4))
  have unf: "kmalloc sz s =
      (if ?tight then Some (0, s)
       else if heap_head s = 0 then kmalloc_first (adr ?n) s
       else do { found \<leftarrow> heap_search (adr ?n) (ram s) (heap_head s);
                 case found of Fit c \<Rightarrow> kmalloc_take (adr ?n) c s
                             | Last c \<Rightarrow> kmalloc_append (adr ?n) c s })"
    using False al(2) room unfolding kmalloc_def Let_def al(1) by simp
  have abs: "abs_kmalloc sz bs e = (if ?tight then (0, bs, e) else abs_alloc ?n bs e)"
    using False sz by (auto simp: abs_kmalloc_def)
  consider (tight) ?tight | (empty) "\<not> ?tight" "bs = []" | (list) "\<not> ?tight" "bs \<noteq> []" by blast
  then show ?thesis
  proof cases
    case tight
    with unf abs r inv e(1) show ?thesis by (auto simp: adr_numeral(6))
  next
    case empty
    then have "heap_head s = 0" "?n + 6 \<le> 0x100000" using inv' by (auto simp: adr_def)
    with empty unf abs r kmalloc_first_refines [OF _ e(1) e2 n(1,2)] inv show ?thesis by auto
  next
    case list
    have hd: "heap_head s \<noteq> 0"
      using list(2) inv'(1,2,5) by (cases bs) (auto simp: addr_simps dest: chained_le)
    have s1: "heap_search (adr ?n) (ram s) (heap_head s) =
        Some (case find_fit ?n bs of Some (xs, b, ys) \<Rightarrow> Fit (adr (baddr b))
              | None \<Rightarrow> Last (adr (final 0 bs)))"
      using heap_search_linked [OF inv'(6,1) e(2) list(2)] n(3) inv'(5) by simp
    have r': "abs_alloc ?n bs e = (r, bs', e')" using abs r list(1) by simp
    show ?thesis
    proof (cases "find_fit ?n bs")
      case None
      with unf list(1) hd s1 kmalloc_append_refines [OF inv e(1) e2 list(2) n None r']
      show ?thesis by simp
    next
      case (Some t)
      then obtain xs b ys where t: "find_fit ?n bs = Some (xs, b, ys)" by (cases t) auto
      with unf list(1) hd s1 kmalloc_take_refines [OF inv e(1) e2 n(1,2) t r']
      show ?thesis by simp
    qed
  qed
qed

end
