(* ===== verification/HeapFree.thy ===== *)
theory HeapFree
  imports HeapAlloc
begin

text \<open>
  \<open>kfree\<close> against the abstract allocator: marking a block free, joining it with a free
  neighbour on either side, and releasing the end of the heap.
\<close>

section \<open>Block lists in memory\<close>

definition hlist :: "mem \<Rightarrow> block list \<Rightarrow> nat \<Rightarrow> bool" where
  "hlist m bs e \<longleftrightarrow> chained bs e \<and> e < 0x200000 \<and> linked m 0 bs 0 \<and> tails m bs"

lemma hlistE:
  assumes "hlist m (xs @ b # ys) e"
  shows "chained xs (baddr b)" "chained ys e" "0x100000 \<le> baddr b" "0 < bsize b" "even (bsize b)"
    "baddr b + 5 + bsize b \<le> first ys e" "first ys e \<le> e" "e < 0x200000"
    "linked m 0 xs (baddr b)" "wd m (baddr b) = HEAP_MAGIC" "wd m (baddr b + 1) = adr (bsize b)"
    "(wd m (baddr b + 2) \<noteq> 0) = bfree b" "wd m (baddr b + 3) = adr (first ys 0)"
    "wd m (baddr b + 4) = adr (final 0 xs)" "linked m (baddr b) ys 0"
    "tails m xs" "tails m ys" "wd m (baddr b + 5 + bsize b) = HEAP_MAGIC"
  using assms by (auto simp: hlist_def chained_append linked_append dest: chained_le)

lemma hlistI:
  assumes "chained (xs @ b # ys) e" "e < 0x200000"
    "linked m 0 xs (baddr b)" "wd m (baddr b) = HEAP_MAGIC" "wd m (baddr b + 1) = adr (bsize b)"
    "(wd m (baddr b + 2) \<noteq> 0) = bfree b" "wd m (baddr b + 3) = adr (first ys 0)"
    "wd m (baddr b + 4) = adr (final 0 xs)" "linked m (baddr b) ys 0"
    "tails m xs" "tails m ys" "wd m (baddr b + 5 + bsize b) = HEAP_MAGIC"
  shows "hlist m (xs @ b # ys) e"
  using assms by (auto simp: hlist_def linked_append)

text \<open>Where the blocks before and after a given one lie.\<close>

lemma before_block:
  assumes "chained xs a" and "c \<in> set xs"
  shows "baddr c + 5 + bsize c \<le> a" "0 < bsize c"
  using chained_in [OF assms] by auto

lemma first_neq_0: "chained ys e \<Longrightarrow> ys \<noteq> [] \<Longrightarrow> 0x100000 \<le> first ys 0 \<and> first ys 0 = first ys e"
  by (cases ys) auto

lemma after_block:
  assumes "chained ys e" and "c \<in> set ys"
  shows "first ys e \<le> baddr c" "baddr c + 5 + bsize c \<le> e" "0 < bsize c" "0x100000 \<le> first ys 0"
    "first ys 0 = first ys e"
proof -
  have "ys \<noteq> []" using assms(2) by auto
  then show "first ys e \<le> baddr c" "baddr c + 5 + bsize c \<le> e" "0 < bsize c"
    "0x100000 \<le> first ys 0" "first ys 0 = first ys e"
    using chained_in [OF assms] first_neq_0 [OF assms(1)] by auto
qed

section \<open>Marking a block\<close>

lemma mark_hlist:
  assumes "hlist m (xs @ b # ys) e" and "(v \<noteq> 0) = f"
  shows "hlist (put32 (adr (baddr b + 2)) v m) (xs @ Block (baddr b) (bsize b) f # ys) e"
    and "\<not> bfree b \<Longrightarrow> keeps_payloads xs m (put32 (adr (baddr b + 2)) v m)"
    and "keeps_payloads ys m (put32 (adr (baddr b + 2)) v m)"
proof -
  note h = hlistE [OF assms(1)]
  let ?m = "put32 (adr (baddr b + 2)) v m"
  have at: "wd ?m k = wd m k" if "k \<noteq> baddr b + 2" "k < 0x40000000" for k
    using that h(6-8) by (simp add: wd_put32)
  have lx: "wd ?m (baddr c + k) = wd m (baddr c + k)" if "c \<in> set xs" "k \<le> 5 + bsize c" for c k
    by (rule at) (use before_block [OF h(1) that(1)] that(2) h(6-8) in auto)
  have ly: "wd ?m (baddr c + k) = wd m (baddr c + k)" if "c \<in> set ys" "k \<le> 5 + bsize c" for c k
    by (rule at) (use after_block [OF h(2) that(1)] that(2) h(4,6-8) in auto)
  show "hlist ?m (xs @ Block (baddr b) (bsize b) f # ys) e"
  proof (rule hlistI)
    show "linked ?m 0 xs (baddr (Block (baddr b) (bsize b) f))"
      using h(9) linked_cong [of xs ?m m 0 "baddr b"] lx by simp
    show "linked ?m (baddr (Block (baddr b) (bsize b) f)) ys 0"
      using h(15) linked_cong [of ys ?m m "baddr b" 0] ly by simp
    show "tails ?m xs" using h(16) lx by (simp add: tails_def add.assoc)
    show "tails ?m ys" using h(17) ly by (simp add: tails_def add.assoc)
  qed (use h assms(2) in \<open>auto simp: chained_append wd_put32 simp del: One_nat_def add_2_eq_Suc'\<close>)
  have pay: "keeps_payloads zs m ?m"
    if "\<And>c k. c \<in> set zs \<Longrightarrow> k \<le> 5 + bsize c \<Longrightarrow> wd ?m (baddr c + k) = wd m (baddr c + k)" for zs
  proof (rule keeps_payloadsI)
    fix c k assume "c \<in> set zs" "baddr c + 5 \<le> k" "k < baddr c + 5 + bsize c"
    then show "wd ?m k = wd m k" using that [of c "k - baddr c"] by simp
  qed
  show "keeps_payloads xs m ?m" "keeps_payloads ys m ?m" using pay lx ly by blast+
qed

section \<open>Joining two neighbours\<close>

text \<open>What both merges of \<open>kfree\<close> do to the memory: the block at \<open>a\<close> gets the size \<open>z\<close> and
  the successor \<open>nn\<close>, a magic word is put at its new end, and the successor points back.\<close>

definition joined :: "nat \<Rightarrow> nat \<Rightarrow> nat \<Rightarrow> mem \<Rightarrow> mem \<Rightarrow> bool" where
  "joined a z nn m m' \<longleftrightarrow>
     wd m' (a + 1) = adr z \<and> wd m' (a + 3) = adr nn \<and> wd m' (a + 5 + z) = HEAP_MAGIC
     \<and> (nn \<noteq> 0 \<longrightarrow> wd m' (nn + 4) = adr a)
     \<and> (\<forall>k. k < 0x40000000 \<longrightarrow> k \<noteq> a + 1 \<longrightarrow> k \<noteq> a + 3 \<longrightarrow> k \<noteq> a + 5 + z
            \<longrightarrow> (nn = 0 \<or> k \<noteq> nn + 4) \<longrightarrow> wd m' k = wd m k)"

definition join :: "block \<Rightarrow> block \<Rightarrow> block" where
  "join p b = Block (baddr p) (bsize p + 6 + bsize b) (bfree p)"

lemma joined_hlist:
  assumes h: "hlist m (xs @ p # b # ys) e" and ch: "chained (xs @ join p b # ys) e"
    and j: "joined (baddr p) (bsize p + 6 + bsize b) (first ys 0) m m'"
  shows "hlist m' (xs @ join p b # ys) e"
    and "keeps_payloads xs m m'" and "keeps_payloads ys m m'"
proof -
  let ?a = "baddr p" and ?z = "bsize p + 6 + bsize b" and ?nn = "first ys 0"
  note hp = hlistE [OF h]
  have hb: "chained ys e" "linked m (baddr b) ys 0" "tails m ys" "wd m (baddr b + 3) = adr ?nn"
    using hlistE [of m "xs @ [p]" b ys e] h by auto
  have lt: "?a + 5 + ?z \<le> first ys e" "first ys e \<le> e"
    using ch chained_le [OF hb(1)] by (auto simp: chained_append join_def)
  have j': "wd m' (?a + 1) = adr ?z" "wd m' (?a + 3) = adr ?nn" "wd m' (?a + 5 + ?z) = HEAP_MAGIC"
    "?nn \<noteq> 0 \<Longrightarrow> wd m' (?nn + 4) = adr ?a"
    using j by (auto simp: joined_def)
  have at: "wd m' k = wd m k" if "k < 0x40000000" "k \<noteq> ?a + 1" "k \<noteq> ?a + 3" "k \<noteq> ?a + 5 + ?z"
    "?nn = 0 \<or> k \<noteq> ?nn + 4" for k
    using j that unfolding joined_def by blast
  have nn: "ys \<noteq> [] \<Longrightarrow> ?nn = first ys e" using first_neq_0 [OF hb(1)] by simp
  have nn0: "?nn = 0 \<or> ?a + 5 + ?z \<le> ?nn" using nn lt by (cases ys) auto
  have lx: "wd m' (baddr c + k) = wd m (baddr c + k)" if "c \<in> set xs" "k \<le> 5 + bsize c" for c k
    by (rule at) (use before_block [OF hp(1) that(1)] that(2) lt hp(8) nn0 in auto)
  have ly: "wd m' (baddr c + k) = wd m (baddr c + k)"
    if "c \<in> set ys" "k \<le> 5 + bsize c" "baddr c + k \<noteq> ?nn + 4" "baddr c + k \<noteq> ?a + 5 + ?z" for c k
    by (rule at) (use after_block [OF hb(1) that(1)] that(2-) lt hp(8) nn in auto)
  have tl: "wd m' (baddr c + (5 + bsize c)) = wd m (baddr c + (5 + bsize c))" if "c \<in> set ys" for c
    by (rule ly) (use after_block [OF hb(1) that] that lt nn in auto)
  have "linked m' ?a ys 0"
  proof (cases ys)
    case (Cons y ys')
    have y: "?nn = baddr y" "?a + 5 + ?z \<le> baddr y" "baddr y + 5 + bsize y \<le> first ys' e" "chained ys' e"
      using Cons hb(1) lt by auto
    have "linked m' (baddr y) ys' 0 = linked m (baddr y) ys' 0"
    proof (rule linked_cong)
      fix c k assume c: "c \<in> set ys'" "k < (5 :: nat)"
      show "wd m' (baddr c + k) = wd m (baddr c + k)"
        by (rule ly) (use c after_block [OF y(4) c(1)] y Cons in auto)
    qed
    moreover have "wd m' (baddr y) = HEAP_MAGIC"
    proof (cases "baddr y = ?a + 5 + ?z")
      case True
      then show ?thesis using j'(3) by simp
    next
      case False
      then show ?thesis using ly [of y 0] y(1) hb(2) Cons by simp
    qed
    ultimately show ?thesis
      using hb(2) j'(4) y ly [of y 1] ly [of y 2] ly [of y 3] unfolding Cons
      by (simp del: One_nat_def add_2_eq_Suc')
  qed simp
  moreover have "wd m' ?a = wd m ?a" "wd m' (?a + 2) = wd m (?a + 2)" "wd m' (?a + 4) = wd m (?a + 4)"
    by (rule at; use nn0 lt hp(8) in auto)+
  ultimately show "hlist m' (xs @ join p b # ys) e"
  proof (intro hlistI, goal_cases)
    case 3
    show ?case using hp(9) linked_cong [of xs m' m 0 ?a] lx by (simp add: join_def)
  next
    case 10
    show ?case using hp(16) lx by (simp add: tails_def add.assoc)
  next
    case 11
    show ?case using hb(3) tl by (simp add: tails_def add.assoc)
  qed (use ch hp j' in
        \<open>simp_all add: join_def add.assoc del: One_nat_def add_2_eq_Suc'\<close>)
  show "keeps_payloads xs m m'"
  proof (rule keeps_payloadsI)
    fix c k assume "c \<in> set xs" "baddr c + 5 \<le> k" "k < baddr c + 5 + bsize c"
    then show "wd m' k = wd m k" using lx [of c "k - baddr c"] by simp
  qed
  show "keeps_payloads ys m m'"
  proof (rule keeps_payloadsI)
    fix c k assume c: "c \<in> set ys" "baddr c + 5 \<le> k" "k < baddr c + 5 + bsize c"
    then show "wd m' k = wd m k"
      using ly [of c "k - baddr c"] after_block [OF hb(1) c(1)] lt nn by fastforce
  qed
qed


section \<open>The two merges\<close>

lemma in_heap_adr:
  assumes "heap_start s = adr 0x100000" and "heap_end s = adr e" and "e < 0x40000000"
    and "k < 0x40000000"
  shows "in_heap (adr k) s \<longleftrightarrow> 0x100000 \<le> k \<and> k < e"
  using assms by (simp add: in_heap_def addr_simps)

lemma merge_next_none:
  assumes h: "hlist m (xs @ b # ys) e" and s: "heap_start s = adr 0x100000" "heap_end s = adr e"
    and ys: "ys = [] \<or> \<not> bfree (hd ys)"
  shows "merge_next (adr (baddr b)) s m = Some m"
proof -
  note hb = hlistE [OF h]
  have next_: "ld32 m (adr (baddr b + 3)) = Some (adr (first ys 0))"
    using hb(3,6-8,13) by (simp add: mem_simps)
  show ?thesis
  proof (cases ys)
    case Nil
    then show ?thesis using next_ by (simp add: merge_next_def addr_simps)
  next
    case (Cons y ys')
    have "0x100000 \<le> baddr y" "baddr y + 5 < 0x200000" "wd m (baddr y + 2) = 0"
      using hb(2,8,15) ys Cons chained_in [OF hb(2), of y] by auto
    with next_ Cons show ?thesis
      by (simp add: merge_next_def addr_simps mem_simps del: One_nat_def add_2_eq_Suc')
  qed
qed

lemma merge_next_join:
  assumes h: "hlist m (xs @ b # y # ys) e" and s: "heap_start s = adr 0x100000" "heap_end s = adr e"
    and y: "bfree y" and ch: "chained (xs @ join b y # ys) e"
  shows "\<exists>m'. merge_next (adr (baddr b)) s m = Some m'
           \<and> joined (baddr b) (bsize b + 6 + bsize y) (first ys 0) m m'"
proof -
  note hb = hlistE [OF h]
  have hy: "chained ys e" "0x100000 \<le> baddr y" "0 < bsize y" "baddr y + 5 + bsize y \<le> first ys e"
    "first ys e \<le> e" "wd m (baddr y + 1) = adr (bsize y)" "(wd m (baddr y + 2) \<noteq> 0) = bfree y"
    "wd m (baddr y + 3) = adr (first ys 0)"
    using hlistE [of m "xs @ [b]" y ys e] h by auto
  let ?a = "baddr b" and ?z = "bsize b + 6 + bsize y" and ?nn = "first ys 0"
  have lt: "?a + 5 + ?z \<le> first ys e" using ch by (auto simp: chained_append join_def)
  have nn: "?nn = 0 \<or> (?a + 5 + ?z \<le> ?nn \<and> ?nn + 5 < 0x200000)"
    using hy(1) lt hb(8) by (cases ys) (auto dest: chained_le)
  have ay: "?a + 5 + bsize b \<le> baddr y" using hb(6) by simp
  have zz: "bsize b + (5 + bsize y + 1) = ?z" by simp
  let ?m1 = "put32 (adr (?a + 5 + ?z)) HEAP_MAGIC
      (put32 (adr (?a + 3)) (adr ?nn) (put32 (adr (?a + 1)) (adr ?z) m))"
  let ?m = "if ?nn = 0 then ?m1 else put32 (adr (?nn + 4)) (adr ?a) ?m1"
  have "merge_next (adr ?a) s m = Some ?m"
  proof (cases "?nn = 0")
    case True
    then show ?thesis
      using hb(3,4,6-8,11,13) hy y ay lt s unfolding merge_next_def
      by (simp add: addr_simps mem_simps adr_numeral(3,4) in_heap_adr zz
          del: One_nat_def add_2_eq_Suc') (simp add: ac_simps adr_numeral(6))
  next
    case False
    then have "?a + 5 + ?z \<le> ?nn" "?nn + 5 < 0x200000" using nn by auto
    with False show ?thesis
      using hb(3,4,6-8,11,13) hy y ay lt s unfolding merge_next_def
      by (simp add: addr_simps mem_simps adr_numeral(3,4) in_heap_adr zz
          del: One_nat_def add_2_eq_Suc') (simp add: ac_simps)
  qed
  moreover have "joined ?a ?z ?nn m ?m"
    using hb(3) lt hy(5) hb(8) nn
    by (cases "?nn = 0") (simp_all add: joined_def wd_put32 del: One_nat_def add_2_eq_Suc')
  ultimately show ?thesis by blast
qed

lemma merge_prev_none:
  assumes h: "hlist m (xs @ b # ys) e" and s: "heap_start s = adr 0x100000" "heap_end s = adr e"
    and xs: "xs = [] \<or> \<not> bfree (last xs)"
  shows "merge_prev (adr (baddr b)) s m = Some m"
proof -
  note hb = hlistE [OF h]
  have prev: "ld32 m (adr (baddr b + 4)) = Some (adr (final 0 xs))"
    using hb(3,6-8,14) by (simp add: mem_simps)
  show ?thesis
  proof (cases xs rule: rev_cases)
    case Nil
    then show ?thesis using prev by (simp add: merge_prev_def addr_simps)
  next
    case (snoc xs' p)
    have "0x100000 \<le> baddr p" "baddr p + 5 < 0x200000" "wd m (baddr p + 2) = 0"
      using hlistE [of m xs' p "b # ys" e] h snoc xs hb(8) by auto
    with prev snoc show ?thesis
      by (simp add: merge_prev_def addr_simps mem_simps del: One_nat_def add_2_eq_Suc')
  qed
qed

lemma merge_prev_join:
  assumes h: "hlist m (xs @ p # b # ys) e" and s: "heap_start s = adr 0x100000" "heap_end s = adr e"
    and p: "bfree p" and ch: "chained (xs @ join p b # ys) e"
    and hd: "baddr b \<le> baddr p + bsize p + 6 + bsize b"
  shows "\<exists>m'. merge_prev (adr (baddr b)) s m = Some m'
           \<and> joined (baddr p) (bsize p + 6 + bsize b) (first ys 0) m m'"
proof -
  note hp = hlistE [OF h]
  have hb: "chained ys e" "0x100000 \<le> baddr b" "0 < bsize b" "baddr b + 5 + bsize b \<le> first ys e"
    "first ys e \<le> e" "wd m (baddr b + 1) = adr (bsize b)"
    "wd m (baddr b + 3) = adr (first ys 0)" "wd m (baddr b + 4) = adr (baddr p)"
    using hlistE [of m "xs @ [p]" b ys e] h by auto
  let ?a = "baddr p" and ?z = "bsize p + 6 + bsize b" and ?nn = "first ys 0"
  have lt: "?a + 5 + ?z \<le> first ys e" using ch by (auto simp: chained_append join_def)
  have nn: "?nn = 0 \<or> (?a + 5 + ?z \<le> ?nn \<and> ?nn + 5 < 0x200000)"
    using hb(1) lt hp(8) by (cases ys) (auto dest: chained_le)
  have ab: "?a + 5 + bsize p \<le> baddr b" using hp(6) by simp
  have zz: "bsize p + (5 + bsize b + 1) = ?z" by simp
  let ?m1 = "put32 (adr (?a + 3)) (adr ?nn) (put32 (adr (?a + 5 + ?z)) HEAP_MAGIC
      (put32 (adr (?a + 1)) (adr ?z) m))"
  let ?m = "if ?nn = 0 then ?m1 else put32 (adr (?nn + 4)) (adr ?a) ?m1"
  have tail: "baddr b + 5 \<le> ?a + 5 + ?z" using hd by simp
  have "merge_prev (adr (baddr b)) s m = Some ?m"
  proof (cases "?nn = 0")
    case True
    then show ?thesis
      using hp(3,4,6-8,11,12) hb p ab lt tail s unfolding merge_prev_def
      by (simp add: addr_simps mem_simps adr_numeral(3,4) in_heap_adr zz
          del: One_nat_def add_2_eq_Suc') (simp add: ac_simps adr_numeral(6))
  next
    case False
    then have "?a + 5 + ?z \<le> ?nn" "?nn + 5 < 0x200000" using nn by auto
    with False show ?thesis
      using hp(3,4,6-8,11,12) hb p ab lt tail s unfolding merge_prev_def
      by (simp add: addr_simps mem_simps adr_numeral(3,4) in_heap_adr zz
          del: One_nat_def add_2_eq_Suc') (simp add: ac_simps)
  qed
  moreover have "joined ?a ?z ?nn m ?m"
    using hp(3) lt hb(5) hp(8) nn
    by (cases "?nn = 0") (simp_all add: joined_def wd_put32 del: One_nat_def add_2_eq_Suc')
  ultimately show ?thesis by blast
qed

section \<open>Releasing the end of the heap\<close>

lemma last_block_next:
  assumes "linked m pv bs 0" and "chained bs e" and "e < 0x200000" and "bs \<noteq> []"
    and "\<And>b. b \<in> set bs \<Longrightarrow> wd m' (baddr b + 3) = wd m (baddr b + 3)"
  shows "last_block m' (adr (first bs 0)) = Some (adr (final 0 bs))"
  using assms
proof (induction bs arbitrary: pv)
  case (Cons b bs)
  have b: "0x100000 \<le> baddr b" "baddr b + 5 < 0x200000"
    using Cons.prems(2,3) chained_in [OF Cons.prems(2), of b] by auto
  have n0: "adr (first bs 0) = 0 \<longleftrightarrow> bs = []"
    using Cons.prems(2,3) by (cases bs) (auto simp: addr_simps dest: chained_le)
  have step: "last_block m' (adr (baddr b)) =
      (if bs = [] then Some (adr (baddr b)) else last_block m' (adr (first bs 0)))"
    using b n0 Cons.prems(1,5)
    by (subst last_block.simps) (auto simp: addr_simps mem_simps)
  show ?case
  proof (cases "bs = []")
    case False
    then have "last_block m' (adr (first bs 0)) = Some (adr (final 0 bs))"
      using Cons.IH [of "baddr b"] Cons.prems by simp
    with step False show ?thesis by (simp add: final_def)
  qed (use step in \<open>simp add: final_def\<close>)
qed simp

lemmas last_block_linked = last_block_next [where m' = m and m = m for m, OF _ _ _ _ refl]

lemma release_end_eq:
  assumes h: "hlist (ram s) bs e" and hd: "heap_head s = adr (first bs 0)" and ne: "bs \<noteq> []"
  shows "release_end s =
     Some (if length bs = 1 \<and> bfree (hd bs) then s\<lparr>heap_end := heap_start s, heap_head := 0\<rparr>
           else if bfree (last bs) then s\<lparr>heap_end := adr (baddr (last bs))\<rparr> else s)"
proof -
  obtain b ys where bs: "bs = [] @ b # ys" using ne by (cases bs) auto
  note hb = hlistE [OF h [unfolded bs]]
  obtain zs l where l: "bs = zs @ l # []" using ne by (metis rev_exhaust)
  note hl = hlistE [OF h [unfolded l]]
  have head: "heap_head s = adr (baddr b)" "adr (baddr b) \<noteq> 0"
    using hd hb(3,6-8) by (auto simp: bs addr_simps)
  have ys0: "wd (ram s) (baddr b + 3) = 0 \<longleftrightarrow> ys = []"
    using hb(2,7,8,13) by (cases ys) (auto simp: addr_simps dest: chained_le)
  have last: "last_block (ram s) (adr (baddr b)) = Some (adr (baddr l))"
    using last_block_linked [of "ram s" 0 bs e] h ne head(1) hd l bs
    by (simp add: hlist_def final_def)
  have free: "ld32 (ram s) (adr (baddr b) + 8) = Some (wd (ram s) (baddr b + 2))"
    "ld32 (ram s) (adr (baddr b) + 12) = Some (wd (ram s) (baddr b + 3))"
    "ld32 (ram s) (adr (baddr l) + 8) = Some (wd (ram s) (baddr l + 2))"
    using hb(3,6-8) hl(3,6-8)
    by (simp_all add: addr_simps mem_simps del: One_nat_def add_2_eq_Suc')
  have "length bs = 1 \<longleftrightarrow> ys = []" "hd bs = b" using bs by auto
  moreover have "last bs = l" using l by simp
  ultimately show ?thesis
    using head last free ys0 hb(12) hl(12) by (auto simp: release_end_def)
qed

section \<open>\<open>kfree\<close> refines the abstract free\<close>

definition abs_merge_next :: "block \<Rightarrow> block list \<Rightarrow> block \<times> block list" where
  "abs_merge_next b ys = (case ys of [] \<Rightarrow> (b, [])
     | y # ys' \<Rightarrow> if bfree y then (join b y, ys') else (b, y # ys'))"

definition abs_merge_prev :: "block list \<Rightarrow> block \<Rightarrow> block list \<times> block" where
  "abs_merge_prev xs b =
     (if xs \<noteq> [] \<and> bfree (last xs) then (butlast xs, join (last xs) b) else (xs, b))"

definition abs_free :: "block list \<Rightarrow> block \<Rightarrow> block list \<Rightarrow> block list" where
  "abs_free xs b ys =
     (let (b1, ys1) = abs_merge_next (Block (baddr b) (bsize b) True) ys;
          (xs1, b2) = abs_merge_prev xs b1
      in xs1 @ b2 # ys1)"

definition abs_release :: "block list \<Rightarrow> nat \<Rightarrow> block list \<times> nat" where
  "abs_release bs e = (if length bs = 1 \<and> bfree (hd bs) then ([], 0x100000) else (bs, e))"

text \<open>When the joined blocks stay inside the room of the blocks they replace, and the magic
  word of a join with the predecessor misses the header that is still needed.\<close>

definition safe_free :: "block list \<Rightarrow> block \<Rightarrow> block list \<Rightarrow> nat \<Rightarrow> bool" where
  "safe_free xs b ys e \<longleftrightarrow>
     (let (b1, ys1) = abs_merge_next (Block (baddr b) (bsize b) True) ys
      in chained (xs @ b1 # ys1) e \<and> chained (abs_free xs b ys) e
         \<and> (xs \<noteq> [] \<and> bfree (last xs) \<longrightarrow> baddr b \<le> baddr (last xs) + bsize (last xs) + 6 + bsize b1))"

lemma merge_next_hlist:
  assumes h: "hlist m (xs @ b # ys) e" and s: "heap_start s = adr 0x100000" "heap_end s = adr e"
    and r: "abs_merge_next b ys = (b1, ys1)" and ch: "chained (xs @ b1 # ys1) e"
  shows "\<exists>m'. merge_next (adr (baddr b)) s m = Some m' \<and> hlist m' (xs @ b1 # ys1) e
           \<and> keeps_payloads xs m m' \<and> keeps_payloads ys m m' \<and> baddr b1 = baddr b"
proof (cases "ys = [] \<or> \<not> bfree (hd ys)")
  case True
  then have "b1 = b" "ys1 = ys" using r by (auto simp: abs_merge_next_def split: list.splits)
  with merge_next_none [OF h s True] h show ?thesis by simp
next
  case False
  then obtain y where y: "ys = y # ys1" "bfree y" "b1 = join b y"
    using r by (auto simp: abs_merge_next_def split: list.splits if_splits)
  obtain m' where m': "merge_next (adr (baddr b)) s m = Some m'"
    "joined (baddr b) (bsize b + 6 + bsize y) (first ys1 0) m m'"
    using merge_next_join [OF h [unfolded y(1)] s y(2)] ch y(3) by blast
  with joined_hlist [OF h [unfolded y(1)] _ m'(2)] ch y show ?thesis by (simp add: join_def)
qed

lemma merge_prev_hlist:
  assumes h: "hlist m (xs @ b # ys) e" and s: "heap_start s = adr 0x100000" "heap_end s = adr e"
    and r: "abs_merge_prev xs b = (xs1, b1)" and ch: "chained (xs1 @ b1 # ys) e"
    and hd: "xs \<noteq> [] \<and> bfree (last xs) \<Longrightarrow> baddr b \<le> baddr (last xs) + bsize (last xs) + 6 + bsize b"
  shows "\<exists>m'. merge_prev (adr (baddr b)) s m = Some m' \<and> hlist m' (xs1 @ b1 # ys) e
           \<and> keeps_payloads xs m m' \<and> keeps_payloads ys m m'"
proof (cases "xs = [] \<or> \<not> bfree (last xs)")
  case True
  then have "b1 = b" "xs1 = xs" using r by (auto simp: abs_merge_prev_def split: if_splits)
  with merge_prev_none [OF h s True] h show ?thesis by simp
next
  case False
  then have x: "xs = xs1 @ [last xs]" "bfree (last xs)" "b1 = join (last xs) b"
    using r by (auto simp: abs_merge_prev_def)
  have h': "hlist m (xs1 @ last xs # b # ys) e" using h x(1) by (metis append_Cons append_Nil append_assoc)
  obtain m' where m': "merge_prev (adr (baddr b)) s m = Some m'"
    "joined (baddr (last xs)) (bsize (last xs) + 6 + bsize b) (first ys 0) m m'"
    using merge_prev_join [OF h' s x(2)] ch x(3) hd False by auto
  have "keeps_payloads xs1 m m'" "keeps_payloads ys m m'" "hlist m' (xs1 @ b1 # ys) e"
    using joined_hlist [OF h' _ m'(2)] ch x(3) by auto
  moreover have "keeps_payloads xs m m'"
    using \<open>keeps_payloads xs1 m m'\<close> x(1,2) by (metis keeps_payloads_free keeps_payloads_simps(1,3))
  ultimately show ?thesis using m'(1) by blast
qed


lemma heap_inv_hlist:
  assumes "heap_inv bs s" and "heap_end s = adr e" and "e < 0x40000000"
  shows "hlist (ram s) bs e"
  using heap_invE [OF assms] by (simp add: hlist_def)

text \<open>The checks at the start of \<open>kfree\<close> let every block of the list pass.\<close>

lemma kfree_checks_pass:
  assumes h: "hlist (ram s) (xs @ b # ys) e" and s: "heap_start s = adr 0x100000" "heap_end s = adr e"
  shows "kfree (adr (baddr b + 5)) s =
     (if bfree b then Some (vga_print (lit ''Double free detected!\<newline>'') s)
      else kfree_block (adr (baddr b)) s)"
proof -
  note hb = hlistE [OF h]
  have "adr (baddr b + 5) - adr 5 = adr (baddr b)" by (simp add: addr_simps)
  moreover have "adr (baddr b + 5) \<noteq> 0" using hb(3,6-8) by (simp add: addr_simps)
  ultimately show ?thesis
    using hb(3,4,6-8,10-12,18) s unfolding kfree_def adr_numeral(3)
    by (simp add: addr_simps mem_simps Let_def not_less del: One_nat_def add_2_eq_Suc')
qed

lemma keeps_payloads_trans:
  "keeps_payloads bs m m' \<Longrightarrow> keeps_payloads bs m' m'' \<Longrightarrow> keeps_payloads bs m m''"
  by (simp add: keeps_payloads_def)

lemma abs_merge_next_keeps:
  "abs_merge_next b ys = (b1, ys1) \<Longrightarrow> keeps_payloads ys1 m m' \<Longrightarrow> keeps_payloads ys m m'"
  by (auto simp: abs_merge_next_def split: list.splits if_splits)

lemma abs_free_first:
  assumes "abs_merge_next (Block (baddr b) (bsize b) True) ys = (b1, ys1)"
    and "abs_merge_prev xs b1 = (xs1, b2)"
  shows "first (xs1 @ b2 # ys1) n = first (xs @ b # ys) n" "bfree b2"
proof -
  have b1: "baddr b1 = baddr b" "bfree b1"
    using assms(1) by (auto simp: abs_merge_next_def join_def split: list.splits if_splits)
  show "first (xs1 @ b2 # ys1) n = first (xs @ b # ys) n"
    using assms(2) b1 by (cases xs rule: rev_cases)
      (auto simp: abs_merge_prev_def first_append join_def split: if_splits)
  show "bfree b2"
    using assms(2) b1 by (auto simp: abs_merge_prev_def join_def split: if_splits)
qed

text \<open>Every free whose joins stay in their room returns. The block list is the abstract one; the end of the heap moves
  down when nothing else is left, and also, with the block still linked behind it, when the last block is free.\<close>

lemma kfree_runs:
  assumes inv: "heap_inv (xs @ b # ys) s" and e: "heap_end s = adr e" "e < 0x40000000"
    and used: "\<not> bfree b" and safe: "safe_free xs b ys e"
  defines "bs \<equiv> abs_free xs b ys"
  shows "\<exists>s'. kfree (adr (baddr b + 5)) s = Some s' \<and> keeps_payloads (xs @ ys) (ram s) (ram s')
           \<and> (if length bs = 1 then heap_inv [] s' \<and> heap_end s' = adr 0x100000
              else if bfree (last bs) then heap_inv bs (s'\<lparr>heap_end := adr e\<rparr>) \<and> heap_end s' = adr (baddr (last bs))
              else heap_inv bs s' \<and> heap_end s' = adr e)"
proof -
  note inv' = heap_invE [OF inv e]
  have h: "hlist (ram s) (xs @ b # ys) e" by (rule heap_inv_hlist [OF inv e])
  let ?b0 = "Block (baddr b) (bsize b) True"
  obtain b1 ys1 where 1: "abs_merge_next ?b0 ys = (b1, ys1)" by fastforce
  obtain xs1 b2 where 2: "abs_merge_prev xs b1 = (xs1, b2)" by fastforce
  have free: "abs_free xs b ys = xs1 @ b2 # ys1" by (simp add: abs_free_def 1 2)
  have ch: "chained (xs @ b1 # ys1) e" "chained (xs1 @ b2 # ys1) e"
    "xs \<noteq> [] \<and> bfree (last xs) \<Longrightarrow> baddr b \<le> baddr (last xs) + bsize (last xs) + 6 + bsize b1"
    using safe by (auto simp: safe_free_def 1 free)
  let ?m0 = "put32 (adr (baddr b + 2)) 1 (ram s)"
  note mk = mark_hlist [OF h, of 1 True]
  have m0: "st32 (adr (baddr b) + 8) 1 (ram s) = Some ?m0"
    using hlistE [OF h] by (simp add: addr_simps mem_simps del: One_nat_def add_2_eq_Suc')
  obtain m1 where m1: "merge_next (adr (baddr b)) s ?m0 = Some m1" "hlist m1 (xs @ b1 # ys1) e"
    "keeps_payloads xs ?m0 m1" "keeps_payloads ys ?m0 m1" "baddr b1 = baddr b"
    using merge_next_hlist [of ?m0 xs ?b0 ys e s, OF _ inv'(4) e(1) 1 ch(1)] mk(1) by auto
  obtain m2 where m2: "merge_prev (adr (baddr b)) s m1 = Some m2" "hlist m2 (xs1 @ b2 # ys1) e"
    "keeps_payloads xs m1 m2" "keeps_payloads ys1 m1 m2"
    using merge_prev_hlist [OF m1(2) inv'(4) e(1) 2 ch(2)] ch(3) m1(5) by auto
  have first: "first (xs1 @ b2 # ys1) 0 = first (xs @ b # ys) 0" "bfree b2"
    "first (xs1 @ b2 # ys1) 0x100000 = first (xs @ b # ys) 0x100000"
    using abs_free_first [OF 1 2] by auto
  let ?s2 = "s\<lparr>ram := m2\<rparr>"
  let ?s' = "if length bs = 1 then ?s2\<lparr>heap_end := heap_start s, heap_head := 0\<rparr>
    else if bfree (last bs) then ?s2\<lparr>heap_end := adr (baddr (last bs))\<rparr> else ?s2"
  have free': "bs = xs1 @ b2 # ys1" by (simp add: bs_def free)
  have hd: "length bs = 1 \<Longrightarrow> bfree (hd bs)"
    using first(2) by (auto simp: free')
  have "release_end ?s2 = Some (if length bs = 1 \<and> bfree (hd bs)
      then ?s2\<lparr>heap_end := heap_start ?s2, heap_head := 0\<rparr>
      else if bfree (last bs) then ?s2\<lparr>heap_end := adr (baddr (last bs))\<rparr> else ?s2)"
    by (rule release_end_eq [of _ _ e]) (use m2(2) first(1) inv'(5) in \<open>simp_all add: free'\<close>)
  then have "release_end ?s2 = Some ?s'" using hd by simp
  then have kf: "kfree (adr (baddr b + 5)) s = Some ?s'"
    using kfree_checks_pass [OF h inv'(4) e(1)] used m0 m1(1) m2(1) by (simp add: kfree_block_def)
  have kp: "keeps_payloads (xs @ ys) (ram s) (ram ?s')"
    using mk(2,3) used m1(3,4) m2(3) abs_merge_next_keeps [OF 1 m2(4)]
    by (auto intro: keeps_payloads_trans)
  have many: "heap_inv bs (t\<lparr>heap_end := adr e\<rparr>)" if "length bs \<noteq> 1" "ram t = m2" "heap_start t = heap_start s" "heap_head t = heap_head s"
    for t :: "'a heap_scheme"
    unfolding free' using m2(2) inv' e first that by (intro heap_invI [of _ e]) (auto simp: hlist_def)
  have "if length bs = 1 then heap_inv [] ?s' \<and> heap_end ?s' = adr 0x100000
      else if bfree (last bs) then heap_inv bs (?s'\<lparr>heap_end := adr e\<rparr>) \<and> heap_end ?s' = adr (baddr (last bs))
      else heap_inv bs ?s' \<and> heap_end ?s' = adr e"
  proof (cases "length bs = 1")
    case True
    have "heap_inv [] ?s'"
      using True inv'(4) by (intro heap_invI [where e = "0x100000"]) (auto simp: adr_numeral(6))
    then show ?thesis using True inv'(4) by simp
  next
    case False
    have same: "s\<lparr>ram := m2, heap_end := adr e\<rparr> = s\<lparr>ram := m2\<rparr>" using e(1) by (cases s) simp
    have m: "heap_inv bs (s\<lparr>ram := m2, heap_end := adr e\<rparr>)" using many [OF False, of "s\<lparr>ram := m2\<rparr>"] by simp
    then have "heap_inv bs (s\<lparr>ram := m2\<rparr>)" by (simp only: same)
    then show ?thesis using m False e by simp
  qed
  with kf kp show ?thesis by blast
qed

lemma kfree_refines_abs:
  assumes inv: "heap_inv (xs @ b # ys) s" and e: "heap_end s = adr e" "e < 0x40000000"
    and used: "\<not> bfree b" and safe: "safe_free xs b ys e"
    and last: "length (abs_free xs b ys) = 1 \<or> \<not> bfree (last (abs_free xs b ys))"
    and r: "abs_release (abs_free xs b ys) e = (bs', e')"
  shows "\<exists>s'. kfree (adr (baddr b + 5)) s = Some s' \<and> heap_inv bs' s' \<and> heap_end s' = adr e'
           \<and> keeps_payloads (xs @ ys) (ram s) (ram s')"
proof -
  have "bfree (hd (abs_free xs b ys))" if "length (abs_free xs b ys) = 1"
  proof -
    obtain b1 ys1 where 1: "abs_merge_next (Block (baddr b) (bsize b) True) ys = (b1, ys1)" by fastforce
    obtain xs1 b2 where 2: "abs_merge_prev xs b1 = (xs1, b2)" by fastforce
    show ?thesis using that abs_free_first(2) [OF 1 2] by (auto simp: abs_free_def 1 2)
  qed
  then show ?thesis using kfree_runs [OF inv e used safe] last r by (auto simp: abs_release_def split: if_splits)
qed

section \<open>When freeing is safe\<close>

text \<open>
  In a heap whose blocks were never split, every block but the first is followed by exactly one
  word of room (its own magic word); the first block has none, since the first allocation does
  not count it. In such a heap every free is safe, and the heap stays so.
\<close>

fun spaced :: "nat \<Rightarrow> block list \<Rightarrow> nat \<Rightarrow> bool" where
  "spaced g [] e \<longleftrightarrow> True"
| "spaced g (b # bs) e \<longleftrightarrow> baddr b + 5 + bsize b + g = first bs e \<and> spaced 1 bs e"

lemma spaced_append:
  "spaced g (as @ bs) e \<longleftrightarrow> spaced g as (first bs e) \<and> spaced (if as = [] then g else 1) bs e"
  by (induction as arbitrary: g) (auto simp: first_append)

lemma spaced_free:
  assumes "spaced 0 (xs @ b # ys) e" and "chained (xs @ b # ys) e"
  shows "safe_free xs b ys e" "spaced 0 (abs_free xs b ys) e"
proof -
  let ?b0 = "Block (baddr b) (bsize b) True"
  obtain b1 ys1 where 1: "abs_merge_next ?b0 ys = (b1, ys1)" by fastforce
  obtain xs1 b2 where 2: "abs_merge_prev xs b1 = (xs1, b2)" by fastforce
  have free: "abs_free xs b ys = xs1 @ b2 # ys1" by (simp add: abs_free_def 1 2)
  have 3: "spaced 0 (xs @ b1 # ys1) e" "chained (xs @ b1 # ys1) e" "baddr b1 = baddr b"
    using 1 assms
    by (auto simp: abs_merge_next_def spaced_append chained_append join_def
        split: list.splits if_splits)
  have 4: "spaced 0 (xs1 @ b2 # ys1) e" "chained (xs1 @ b2 # ys1) e"
    using 2 3 by (cases xs rule: rev_cases;
        auto simp: abs_merge_prev_def spaced_append chained_append join_def first_append
        split: if_splits)+
  have 5: "xs \<noteq> [] \<Longrightarrow> baddr b \<le> baddr (last xs) + bsize (last xs) + 6 + bsize b1"
    using 3(1,3) by (cases xs rule: rev_cases) (auto simp: spaced_append split: if_splits)
  show "safe_free xs b ys e" using 3(2) 4(2) 5 by (auto simp: safe_free_def 1 free)
  show "spaced 0 (abs_free xs b ys) e" using 4(1) by (simp add: free)
qed

end
