(* ===== verification/HeapUse.thy ===== *)
theory HeapUse
  imports HeapFree
begin

text \<open>
  What the two refinements give a caller of the heap: fresh and disjoint payloads, contents that
  stay, the answers of \<open>kfree\<close> to bad pointers, and \<open>heap_validate\<close> on a well-formed heap.
\<close>

section \<open>Payloads in bytes\<close>

definition payload :: "block \<Rightarrow> nat set" where
  "payload b = {4 * (baddr b + 5) ..< 4 * (baddr b + 5 + bsize b)}"

definition used :: "block list \<Rightarrow> nat set set" where
  "used bs = payload ` {b \<in> set bs. \<not> bfree b}"

lemma used_simps [simp]:
  "used [] = {}" "used (as @ bs) = used as \<union> used bs"
  "used (b # bs) = (if bfree b then used bs else insert (payload b) (used bs))"
  by (auto simp: used_def)

lemma payload_disjoint:
  "baddr b + 5 + bsize b \<le> baddr c \<or> baddr c + 5 + bsize c \<le> baddr b \<Longrightarrow> payload b \<inter> payload c = {}"
  by (auto simp: payload_def)

lemma used_before:
  assumes "chained xs a" and "P \<in> used xs" and "a \<le> baddr b"
  shows "payload b \<inter> P = {}"
  using assms chained_in(3) [OF assms(1)] by (fastforce simp: used_def payload_def)

lemma used_after:
  assumes "chained ys e" and "P \<in> used ys" and "baddr b + 5 + bsize b \<le> first ys e"
  shows "payload b \<inter> P = {}"
  using assms chained_in(2) [OF assms(1)] by (fastforce simp: used_def payload_def)

lemma used_bounds:
  assumes "chained bs e" and "P \<in> used bs" and "x \<in> P"
  shows "0x400014 \<le> x" "x < 4 * e"
  using assms chained_in [OF assms(1)] by (fastforce simp: used_def payload_def)+

lemma words_of_bytes: "unat sz \<le> 4 * words_of sz"
  by (simp add: words_of_def)

text \<open>A successful allocation adds one payload, disjoint from those in use.\<close>

lemma abs_kmalloc_used:
  assumes r: "abs_kmalloc sz bs e = (r, bs', e')" and ch: "chained bs e" and e: "0x100000 \<le> e"
  shows "r = 0 \<and> bs' = bs \<and> e' = e
    \<or> r \<noteq> 0 \<and> (\<exists>P. {4 * r ..< 4 * r + unat sz} \<subseteq> P \<and> used bs' = insert P (used bs) \<and> P \<inter> \<Union>(used bs) = {})"
proof (cases "r = 0")
  case True
  with r e show ?thesis
    by (auto simp: abs_kmalloc_def abs_alloc_def Let_def split: if_splits option.splits)
next
  case False
  let ?n = "words_of sz"
  have a: "abs_alloc ?n bs e = (r, bs', e')"
    using r False by (auto simp: abs_kmalloc_def split: if_splits)
  show ?thesis
  proof (cases "find_fit ?n bs")
    case None
    then have *: "r = e + 5" "bs' = bs @ [Block e ?n False]"
      using a False by (auto simp: abs_alloc_def Let_def split: if_splits)
    have "payload (Block e ?n False) \<inter> \<Union>(used bs) = {}"
      using used_before [OF ch, of _ "Block e ?n False"] by auto
    moreover have "{4 * r ..< 4 * r + unat sz} \<subseteq> payload (Block e ?n False)"
      using words_of_bytes [of sz] by (auto simp: payload_def *)
    ultimately show ?thesis using False by (auto simp: *)
  next
    case (Some t)
    then obtain xs b ys where t: "find_fit ?n bs = Some (xs, b, ys)" by (cases t) auto
    note bs = find_fit_Some [OF t]
    have *: "r = baddr b + 5" "bs' = xs @ take_fit ?n b @ ys"
      using a t by (auto simp: abs_alloc_def)
    obtain c where c: "baddr c = baddr b" "?n \<le> bsize c" "bsize c \<le> bsize b"
      "used (take_fit ?n b) = {payload c}"
    proof (cases "?n + 8 \<le> bsize b")
      case True
      then show ?thesis using that [of "Block (baddr b) ?n False"] by (simp add: take_fit_def)
    next
      case False
      then show ?thesis using that [of "Block (baddr b) (bsize b) False"] bs by (simp add: take_fit_def)
    qed
    have ch': "chained xs (baddr b)" "chained ys e" "baddr b + 5 + bsize b \<le> first ys e"
      using ch bs by (auto simp: chained_append)
    have "payload c \<inter> \<Union>(used bs) = {}"
      using used_before [OF ch'(1), of _ c] used_after [OF ch'(2), of _ c] ch'(3) c bs by fastforce
    moreover have "{4 * r ..< 4 * r + unat sz} \<subseteq> payload c"
      using words_of_bytes [of sz] c by (auto simp: payload_def *)
    ultimately show ?thesis using False bs by (auto simp: * c)
  qed
qed

text \<open>Kept words are kept bytes.\<close>

lemma get32_byte:
  "ucast (get32 m a) = m a" "ucast (drop_bit 8 (get32 m a)) = m (a + 1)"
  "ucast (drop_bit 16 (get32 m a)) = m (a + 2)" "ucast (drop_bit 24 (get32 m a)) = m (a + 3)"
  by (rule bit_word_eqI; auto simp: get32_def bit_simps dest: bit_imp_le_length)+

lemma wd_bytes:
  assumes "wd m k = wd m' k" and "i < 4"
  shows "m (of_nat (4 * k + i)) = m' (of_nat (4 * k + i))"
proof -
  have "i \<in> {0, 1, 2, 3}" using assms(2) by auto
  then show ?thesis
    using get32_byte [of m "adr k"] get32_byte [of m' "adr k"] assms(1)
    by (auto simp: wd_def adr_def add.commute)
qed

lemma keeps_payloads_bytes:
  assumes "keeps_payloads bs m m'" and "x \<in> \<Union>(used bs)"
  shows "m' (of_nat x) = m (of_nat x)"
proof -
  obtain b where b: "b \<in> set bs" "\<not> bfree b" "4 * (baddr b + 5) \<le> x" "x < 4 * (baddr b + 5 + bsize b)"
    using assms(2) by (auto simp: used_def payload_def)
  let ?k = "x div 4"
  have "baddr b + 5 \<le> ?k" "?k < baddr b + 5 + bsize b" using b(3,4) by auto
  then have "wd m' ?k = wd m ?k" using assms(1) b(1,2) by (auto simp: keeps_payloads_def)
  from wd_bytes [OF this, of "x mod 4"] show ?thesis by simp
qed

section \<open>The interface of the allocator\<close>

text \<open>
  What the callers of \<open>kmalloc\<close> (the file system, \<open>malloc\<close> of the shell) rely on: an
  allocation returns; a result other than NULL owns a payload of the requested size, disjoint
  from every payload in use; and the bytes of the payloads in use stay. \<open>rep a s\<close> relates the
  state to an abstract one, \<open>owned a\<close> is the set of payloads in use.
\<close>

locale allocator =
  fixes alloc :: "u32 \<Rightarrow> 's \<Rightarrow> (u32 \<times> 's) option"
    and rep :: "'a \<Rightarrow> 's \<Rightarrow> bool"
    and owned :: "'a \<Rightarrow> nat set set"
    and content :: "'s \<Rightarrow> nat \<Rightarrow> u8"
  assumes alloc_ok: "rep a s \<Longrightarrow> unat sz < 2 ^ 31 \<Longrightarrow>
    \<exists>p s' a'. alloc sz s = Some (p, s') \<and> rep a' s'
      \<and> (p = 0 \<and> owned a' = owned a
         \<or> p \<noteq> 0 \<and> (\<exists>P. {unat p ..< unat p + unat sz} \<subseteq> P \<and> P \<inter> \<Union>(owned a) = {}
                      \<and> owned a' = insert P (owned a)))
      \<and> (\<forall>x \<in> \<Union>(owned a). content s' x = content s x)"

text \<open>A run of requests, as a caller makes them, and the byte ranges of the pointers it got.\<close>

fun alloc_all :: "(u32 \<Rightarrow> 's \<Rightarrow> (u32 \<times> 's) option) \<Rightarrow> u32 list \<Rightarrow> 's \<Rightarrow> ((u32 \<times> u32) list \<times> 's) option" where
  "alloc_all alloc [] s = Some ([], s)"
| "alloc_all alloc (sz # szs) s = do {
     (p, s) \<leftarrow> alloc sz s;
     (ps, s) \<leftarrow> alloc_all alloc szs s;
     Some ((p, sz) # ps, s) }"

definition region :: "u32 \<times> u32 \<Rightarrow> nat set" where
  "region = (\<lambda>(p, sz). if p = 0 then {} else {unat p ..< unat p + unat sz})"

context allocator
begin

lemma alloc_all_ok:
  assumes "rep a s" and "\<forall>sz \<in> set szs. unat sz < 2 ^ 31"
  shows "\<exists>ps s' a'. alloc_all alloc szs s = Some (ps, s') \<and> rep a' s' \<and> map snd ps = szs
    \<and> \<Union>(owned a) \<union> (\<Union>r \<in> set ps. region r) \<subseteq> \<Union>(owned a')
    \<and> (\<forall>r \<in> set ps. region r \<inter> \<Union>(owned a) = {})
    \<and> (\<forall>i < length ps. \<forall>j < length ps. i \<noteq> j \<longrightarrow> region (ps ! i) \<inter> region (ps ! j) = {})
    \<and> (\<forall>x \<in> \<Union>(owned a). content s' x = content s x)"
  using assms
proof (induction szs arbitrary: a s)
  case Nil
  then show ?case by auto
next
  case (Cons sz szs)
  obtain p s1 a1 where 1: "alloc sz s = Some (p, s1)" "rep a1 s1"
    and own: "p = 0 \<and> owned a1 = owned a
         \<or> p \<noteq> 0 \<and> (\<exists>P. {unat p ..< unat p + unat sz} \<subseteq> P \<and> P \<inter> \<Union>(owned a) = {}
                      \<and> owned a1 = insert P (owned a))"
    and keep: "\<forall>x \<in> \<Union>(owned a). content s1 x = content s x"
    using alloc_ok [OF Cons.prems(1), of sz] Cons.prems(2) by auto
  obtain ps s' a' where 2: "alloc_all alloc szs s1 = Some (ps, s')" "rep a' s'" "map snd ps = szs"
    "\<Union>(owned a1) \<union> (\<Union>r \<in> set ps. region r) \<subseteq> \<Union>(owned a')"
    "\<forall>r \<in> set ps. region r \<inter> \<Union>(owned a1) = {}"
    "\<forall>i < length ps. \<forall>j < length ps. i \<noteq> j \<longrightarrow> region (ps ! i) \<inter> region (ps ! j) = {}"
    "\<forall>x \<in> \<Union>(owned a1). content s' x = content s1 x"
    using Cons.IH [OF 1(2)] Cons.prems(2) by (metis list.set_intros(2))
  have new: "region (p, sz) \<subseteq> \<Union>(owned a1)" "region (p, sz) \<inter> \<Union>(owned a) = {}"
    "\<Union>(owned a) \<subseteq> \<Union>(owned a1)"
    using own by (auto simp: region_def)
  have apart: "region (p, sz) \<inter> region r = {}" if "r \<in> set ps" for r
    using 2(5) that new(1) by blast
  have dist: "region (((p, sz) # ps) ! i) \<inter> region (((p, sz) # ps) ! j) = {}"
    if "i < length ((p, sz) # ps)" "j < length ((p, sz) # ps)" "i \<noteq> j" for i j
    using that apart 2(6) by (cases i; cases j) (auto simp: Int_commute)
  have "alloc_all alloc (sz # szs) s = Some ((p, sz) # ps, s')" using 1(1) 2(1) by simp
  moreover have "\<forall>x \<in> \<Union>(owned a). content s' x = content s x" using keep 2(7) new(3) by auto
  moreover have "\<Union>(owned a) \<union> (\<Union>r \<in> set ((p, sz) # ps). region r) \<subseteq> \<Union>(owned a')"
    using 2(4) subset_trans [OF new(1)] subset_trans [OF new(3)] by simp
  moreover have "\<forall>r \<in> set ((p, sz) # ps). region r \<inter> \<Union>(owned a) = {}"
    using 2(5) new(2,3) by (metis disjoint_iff set_ConsD subsetD)
  ultimately show ?case using 2(2,3) dist
    by (intro exI [of _ "(p, sz) # ps"] exI [of _ s'] exI [of _ a']) auto
qed

end


definition heap_rep :: "block list \<times> nat \<Rightarrow> 'a heap_scheme \<Rightarrow> bool" where
  "heap_rep a s \<longleftrightarrow> heap_inv (fst a) s \<and> heap_end s = adr (snd a) \<and> snd a < 0x200000"

lemma heap_inv_end:
  assumes "heap_inv bs s"
  obtains e where "heap_end s = adr e" "e < 0x200000" "0x100000 \<le> e" "chained bs e"
  using assms by (auto simp: heap_inv_def)

lemma kmalloc_fresh_payload:
  assumes rep: "heap_rep a s" and sz: "unat sz < 2 ^ 31"
  shows "\<exists>p s' a'. kmalloc sz s = Some (p, s') \<and> heap_rep a' s'
    \<and> (p = 0 \<and> used (fst a') = used (fst a)
       \<or> p \<noteq> 0 \<and> (\<exists>P. {unat p ..< unat p + unat sz} \<subseteq> P \<and> P \<inter> \<Union>(used (fst a)) = {}
                    \<and> used (fst a') = insert P (used (fst a))))
    \<and> (\<forall>x \<in> \<Union>(used (fst a)). ram s' (of_nat x) = ram s (of_nat x))"
proof -
  obtain bs e where a: "a = (bs, e)" by (cases a)
  have inv: "heap_inv bs s" "heap_end s = adr e" "e < 0x200000"
    using rep by (auto simp: heap_rep_def a)
  have e2: "e < 0x40000000" using inv(3) by simp
  note inv' = heap_invE [OF inv(1,2) e2]
  obtain r bs' e' where r: "abs_kmalloc sz bs e = (r, bs', e')" by (cases "abs_kmalloc sz bs e")
  obtain s' where s': "kmalloc sz s = Some (adr r, s')" "heap_inv bs' s'" "heap_end s' = adr e'"
    "keeps_payloads bs (ram s) (ram s')"
    using kmalloc_refines_abs [OF inv sz r] by blast
  obtain e2 where e2: "heap_end s' = adr e2" "e2 < 0x200000" "chained bs' e2"
    using heap_inv_end [OF s'(2)] by metis
  have e': "e' < 0x200000"
    using r inv(3) by (auto simp: abs_kmalloc_def abs_alloc_def Let_def split: if_splits option.splits)
  have res: "adr r = 0 \<and> used bs' = used bs \<or> adr r \<noteq> 0 \<and> (\<exists>P. {unat (adr r) ..< unat (adr r) + unat sz} \<subseteq> P
      \<and> P \<inter> \<Union>(used bs) = {} \<and> used bs' = insert P (used bs))"
  proof (cases "r = 0")
    case True
    then show ?thesis using abs_kmalloc_used [OF r inv'(1,3)] by (simp add: adr_def)
  next
    case False
    then obtain P where P: "{4 * r ..< 4 * r + unat sz} \<subseteq> P" "used bs' = insert P (used bs)"
      "P \<inter> \<Union>(used bs) = {}"
      using abs_kmalloc_used [OF r inv'(1,3)] by blast
    have "sz \<noteq> 0" using r False by (auto simp: abs_kmalloc_def)
    then have "4 * r \<in> P" using P(1) by (auto simp: word_unat_eq_iff)
    then have "4 * r < 4 * e2" using used_bounds(2) [OF e2(3), of P] P(2) by blast
    then have "unat (adr r) = 4 * r" "adr r \<noteq> 0" using e2(2) False by (simp_all add: addr_simps)
    with P show ?thesis by (auto simp: Int_commute)
  qed
  have "\<forall>x \<in> \<Union>(used bs). ram s' (of_nat x) = ram s (of_nat x)"
    using keeps_payloads_bytes [OF s'(4)] by blast
  moreover have "heap_rep (bs', e') s'" using s' e' by (simp add: heap_rep_def)
  ultimately show ?thesis using s'(1) res unfolding a
    by (intro exI [of _ "adr r"] exI [of _ s'] exI [of _ "(bs', e')"]) simp
qed

interpretation kheap: allocator kmalloc heap_rep "\<lambda>a. used (fst a)" "\<lambda>s x. ram s (of_nat x)"
  by unfold_locales (rule kmalloc_fresh_payload)

section \<open>\<open>heap_validate\<close> and \<open>heap_dump\<close> on a well-formed heap\<close>

abbreviation blk :: "block list \<Rightarrow> nat \<Rightarrow> nat" where
  "blk bs i \<equiv> first (drop i bs) 0"

lemma node_facts:
  assumes "hlist m bs e" and "i < length bs"
  shows "blk bs i = baddr (bs ! i)" "0x100000 \<le> blk bs i" "blk bs i + 5 < 0x200000"
    "ld32 m (adr (blk bs i) + 12) = Some (adr (blk bs (i + 1)))" "adr (blk bs i) \<noteq> 0"
    "hlist m (take i bs @ bs ! i # drop (i + 1) bs) e"
proof -
  have bs: "bs = take i bs @ bs ! i # drop (i + 1) bs" using assms(2) by (simp add: id_take_nth_drop)
  show h: "hlist m (take i bs @ bs ! i # drop (i + 1) bs) e" using assms(1) bs by simp
  note hb = hlistE [OF h]
  have d: "drop i bs = bs ! i # drop (i + 1) bs" using assms(2) by (simp add: Cons_nth_drop_Suc)
  show n: "blk bs i = baddr (bs ! i)" by (simp add: d)
  show "0x100000 \<le> blk bs i" "blk bs i + 5 < 0x200000" "adr (blk bs i) \<noteq> 0"
    "ld32 m (adr (blk bs i) + 12) = Some (adr (blk bs (i + 1)))"
    using hb(3,4,6-8,13) unfolding n by (simp_all add: addr_simps mem_simps)
qed

lemma node_less:
  assumes "hlist m bs e" and "i < j" and "j < length bs"
  shows "blk bs i < blk bs j"
proof -
  have i: "i < length bs" using assms(2,3) by simp
  note hb = hlistE [OF node_facts(6) [OF assms(1) i]]
  have "bs ! j \<in> set (drop (i + 1) bs)"
    using assms(2,3) by (auto simp: in_set_conv_nth intro!: exI [of _ "j - Suc i"])
  then show ?thesis
    using after_block(1) [OF hb(2)] hb(6) node_facts(1) [OF assms(1) i] node_facts(1) [OF assms(1,3)]
    by fastforce
qed

lemma heap_cycle_linked:
  assumes h: "hlist m bs e" and "0 < length bs - 2 * i \<longrightarrow> 2 * i < length bs"
  shows "heap_cycle m (adr (blk bs i)) (adr (blk bs (2 * i))) = Some False"
proof (induction "length bs - 2 * i" arbitrary: i rule: less_induct)
  case less
  show ?case
  proof (cases "2 * i < length bs")
    case False
    then show ?thesis by (subst heap_cycle.simps) (simp add: adr_def)
  next
    case True
    note f = node_facts [OF h True]
    show ?thesis
    proof (cases "2 * i + 1 < length bs")
      case False
      then have "adr (blk bs (2 * i + 1)) = 0" by (simp add: adr_def)
      with f show ?thesis by (subst heap_cycle.simps) simp
    next
      case ok: True
      note g = node_facts [OF h ok]
      have i: "i < length bs" "i + 1 < length bs" using ok by auto
      note k = node_facts [OF h i(1)] and k' = node_facts [OF h i(2)]
      have "adr (blk bs (i + 1)) \<noteq> adr (blk bs (2 * i + 1 + 1))"
      proof (cases "2 * i + 2 < length bs")
        case True
        then have "blk bs (i + 1) < blk bs (2 * i + 1 + 1)"
          using node_less [OF h, of "i + 1" "2 * i + 1 + 1"] by simp
        then show ?thesis using k'(3) node_facts(3) [OF h True] by (simp add: addr_simps)
      next
        case False
        then have "blk bs (2 * i + 1 + 1) = 0" by simp
        then show ?thesis using k'(5) by (simp add: adr_def)
      qed
      moreover have "heap_cycle m (adr (blk bs (i + 1))) (adr (blk bs (2 * (i + 1)))) = Some False"
        using True by (intro less) simp
      ultimately show ?thesis
        using f(4,5) g(4,5) k(4) by (subst heap_cycle.simps) simp
    qed
  qed
qed

lemma heap_check_linked:
  assumes "hlist (ram s) (xs @ ys) e" and "heap_start s = adr 0x100000" and "heap_end s = adr e"
  shows "heap_check s (adr (first ys 0)) = Some (lit ''Heap structure valid.\<newline>'')"
  using assms(1)
proof (induction ys arbitrary: xs)
  case Nil
  then show ?case by (subst heap_check.simps) (simp add: adr_def)
next
  case (Cons b ys)
  note hb = hlistE [OF Cons.prems]
  have ih: "heap_check s (adr (first ys 0)) = Some (lit ''Heap structure valid.\<newline>'')"
    using Cons.IH [of "xs @ [b]"] Cons.prems by simp
  have bk: "(if adr (first ys 0) \<noteq> 0 then ld32 (ram s) (adr (first ys 0) + 16) else Some (adr (baddr b)))
      = Some (adr (baddr b))"
  proof (cases ys)
    case Nil
    then show ?thesis by (simp add: adr_def)
  next
    case (Cons y ys')
    have "0x100000 \<le> baddr y" "baddr y + 5 < 0x200000" "wd (ram s) (baddr y + 4) = adr (baddr b)"
      using hb(2,7,8,15) Cons chained_in [OF hb(2), of y] by auto
    with Cons show ?thesis by (simp add: addr_simps mem_simps)
  qed
  have ld: "ld32 (ram s) (adr (baddr b)) = Some HEAP_MAGIC"
    "ld32 (ram s) (adr (baddr b) + 4) = Some (adr (bsize b))"
    "ld32 (ram s) (adr (baddr b) + 12) = Some (adr (first ys 0))"
    using hb(3,4,6-8,10,11,13) by (simp_all add: addr_simps mem_simps)
  have range: "adr (baddr b) \<noteq> 0" "heap_end s < adr (baddr b) + HDR + adr (bsize b) \<longleftrightarrow> False"
    "adr (baddr b) < heap_start s \<longleftrightarrow> False" "heap_end s \<le> adr (baddr b) \<longleftrightarrow> False"
    using hb(3,4,6-8) assms(2,3) by (simp_all add: addr_simps adr_numeral(3))
  show ?case
    using ih unfolding first_simps by (subst heap_check.simps) (simp only: ld range bk if_False if_True
      Option.bind.simps not_True_eq_False simp_thms)
qed

lemma heap_validate_inv:
  assumes "heap_inv bs s"
  shows "heap_validate s = Some (vga_print (lit ''Heap structure valid.\<newline>'') s)"
proof -
  obtain e where e: "heap_end s = adr e" "e < 0x40000000"
    by (rule heap_inv_end [OF assms]) auto
  note inv' = heap_invE [OF assms e] and h = heap_inv_hlist [OF assms e]
  show ?thesis
    using heap_cycle_linked [OF h, of 0] heap_check_linked [of s "[]" bs e] h inv'(4,5) e(1)
    by (simp add: heap_validate_def)
qed

fun dump_lines :: "u32 \<Rightarrow> block list \<Rightarrow> 'a heap_scheme \<Rightarrow> 'a heap_scheme" where
  "dump_lines i [] s = s"
| "dump_lines i (b # bs) s =
     dump_lines (i + 1) bs (heap_dump_line i (adr (baddr b)) (adr (bsize b)) (bfree b) s)"

lemma screen_step_heap:
  fixes s t :: "'a heap_scheme"
  assumes "screen_step s t"
  shows "ram t = ram s" "heap_start t = heap_start s" "heap_end t = heap_end s" "heap_head t = heap_head s"
  using assms by (auto elim!: screen_stepE)

lemma screen_step_dump_line: "screen_step s (heap_dump_line i a sz f s)"
  unfolding heap_dump_line_def Let_def
  by (intro screen_step_refl screen_step_trans [OF _ screen_step_print]
    screen_step_trans [OF _ screen_step_print_hex] screen_step_trans [OF _ screen_step_print_dec])

lemma heap_dump_linked:
  assumes "hlist (ram s) (xs @ ys) e"
  shows "heap_dump_loop i (adr (first ys 0)) s = Some (dump_lines i ys s)"
  using assms
proof (induction ys arbitrary: xs i s)
  case Nil
  then show ?case by (subst heap_dump_loop.simps) (simp add: adr_def)
next
  case (Cons b ys)
  note hb = hlistE [OF Cons.prems]
  let ?t = "heap_dump_line i (adr (baddr b)) (adr (bsize b)) (bfree b) s"
  have ram: "ram ?t = ram s" using screen_step_heap(1) [OF screen_step_dump_line] .
  have "heap_dump_loop (i + 1) (adr (first ys 0)) ?t = Some (dump_lines (i + 1) ys ?t)"
    using Cons.IH [of ?t "xs @ [b]"] Cons.prems ram by simp
  moreover have "adr (baddr b) \<noteq> 0" using hb(3,6-8) by (simp add: addr_simps)
  ultimately show ?case
    using hb(3,4,6-8,11-13) ram
    by (subst heap_dump_loop.simps)
      (simp add: addr_simps mem_simps Let_def del: One_nat_def add_2_eq_Suc')
qed

section \<open>The release of the end of the heap\<close>

text \<open>
  Releasing the last block when it is not the only one moves \<open>heap_end\<close> down to it but leaves
  it on the list, marked free.
\<close>

lemma kfree_last:
  assumes inv: "heap_inv (xs @ [b]) s" and e: "heap_end s = adr e" "e < 0x40000000"
    and xs: "xs \<noteq> []" "\<forall>x \<in> set xs. \<not> bfree x" and b: "\<not> bfree b"
  shows "\<exists>m. kfree (adr (baddr b + 5)) s = Some (s\<lparr>ram := m, heap_end := adr (baddr b)\<rparr>)
           \<and> hlist m (xs @ [Block (baddr b) (bsize b) True]) e"
proof -
  note inv' = heap_invE [OF inv e] and h = heap_inv_hlist [OF inv e]
  let ?m = "put32 (adr (baddr b + 2)) 1 (ram s)" and ?b = "Block (baddr b) (bsize b) True"
  have h1: "hlist ?m (xs @ [?b]) e" using mark_hlist(1) [OF h, of 1 True] by simp
  have m0: "st32 (adr (baddr b) + 8) 1 (ram s) = Some ?m"
    using hlistE [OF h] by (simp add: addr_simps mem_simps del: One_nat_def add_2_eq_Suc')
  have "merge_next (adr (baddr b)) s ?m = Some ?m" "merge_prev (adr (baddr b)) s ?m = Some ?m"
    using merge_next_none [OF h1 inv'(4) e(1)] merge_prev_none [OF h1 inv'(4) e(1)] xs by auto
  moreover have "release_end (s\<lparr>ram := ?m\<rparr>) = Some (s\<lparr>ram := ?m, heap_end := adr (baddr b)\<rparr>)"
  proof -
    have "heap_head (s\<lparr>ram := ?m\<rparr>) = adr (first (xs @ [?b]) 0)"
      using inv'(5) by (simp add: first_append)
    moreover have "length (xs @ [?b]) \<noteq> 1" using xs(1) by simp
    ultimately show ?thesis
      using release_end_eq [of "s\<lparr>ram := ?m\<rparr>" "xs @ [?b]" e] h1 by simp
  qed
  moreover have "kfree (adr (baddr b + 5)) s = kfree_block (adr (baddr b)) s"
    using kfree_checks_pass [OF h inv'(4) e(1)] b by simp
  ultimately have "kfree (adr (baddr b + 5)) s = Some (s\<lparr>ram := ?m, heap_end := adr (baddr b)\<rparr>)"
    by (simp only: kfree_block_def m0 Option.bind.simps)
  with h1 show ?thesis by blast
qed

section \<open>Two ways in which the heap goes wrong\<close>

lemma kmalloc_search:
  assumes h: "hlist (ram s) bs e1" "bs \<noteq> []" "heap_head s = adr (first bs 0)"
    and e: "heap_end s = adr e" "0x100000 \<le> e" "e + words_of sz + 6 \<le> 0x200000"
    and sz: "0 < unat sz" "unat sz < 2 ^ 31"
  shows "kmalloc sz s = (case find_fit (words_of sz) bs of
      Some (xs, b, ys) \<Rightarrow> kmalloc_take (adr (words_of sz)) (adr (baddr b)) s
    | None \<Rightarrow> kmalloc_append (adr (words_of sz)) (adr (final 0 bs)) s)"
proof -
  let ?n = "words_of sz"
  have n: "?n \<le> 0x20000000" using sz by (auto simp: words_of_def)
  have e2: "e < 0x200000" using e(3) by simp
  have h': "chained bs e1" "e1 < 0x200000" "linked (ram s) 0 bs 0" using h(1) by (auto simp: hlist_def)
  have al: "(sz + 7) AND NOT 7 = adr ?n" "\<not> (sz + 7) AND NOT 7 < sz"
    using align_ok [of sz] sz by auto
  have room: "\<not> KERNEL_HEAP_END - heap_end s - HDR - TAIL < adr ?n"
    using room_check [OF e(2) e2 n] e(3) unfolding e(1) adr_numeral(2-4) by auto
  have hd: "heap_head s \<noteq> 0"
    using h(2,3) h'(1,2) by (cases bs) (auto simp: addr_simps dest: chained_le)
  have s1: "heap_search (adr ?n) (ram s) (heap_head s) =
      Some (case find_fit ?n bs of Some (xs, b, ys) \<Rightarrow> Fit (adr (baddr b))
            | None \<Rightarrow> Last (adr (final 0 bs)))"
    using heap_search_linked [OF h'(3,1,2) h(2)] n h(3) by simp
  have "sz \<noteq> 0" using sz(1) by auto
  then show ?thesis
    using al(2) room hd s1 unfolding kmalloc_def Let_def al(1)
    by (auto split: option.splits)
qed

lemma find_fit_used: "\<forall>x \<in> set xs. \<not> bfree x \<Longrightarrow>
    find_fit n (xs @ ys) = map_option (\<lambda>(as, b, bs). (xs @ as, b, bs)) (find_fit n ys)"
  by (induction xs) (auto simp: option.map_comp o_def split_def option.map_ident)

text \<open>After the last block is freed, two requests of its size get the same pointer.\<close>

lemma double_allocation:
  assumes inv: "heap_inv (xs @ [b]) s" and e: "heap_end s = adr e" "e < 0x40000000"
    and xs: "xs \<noteq> []" "\<forall>x \<in> set xs. \<not> bfree x" and b: "\<not> bfree b"
    and room: "baddr b + 6 + bsize b < 0x200000"
    and sz: "words_of sz = bsize b"
  shows "\<exists>s1 s2 s3. kfree (adr (baddr b + 5)) s = Some s1
     \<and> kmalloc sz s1 = Some (adr (baddr b + 5), s2) \<and> kmalloc sz s2 = Some (adr (baddr b + 5), s3)"
proof -
  note inv' = heap_invE [OF inv e]
  let ?bf = "Block (baddr b) (bsize b) True" and ?bu = "Block (baddr b) (bsize b) False"
  obtain m where m: "kfree (adr (baddr b + 5)) s = Some (s\<lparr>ram := m, heap_end := adr (baddr b)\<rparr>)"
    "hlist m (xs @ [?bf]) e"
    using kfree_last [OF inv e xs b] by blast
  let ?s1 = "s\<lparr>ram := m, heap_end := adr (baddr b)\<rparr>"
  note hb = hlistE [OF m(2)]
  have hd: "heap_head s = adr (first (xs @ [?bf]) 0)" "heap_head s = adr (first (xs @ [?bu]) 0)"
    using inv'(5) by (simp_all add: first_append)
  have "words_of sz \<noteq> 0" "words_of sz < 0x200000" using hb(4,6-8) sz by auto
  then have usz: "0 < unat sz" "unat sz < 2 ^ 31" by (auto simp: words_of_def intro: Suc_leI)
  have k1: "kmalloc sz ?s1 = kmalloc_take (adr (bsize b)) (adr (baddr b)) ?s1"
    using kmalloc_search [of ?s1 "xs @ [?bf]" e "baddr b" sz] m(2) hd(1) hb(3) room usz sz xs(2)
    by (simp add: find_fit_used)
  let ?m2 = "put32 (adr (baddr b + 2)) 0 m"
  let ?s2 = "s\<lparr>ram := ?m2, heap_end := adr (baddr b)\<rparr>"
  have "adr (bsize b) + 20 + 4 + 8 = adr (bsize b + 8)" by (simp add: adr_def)
  then have k2: "kmalloc_take (adr (bsize b)) (adr (baddr b)) ?s1 = Some (adr (baddr b + 5), ?s2)"
    using hb(3,4,6-8,11) unfolding kmalloc_take_def
    by (simp add: addr_simps mem_simps del: One_nat_def add_2_eq_Suc')
  have h2: "hlist ?m2 (xs @ [?bu]) e" using mark_hlist(1) [OF m(2), of 0 False] by simp
  have none: "find_fit (bsize b) (xs @ [?bu]) = None" using xs(2) by (simp add: find_fit_used)
  have k3: "kmalloc sz ?s2 = kmalloc_append (adr (bsize b)) (adr (baddr b)) ?s2"
    using kmalloc_search [of ?s2 "xs @ [?bu]" e "baddr b" sz] h2 hd(2) hb(3) room usz sz none by simp
  have "\<exists>s3. kmalloc_append (adr (bsize b)) (adr (baddr b)) ?s2 = Some (adr (baddr b + 5), s3)"
    using hb(3,4,6-8) room unfolding kmalloc_append_def
    by (simp add: addr_simps mem_simps adr_numeral(1-5) Let_def init_block_adr
        del: One_nat_def add_2_eq_Suc')
  with m(1) k1 k2 k3 show ?thesis by auto
qed

text \<open>Joining two blocks that a split left without room runs over the header behind them.\<close>

lemma merge_overrun:
  assumes inv: "heap_inv (a # b # c # ys) s" and e: "heap_end s = adr e" "e < 0x40000000"
    and free: "bfree a" "\<not> bfree b" "\<not> bfree c" "\<not> bfree (last (c # ys))"
    and gap: "baddr b = baddr a + 5 + bsize a" "baddr c = baddr b + 5 + bsize b"
  shows "\<exists>s'. kfree (adr (baddr b + 5)) s = Some s' \<and> wd (ram s') (baddr c + 1) = HEAP_MAGIC"
proof -
  note inv' = heap_invE [OF inv e] and h = heap_inv_hlist [OF inv e]
  have f: "0x100000 \<le> baddr a" "0 < bsize a" "0 < bsize b" "0 < bsize c" "baddr c + 5 + bsize c \<le> first ys e"
    "first ys e \<le> e" "e < 0x200000"
    "wd (ram s) (baddr a + 1) = adr (bsize a)" "wd (ram s) (baddr a + 2) \<noteq> 0"
    "wd (ram s) (baddr a + 3) = adr (baddr b)"
    "wd (ram s) (baddr b + 1) = adr (bsize b)" "wd (ram s) (baddr b + 3) = adr (baddr c)"
    "wd (ram s) (baddr b + 4) = adr (baddr a)"
    "wd (ram s) (baddr c + 2) = 0" "heap_head s = adr (baddr a)"
    using inv' free chained_le [of ys e] by (auto simp: adr_def)
  define m0 where "m0 = put32 (adr (baddr b + 2)) 1 (ram s)"
  define m1 where "m1 = put32 (adr (baddr c + 4)) (adr (baddr a)) (put32 (adr (baddr a + 3)) (adr (baddr c))
      (put32 (adr (baddr c + 1)) HEAP_MAGIC (put32 (adr (baddr a + 1)) (adr (bsize a + 6 + bsize b)) m0)))"
  have "kfree (adr (baddr b + 5)) s = kfree_block (adr (baddr b)) s"
    using kfree_checks_pass [of s "[a]" b "c # ys" e] h inv'(4) e(1) free(2) by simp
  moreover have "st32 (adr (baddr b) + 8) 1 (ram s) = Some m0"
    using f gap by (simp add: m0_def addr_simps mem_simps)
  moreover have "merge_next (adr (baddr b)) s m0 = Some m0"
    using f gap e inv'(4) unfolding merge_next_def m0_def
    by (simp add: addr_simps mem_simps in_heap_adr del: One_nat_def add_2_eq_Suc')
  moreover have "merge_prev (adr (baddr b)) s m0 = Some m1"
  proof -
    have z: "bsize a + (5 + bsize b + 1) = bsize a + 6 + bsize b"
      "baddr a + 5 + (bsize a + 6 + bsize b) = baddr c + 1" using gap by auto
    show ?thesis
      using f gap e inv'(4) unfolding merge_prev_def m0_def m1_def
      by (simp add: addr_simps mem_simps in_heap_adr adr_numeral(3,4) z del: One_nat_def add_2_eq_Suc')
        (simp add: ac_simps)
  qed
  moreover have "release_end (s\<lparr>ram := m1\<rparr>) = Some (s\<lparr>ram := m1\<rparr>)"
  proof -
    have cys: "linked (ram s) (baddr b) (c # ys) 0" "chained (c # ys) e" using inv'(1,6) by auto
    have same: "wd m1 (baddr x + k) = wd (ram s) (baddr x + k)" if "x \<in> set (c # ys)" "k = 2 \<or> k = 3" for x k
    proof -
      have "baddr c \<le> baddr x" "baddr x + 5 + bsize x \<le> e" "x = c \<or> baddr c + 5 \<le> baddr x"
        using chained_in [OF cys(2) that(1)] that(1) after_block [of ys e x] cys(2) by auto
      then show ?thesis using f gap that(2)
        by (auto simp: m1_def m0_def wd_put32 simp del: One_nat_def add_2_eq_Suc')
    qed
    define l where "l = last (c # ys)"
    have l: "l \<in> set (c # ys)" by (simp add: l_def)
    have "linked (ram s) 0 ([a, b] @ c # ys) 0" using inv'(6) by simp
    have lfree: "wd (ram s) (baddr l + 2) = 0"
    proof -
      obtain zs where "a # b # c # ys = zs @ [l]"
        using l_def by (metis append_butlast_last_id last_ConsR list.distinct(1))
      then show ?thesis using hlistE(12) [of "ram s" zs l "[]" e] h free(4) by (simp add: l_def)
    qed
    have bounds: "0x100000 \<le> baddr l" "baddr l + 5 < 0x200000"
      using chained_in [OF cys(2) l] f by auto
    have "last_block m1 (adr (first (c # ys) 0)) = Some (adr (final 0 (c # ys)))"
      by (rule last_block_next [OF cys f(7)]) (use same in auto)
    then have lst: "last_block m1 (adr (baddr a)) = Some (adr (baddr l))"
      using f gap by (subst last_block.simps)
        (simp add: m1_def m0_def addr_simps mem_simps final_def l_def del: One_nat_def add_2_eq_Suc')
    have "wd m1 (baddr l + 2) = 0" using same [OF l, of 2] lfree by simp
    then have "ld32 m1 (adr (baddr l) + 8) = Some 0"
      using bounds by (simp add: addr_simps mem_simps del: One_nat_def add_2_eq_Suc')
    moreover have "ld32 m1 (adr (baddr a) + 8) = Some (wd (ram s) (baddr a + 2))"
      "ld32 m1 (adr (baddr a) + 12) = Some (adr (baddr c))"
      using f gap by (simp_all add: m1_def m0_def addr_simps mem_simps del: One_nat_def add_2_eq_Suc')
    moreover have "adr (baddr a) \<noteq> 0" "adr (baddr c) \<noteq> 0" using f gap by (simp_all add: addr_simps)
    ultimately show ?thesis
      using f(9,15) lst unfolding release_end_def by simp
  qed
  ultimately have "kfree (adr (baddr b + 5)) s = Some (s\<lparr>ram := m1\<rparr>)" by (simp add: kfree_block_def)
  moreover have "wd m1 (baddr c + 1) = HEAP_MAGIC"
    using f gap by (simp add: m1_def wd_put32 del: One_nat_def add_2_eq_Suc')
  ultimately show ?thesis by simp
qed

end
