(* ===== verification/HeapProps.thy ===== *)
theory HeapProps
  imports HeapUse
begin

text \<open>The properties of \<open>mm/heap.c\<close>, on the lemmas of the heap theories.\<close>

section \<open>Concrete heaps\<close>

text \<open>A block list written into a memory, and the kernel state with that heap.\<close>

fun lay :: "nat \<Rightarrow> block list \<Rightarrow> mem \<Rightarrow> mem" where
  "lay pv [] m = m"
| "lay pv (b # bs) m =
     put32 (adr (baddr b + 5 + bsize b)) HEAP_MAGIC (put32 (adr (baddr b + 4)) (adr pv)
       (put32 (adr (baddr b + 3)) (adr (first bs 0))
         (put32 (adr (baddr b + 2)) (if bfree b then 1 else 0)
           (put32 (adr (baddr b + 1)) (adr (bsize b)) (put32 (adr (baddr b)) HEAP_MAGIC
             (lay (baddr b) bs m))))))"

definition heap_of :: "block list \<Rightarrow> nat \<Rightarrow> heap" where
  "heap_of bs e = power_on\<lparr>ram := lay 0 bs (\<lambda>_. 0), heap_start := KERNEL_HEAP_START,
     heap_end := adr e, heap_head := adr (first bs 0)\<rparr>"

text \<open>Two allocations of 16 bytes each: the second block carries its tail word.\<close>

abbreviation block1 :: block where "block1 \<equiv> Block 0x100000 4 False"
abbreviation block2 :: block where "block2 \<equiv> Block 0x100009 4 False"

lemma heap_of_inv:
  "heap_inv [] (heap_of [] 0x100000)"
  "heap_inv [block1] (heap_of [block1] 0x100009)"
  "heap_inv [block1, block2] (heap_of [block1, block2] 0x100013)"
  "heap_inv [Block 0x100000 4 True, block2] (heap_of [Block 0x100000 4 True, block2] 0x100013)"
  by (rule heap_invI [where e = "0x100000"] heap_invI [where e = "0x100009"]
      heap_invI [where e = "0x100013"];
      simp add: heap_of_def wd_put32 adr_numeral(1) del: One_nat_def add_2_eq_Suc'; simp add: adr_def)+

lemma heap_of_end [simp]: "heap_end (heap_of bs e) = adr e"
  by (simp add: heap_of_def)

section \<open>Allocation\<close>

text \<open>C3: \<open>kmalloc\<close> returns for every request below 2 GB on every well-formed heap, with exactly
  the pointer, block list and end of heap of the abstract first-fit allocator (rounding to
  eight, splitting, appending, NULL when there is no room), and leaves the payload of every block
  in use as it was.\<close>

theorem kmalloc_correct:
  assumes "heap_inv bs s" and "heap_end s = adr e" and "e < 0x200000" and "unat sz < 2 ^ 31"
    and "abs_kmalloc sz bs e = (r, bs', e')"
  shows "\<exists>s'. kmalloc sz s = Some (adr r, s') \<and> heap_inv bs' s' \<and> heap_end s' = adr e'
           \<and> keeps_payloads bs (ram s) (ram s')"
  using assms by (rule kmalloc_refines_abs)

theorem kmalloc_correct_witness:
  "\<exists>s'. kmalloc 10 (heap_of [block1] 0x100009) = Some (adr 0x10000E, s')
     \<and> heap_inv [block1, Block 0x100009 4 False] s' \<and> heap_end s' = adr 0x100013"
  using kmalloc_correct [OF heap_of_inv(2), of "0x100009" 10 "0x10000E" "[block1, Block 0x100009 4 False]" "0x100013"]
  by (auto simp: abs_kmalloc_def abs_alloc_def words_of_def)

text \<open>C5: any run of \<open>kmalloc\<close> calls, each for less than 2 GB, returns; the byte ranges of the pointers it yields are
  pairwise disjoint and disjoint from every payload that was in use before, and the contents of
  those payloads are unchanged. (A larger request can pass the check of the room left, which wraps around; see
  \<open>kmalloc_huge_wraps\<close>.)\<close>

theorem kmalloc_run_disjoint:
  assumes "heap_rep a s" and "\<forall>sz \<in> set szs. unat sz < 2 ^ 31"
  shows "\<exists>ps s' a'. alloc_all kmalloc szs s = Some (ps, s') \<and> heap_rep a' s' \<and> map snd ps = szs
    \<and> \<Union>(used (fst a)) \<union> (\<Union>r \<in> set ps. region r) \<subseteq> \<Union>(used (fst a'))
    \<and> (\<forall>r \<in> set ps. region r \<inter> \<Union>(used (fst a)) = {})
    \<and> (\<forall>i < length ps. \<forall>j < length ps. i \<noteq> j \<longrightarrow> region (ps ! i) \<inter> region (ps ! j) = {})
    \<and> (\<forall>x \<in> \<Union>(used (fst a)). ram s' (of_nat x) = ram s (of_nat x))"
  by (rule kheap.alloc_all_ok [OF assms])

theorem kmalloc_run_disjoint_witness:
  "\<exists>ps s'. alloc_all kmalloc [8, 100, 8] (heap_of [block1] 0x100009) = Some (ps, s')
     \<and> region (ps ! 0) \<inter> region (ps ! 1) = {} \<and> region (ps ! 0) \<inter> region (ps ! 2) = {}"
proof -
  have rep: "heap_rep ([block1], 0x100009) (heap_of [block1] 0x100009)"
    using heap_of_inv(2) by (simp add: heap_rep_def)
  obtain ps s' where *: "alloc_all kmalloc [8, 100, 8] (heap_of [block1] 0x100009) = Some (ps, s')"
    "map snd ps = [8, 100, 8]"
    "\<forall>i < length ps. \<forall>j < length ps. i \<noteq> j \<longrightarrow> region (ps ! i) \<inter> region (ps ! j) = {}"
    using kmalloc_run_disjoint [OF rep, of "[8, 100, 8]"] by auto
  have "length ps = 3" using arg_cong [OF *(2), of length] by simp
  with * show ?thesis by auto
qed

section \<open>Freeing\<close>

text \<open>C4: freeing any block in use, as long as the joins with its free neighbours stay inside the room of the joined
  blocks (\<open>safe_free\<close>; \<open>kfree_join_overruns_header\<close> is what happens otherwise), returns, gives exactly the abstract block
  list (marked, joined with both neighbours) and keeps every other payload. When that leaves a single block, the heap is
  reset; when the last block is in use, the heap is well formed with its old end; and when the last of several blocks
  is free, the list is intact but the end of the heap has moved down to that block, which stays linked (the defect behind
  \<open>kfree_last_double_allocation\<close>).\<close>

theorem kfree_correct:
  assumes "heap_inv (xs @ b # ys) s" and "heap_end s = adr e" and "e < 0x40000000"
    and "\<not> bfree b" and "safe_free xs b ys e" and "bs = abs_free xs b ys"
  shows "\<exists>s'. kfree (adr (baddr b + 5)) s = Some s' \<and> keeps_payloads (xs @ ys) (ram s) (ram s')
           \<and> (if length bs = 1 then heap_inv [] s' \<and> heap_end s' = adr 0x100000
              else if bfree (last bs) then heap_inv bs (s'\<lparr>heap_end := adr e\<rparr>) \<and> heap_end s' = adr (baddr (last bs))
              else heap_inv bs s' \<and> heap_end s' = adr e)"
  unfolding assms(6) using assms(1-5) by (rule kfree_runs)

theorem kfree_correct_witness:
  "\<exists>s'. kfree (adr 0x100005) (heap_of [block1, block2] 0x100013) = Some s'
     \<and> heap_inv [Block 0x100000 4 True, block2] s' \<and> heap_end s' = adr 0x100013"
proof -
  have s: "safe_free [] block1 [block2] 0x100013" "[Block 0x100000 4 True, block2] = abs_free [] block1 [block2]"
    by (simp_all add: abs_free_def abs_merge_next_def abs_merge_prev_def safe_free_def)
  have inv: "heap_inv ([] @ block1 # [block2]) (heap_of [block1, block2] 0x100013)" using heap_of_inv(3) by simp
  have "heap_end (heap_of [block1, block2] 0x100013) = adr 0x100013" by (simp add: heap_of_def)
  from kfree_correct [OF inv this _ _ s] show ?thesis by fastforce
qed

text \<open>C9: in a heap that was never split, freeing any block in use returns, its joins never leave their room, and the block
  list is again never split. The heap is well formed afterwards when its last block stays in use or it was the only
  one; otherwise it is so but for its end, which has moved down to the last block (as in C4).\<close>

theorem kfree_never_split:
  assumes "heap_inv (xs @ b # ys) s" and "heap_end s = adr e" and "e < 0x40000000"
    and "\<not> bfree b" and "spaced 0 (xs @ b # ys) e"
  shows "\<exists>s' bs' e'. kfree (adr (baddr b + 5)) s = Some s' \<and> spaced 0 bs' e' \<and> heap_inv bs' (s'\<lparr>heap_end := adr e'\<rparr>)
           \<and> (if bs' \<noteq> [] \<and> bfree (last bs') then heap_end s' = adr (baddr (last bs')) else heap_end s' = adr e')"
proof -
  have ch: "chained (xs @ b # ys) e" using heap_invE(1) [OF assms(1-3)] .
  note sp = spaced_free [OF assms(5) ch]
  obtain s' where s': "kfree (adr (baddr b + 5)) s = Some s'"
    "if length (abs_free xs b ys) = 1 then heap_inv [] s' \<and> heap_end s' = adr 0x100000
     else if bfree (last (abs_free xs b ys)) then heap_inv (abs_free xs b ys) (s'\<lparr>heap_end := adr e\<rparr>)
       \<and> heap_end s' = adr (baddr (last (abs_free xs b ys)))
     else heap_inv (abs_free xs b ys) s' \<and> heap_end s' = adr e"
    using kfree_runs [OF assms(1-4) sp(1)] by blast
  have same: "s'\<lparr>heap_end := d\<rparr> = s'" if "heap_end s' = d" for d using that by (cases s') simp
  have ne: "abs_free xs b ys \<noteq> []" by (auto simp: abs_free_def split: prod.splits)
  show ?thesis
  proof (cases "length (abs_free xs b ys) = 1")
    case True
    then have r: "heap_inv [] s'" "heap_end s' = adr 0x100000" using s'(2) by simp_all
    then show ?thesis using s'(1) by (intro exI [of _ s'] exI [of _ "[]"] exI [of _ "0x100000"]) (simp add: same [OF r(2)])
  next
    case False
    have "heap_inv (abs_free xs b ys) (s'\<lparr>heap_end := adr e\<rparr>)"
    proof (cases "bfree (last (abs_free xs b ys))")
      case used: False
      then have r: "heap_inv (abs_free xs b ys) s'" "heap_end s' = adr e" using s'(2) False by simp_all
      show ?thesis using r(1) by (simp only: same [OF r(2)])
    qed (use s'(2) False in simp)
    then show ?thesis
      using s' sp(2) ne False by (intro exI [of _ s'] exI [of _ "abs_free xs b ys"] exI [of _ e]) (simp split: if_splits)
  qed
qed

theorem kfree_never_split_witness:
  "\<exists>s' bs' e'. kfree (adr 0x100005) (heap_of [block1, block2] 0x100013) = Some s' \<and> spaced 0 bs' e'
     \<and> heap_inv bs' (s'\<lparr>heap_end := adr e'\<rparr>)"
proof -
  have inv: "heap_inv ([] @ block1 # [block2]) (heap_of [block1, block2] 0x100013)" using heap_of_inv(3) by simp
  have "heap_end (heap_of [block1, block2] 0x100013) = adr 0x100013" by (simp add: heap_of_def)
  from kfree_never_split [OF inv this] show ?thesis by fastforce
qed

text \<open>Allocating from the empty heap and freeing the pointer gives the empty heap back, for
  every request the heap can hold.\<close>

lemma kmalloc_kfree_empty:
  assumes "heap_inv [] s" and "0 < unat sz" and "unat sz < 0x3FFFE0"
  shows "\<exists>p s1 s2. kmalloc sz s = Some (p, s1) \<and> p \<noteq> 0 \<and> kfree p s1 = Some s2 \<and> heap_inv [] s2"
proof -
  let ?n = "words_of sz" and ?b = "Block 0x100000 (words_of sz) False"
  have e: "heap_end s = adr 0x100000" using assms(1) by (auto simp: heap_inv_def adr_numeral)
  have n: "0 < ?n" "?n + 6 \<le> 0x100000" "sz \<noteq> 0" using assms(2,3) by (auto simp: words_of_def)
  have "abs_kmalloc sz [] 0x100000 = (0x100005, [?b], 0x100005 + ?n)"
    using n assms(3) by (simp add: abs_kmalloc_def abs_alloc_def)
  then obtain s1 where s1: "kmalloc sz s = Some (adr 0x100005, s1)" "heap_inv [?b] s1"
    "heap_end s1 = adr (0x100005 + ?n)"
    using kmalloc_refines_abs [OF assms(1) e, of sz] assms(3) by auto
  have "\<exists>s2. kfree (adr (baddr ?b + 5)) s1 = Some s2 \<and> heap_inv [] s2 \<and> heap_end s2 = adr 0x100000
      \<and> keeps_payloads ([] @ []) (ram s1) (ram s2)"
    by (rule kfree_refines_abs [of "[]" ?b "[]" s1 "0x100005 + ?n"])
      (use s1 n heap_invE(1) [OF s1(2,3)] in
        \<open>simp_all add: abs_free_def abs_merge_next_def abs_merge_prev_def safe_free_def abs_release_def\<close>)
  moreover have "adr 0x100005 \<noteq> 0" by (simp add: adr_def)
  ultimately show ?thesis using s1(1) by auto
qed

lemma kmalloc_kfree_empty_witness:
  "\<exists>p s1 s2. kmalloc 100 (heap_of [] 0x100000) = Some (p, s1) \<and> p \<noteq> 0 \<and> kfree p s1 = Some s2
     \<and> heap_inv [] s2"
  using kmalloc_kfree_empty [OF heap_of_inv(1), of 100] by simp

text \<open>Freeing a block of the heap that is free already is noticed: the heap is untouched and
  the message is printed.\<close>

lemma kfree_double_free:
  assumes "heap_inv bs s" and "b \<in> set bs" and "bfree b"
  shows "kfree (adr (baddr b + 5)) s = Some (vga_print (lit ''Double free detected!\<newline>'') s)"
proof -
  obtain e where e: "heap_end s = adr e" "e < 0x40000000" by (rule heap_inv_end [OF assms(1)]) auto
  obtain xs ys where bs: "bs = xs @ b # ys" using assms(2) by (meson split_list)
  show ?thesis
    using kfree_checks_pass [of s xs b ys e] heap_inv_hlist [OF assms(1) e] heap_invE(4) [OF assms(1) e]
      e(1) assms(3) bs by simp
qed

lemma kfree_double_free_witness:
  "kfree (adr 0x100005) (heap_of [Block 0x100000 4 True, block2] 0x100013)
     = Some (vga_print (lit ''Double free detected!\<newline>'') (heap_of [Block 0x100000 4 True, block2] 0x100013))"
  using kfree_double_free [OF heap_of_inv(4), of "Block 0x100000 4 True"] by simp

text \<open>C10: on any memory whatever, \<open>kfree\<close> changes memory or the bounds of the heap only for a
  pointer inside the heap with both magic words in place and the free flag clear.\<close>

theorem kfree_guarded:
  assumes "kfree ptr s = Some s'"
    and "ram s' \<noteq> ram s \<or> heap_end s' \<noteq> heap_end s \<or> heap_head s' \<noteq> heap_head s"
  shows "in_heap (ptr - HDR) s \<and> get32 (ram s) (ptr - HDR) = HEAP_MAGIC
     \<and> get32 (ram s) (ptr - HDR + HDR + get32 (ram s) (ptr - HDR + 4)) = HEAP_MAGIC
     \<and> get32 (ram s) (ptr - HDR + 8) = 0"
proof -
  have "ram (vga_print cs s) = ram s \<and> heap_end (vga_print cs s) = heap_end s
      \<and> heap_head (vga_print cs s) = heap_head s" for cs
    using screen_step_heap [OF screen_step_print [of s cs]] by simp
  with assms show ?thesis
    by (auto simp: kfree_def Let_def bind_Some_iff ld32_def in_heap_def not_le not_less
        split: if_splits)
qed

theorem kfree_guarded_witness:
  "get32 (ram (heap_of [block1] 0x100009)) (adr 0x100005 - HDR) = HEAP_MAGIC"
proof -
  obtain s' where s': "kfree (adr 0x100005) (heap_of [block1] 0x100009) = Some s'" "heap_end s' = adr 0x100000"
    using kfree_refines_abs [of "[]" block1 "[]" "heap_of [block1] 0x100009" "0x100009" "[]" "0x100000"] heap_of_inv(2)
    by (auto simp: abs_free_def abs_merge_next_def abs_merge_prev_def safe_free_def abs_release_def)
  have "heap_end s' \<noteq> heap_end (heap_of [block1] 0x100009)" by (simp add: s'(2) adr_eq)
  then show ?thesis using kfree_guarded [OF s'(1)] by blast
qed

section \<open>The two reports\<close>

text \<open>C12: on every well-formed heap \<open>heap_validate\<close> returns and reports the structure valid: the
  two-pointer cycle test ends without a false alarm and no block fails a check.\<close>

theorem heap_validate_valid:
  assumes "heap_inv bs s"
  shows "heap_validate s = Some (vga_print (lit ''Heap structure valid.\<newline>'') s)"
  using assms by (rule heap_validate_inv)

theorem heap_validate_valid_witness:
  "heap_validate (heap_of [block1, block2] 0x100013)
     = Some (vga_print (lit ''Heap structure valid.\<newline>'') (heap_of [block1, block2] 0x100013))"
  by (rule heap_validate_valid [OF heap_of_inv(3)])

text \<open>\<open>heap_dump\<close> returns on every well-formed heap and prints one line for each block, in
  address order, with its number, address, size, payload address and state.\<close>

lemma heap_dump_blocks:
  assumes "heap_inv bs s" and "bs \<noteq> []"
  shows "heap_dump s = Some (dump_lines 0 bs (vga_print (lit ''Heap blocks:\<newline>'') s))"
proof -
  obtain e where e: "heap_end s = adr e" "e < 0x40000000" by (rule heap_inv_end [OF assms(1)]) auto
  note inv' = heap_invE [OF assms(1) e] and h = heap_inv_hlist [OF assms(1) e]
  have "heap_head s \<noteq> 0"
    using assms(2) inv'(1,2,5) by (cases bs) (auto simp: addr_simps dest: chained_le)
  moreover have "ram (vga_print cs s) = ram s" for cs
    using screen_step_heap(1) [OF screen_step_print [of s cs]] .
  ultimately show ?thesis
    using heap_dump_linked [of "vga_print (lit ''Heap blocks:\<newline>'') s" "[]" bs e] h inv'(5) by (simp add: heap_dump_def)
qed

lemma heap_dump_blocks_witness:
  "heap_dump (heap_of [block1] 0x100009)
     = Some (heap_dump_line 0 (adr 0x100000) (adr 4) False
              (vga_print (lit ''Heap blocks:\<newline>'') (heap_of [block1] 0x100009)))"
  using heap_dump_blocks [OF heap_of_inv(2)] by simp

section \<open>Where the heap goes wrong\<close>

text \<open>C19: a defect of the release of the end of the heap: when the last of several blocks in use is
  freed, \<open>heap_end\<close> moves down to it while it stays on the free list, and the next two requests of its
  size both return its payload: two live allocations at one address.\<close>

theorem kfree_last_double_allocation:
  assumes "heap_inv (xs @ [b]) s" and "heap_end s = adr e" and "e < 0x40000000"
    and "xs \<noteq> []" and "\<forall>x \<in> set xs. \<not> bfree x" and "\<not> bfree b"
    and "baddr b + 6 + bsize b < 0x200000" and "words_of sz = bsize b"
  shows "\<exists>s1 s2 s3. kfree (adr (baddr b + 5)) s = Some s1
     \<and> kmalloc sz s1 = Some (adr (baddr b + 5), s2) \<and> kmalloc sz s2 = Some (adr (baddr b + 5), s3)"
  using assms by (rule double_allocation)

theorem kfree_last_double_allocation_witness:
  "\<exists>s1 s2 s3. kfree (adr 0x10000E) (heap_of [block1, block2] 0x100013) = Some s1
     \<and> kmalloc 16 s1 = Some (adr 0x10000E, s2) \<and> kmalloc 16 s2 = Some (adr 0x10000E, s3)"
  using kfree_last_double_allocation [of "[block1]" block2 "heap_of [block1, block2] 0x100013" "0x100013" 16] heap_of_inv(3)
  by (simp add: words_of_def)

text \<open>Two defects of the checks of \<open>kmalloc\<close>. The room left is an unsigned difference: with 20 bytes left before the end
  of the area, minus 24 wraps, and a request just below 4 GB, which makes the new end of the heap wrap to a small
  step, passes all checks. Its block overlaps itself: the tail word lands on the link to the next block.\<close>

lemma kmalloc_huge_wraps:
  "\<exists>s1 s2. kmalloc 0x3FFFD8 (heap_of [] 0x100000) = Some (0x400014, s1)
     \<and> kmalloc 0xFFFFFFF8 s1 = Some (0x800000, s2) \<and> get32 (ram s2) (0x7FFFEC + 12) = HEAP_MAGIC"
proof -
  let ?b = "Block 0x100000 0xFFFF6 False"
  obtain s1 where 1: "kmalloc 0x3FFFD8 (heap_of [] 0x100000) = Some (adr 0x100005, s1)" "heap_inv [?b] s1" "heap_end s1 = adr 0x1FFFFB"
    using kmalloc_refines_abs [OF heap_of_inv(1), of "0x100000" "0x3FFFD8" "0x100005" "[?b]" "0x1FFFFB"]
    by (auto simp: abs_kmalloc_def abs_alloc_def words_of_def)
  note inv = heap_invE [OF 1(2,3)]
  have h: "heap_head s1 = 0x400000" "heap_end s1 = 0x7FFFEC" using inv(5) 1(3) by (simp_all add: adr_def)
  have "heap_search 0xFFFFFFF8 (ram s1) 0x400000 = Some (Last 0x400000)"
    using heap_search_linked [OF inv(6,1), of "0x3FFFFFFE"] by (simp add: adr_def final_def)
  moreover have "((0xFFFFFFF8 + 7) AND NOT 7 :: u32) = 0xFFFFFFF8" by simp
  ultimately have k: "kmalloc 0xFFFFFFF8 s1 = kmalloc_append 0xFFFFFFF8 0x400000 s1"
    by (simp add: kmalloc_def Let_def h)
  have acc: "accessible 0x7FFFEC 4" "accessible 0x7FFFF0 4" "accessible 0x7FFFF4 4" "accessible 0x7FFFF8 4" "accessible 0x7FFFFC 4"
    "accessible 0x40000C 4"
    by (simp_all add: accessible_def)
  have w: "(4303355896 :: u32) = 0x7FFFF8" by simp
  obtain s2 where "kmalloc_append 0xFFFFFFF8 0x400000 s1 = Some (0x800000, s2)" "get32 (ram s2) 0x7FFFF8 = HEAP_MAGIC"
    by (simp add: kmalloc_append_def init_block_def Let_def h st32_ok ld32_ok acc w get32_put32_apart apart_def)
  then show ?thesis using 1(1) k by (auto simp: adr_def)
qed

text \<open>A defect of splitting and joining, reached from the empty heap: allocate 256 and 8 bytes,
  free the first, allocate three times 8 bytes (\<open>a\<close>, \<open>b\<close>, \<open>c\<close>, cut from the freed block), free \<open>a\<close>, free \<open>b\<close>.
  The magic word of the joined block lands in the header of \<open>c\<close>, which is in use: its size becomes
  \<open>0xDEADBEEF\<close>.\<close>

lemma kfree_join_overruns_header:
  "\<exists>s1 s2 s3 s4 s5 s6 s7 s8. kmalloc 256 (heap_of [] 0x100000) = Some (adr 0x100005, s1)
     \<and> kmalloc 8 s1 = Some (adr 0x10004A, s2) \<and> kfree (adr 0x100005) s2 = Some s3
     \<and> kmalloc 8 s3 = Some (adr 0x100005, s4) \<and> kmalloc 8 s4 = Some (adr 0x10000C, s5)
     \<and> kmalloc 8 s5 = Some (adr 0x100013, s6) \<and> kfree (adr 0x100005) s6 = Some s7
     \<and> kfree (adr 0x10000C) s7 = Some s8 \<and> wd (ram s8) (0x10000E + 1) = HEAP_MAGIC"
proof -
  let ?a = "Block 0x100000 2 False" and ?b = "Block 0x100007 2 False"
    and ?c = "Block 0x10000E 2 False" and ?d = "Block 0x100045 2 False"
  note alloc = abs_kmalloc_def abs_alloc_def words_of_def take_fit_def
  note free = abs_free_def abs_merge_next_def abs_merge_prev_def safe_free_def abs_release_def
  obtain s1 where 1: "kmalloc 256 (heap_of [] 0x100000) = Some (adr 0x100005, s1)"
    "heap_inv [Block 0x100000 64 False] s1" "heap_end s1 = adr 0x100045"
    using kmalloc_refines_abs [OF heap_of_inv(1), of "0x100000" 256 "0x100005" "[Block 0x100000 64 False]" "0x100045"]
    by (auto simp: alloc)
  obtain s2 where 2: "kmalloc 8 s1 = Some (adr 0x10004A, s2)"
    "heap_inv [Block 0x100000 64 False, ?d] s2" "heap_end s2 = adr 0x10004D"
    using kmalloc_refines_abs [OF 1(2,3), of 8 "0x10004A" "[Block 0x100000 64 False, ?d]" "0x10004D"]
    by (auto simp: alloc)
  obtain s3 where 3: "kfree (adr 0x100005) s2 = Some s3"
    "heap_inv [Block 0x100000 64 True, ?d] s3" "heap_end s3 = adr 0x10004D"
    using kfree_refines_abs [of "[]" "Block 0x100000 64 False" "[?d]" s2 "0x10004D"
        "[Block 0x100000 64 True, ?d]" "0x10004D"] 2(2,3) by (auto simp: free)
  obtain s4 where 4: "kmalloc 8 s3 = Some (adr 0x100005, s4)"
    "heap_inv [?a, Block 0x100007 56 True, ?d] s4" "heap_end s4 = adr 0x10004D"
    using kmalloc_refines_abs [OF 3(2,3), of 8 "0x100005" "[?a, Block 0x100007 56 True, ?d]" "0x10004D"]
    by (auto simp: alloc)
  obtain s5 where 5: "kmalloc 8 s4 = Some (adr 0x10000C, s5)"
    "heap_inv [?a, ?b, Block 0x10000E 48 True, ?d] s5" "heap_end s5 = adr 0x10004D"
    using kmalloc_refines_abs [OF 4(2,3), of 8 "0x10000C" "[?a, ?b, Block 0x10000E 48 True, ?d]" "0x10004D"]
    by (auto simp: alloc)
  obtain s6 where 6: "kmalloc 8 s5 = Some (adr 0x100013, s6)"
    "heap_inv [?a, ?b, ?c, Block 0x100015 40 True, ?d] s6" "heap_end s6 = adr 0x10004D"
    using kmalloc_refines_abs [OF 5(2,3), of 8 "0x100013" "[?a, ?b, ?c, Block 0x100015 40 True, ?d]" "0x10004D"]
    by (auto simp: alloc)
  obtain s7 where 7: "kfree (adr 0x100005) s6 = Some s7"
    "heap_inv [Block 0x100000 2 True, ?b, ?c, Block 0x100015 40 True, ?d] s7" "heap_end s7 = adr 0x10004D"
    using kfree_refines_abs [of "[]" ?a "[?b, ?c, Block 0x100015 40 True, ?d]" s6 "0x10004D"
        "[Block 0x100000 2 True, ?b, ?c, Block 0x100015 40 True, ?d]" "0x10004D"] 6(2,3) by (auto simp: free)
  obtain s8 where 8: "kfree (adr 0x10000C) s7 = Some s8" "wd (ram s8) (0x10000E + 1) = HEAP_MAGIC"
    using merge_overrun [OF 7(2,3)] by auto
  show ?thesis using 1(1) 2(1) 3(1) 4(1) 5(1) 6(1) 7(1) 8 by blast
qed

end
