(* ===== verification/HeapCycle.thy ===== *)
theory HeapCycle
  imports HeapProps
begin

text \<open>
  The cycle test of \<open>heap_validate\<close> (\<open>mm/heap.c\<close>) on any chain of readable headers, well formed or not:
  one pointer goes by single, the other by double steps until they meet or the list ends.
\<close>

text \<open>The chain from \<open>h\<close> on: \<open>x i\<close> is the header reached after \<open>i\<close> steps, 0 once the end is passed.\<close>

definition heap_chain :: "mem \<Rightarrow> (nat \<Rightarrow> u32) \<Rightarrow> bool" where
  "heap_chain m x \<longleftrightarrow> (\<forall>i. if x i = 0 then x (Suc i) = 0 else ld32 m (x i + 12) = Some (x (Suc i)))"

lemma chain_step: "heap_chain m x \<Longrightarrow> x i \<noteq> 0 \<Longrightarrow> ld32 m (x i + 12) = Some (x (Suc i))"
  unfolding heap_chain_def by (metis (full_types))

lemma chain_end:
  assumes "heap_chain m x" and "x i = 0" and "i \<le> j"
  shows "x j = 0"
  using assms(3)
proof (induction rule: dec_induct)
  case base
  then show ?case using assms(2) by simp
next
  case (step k)
  then show ?case using assms(1) unfolding heap_chain_def by metis
qed

lemma chain_next: "heap_chain m x \<Longrightarrow> x i = x j \<Longrightarrow> x (Suc i) = x (Suc j)"
  unfolding heap_chain_def by (metis option.inject)

lemma chain_shift: "heap_chain m x \<Longrightarrow> x i = x j \<Longrightarrow> x (i + k) = x (j + k)"
  by (induction k) (auto dest: chain_next)

text \<open>A chain that does not end repeats itself, and then the two pointers meet.\<close>

lemma chain_meets:
  assumes c: "heap_chain m x" and nz: "\<forall>i. x i \<noteq> 0"
  shows "\<exists>k > 0. x k = x (2 * k)"
proof -
  have "\<not> inj x" using finite_imageD [of x UNIV] by (meson finite infinite_UNIV_nat)
  then obtain i j where ij: "x i = x j" "i < j" unfolding inj_def by (metis nat_neq_iff)
  define l where "l = j - i"
  have l: "j = i + l" "0 < l" using ij(2) by (simp_all add: l_def)
  have per: "x (n + l) = x n" if "i \<le> n" for n
    using chain_shift [OF c ij(1), of "n - i"] that by (simp add: l(1) ac_simps)
  have mult: "x (n + r * l) = x n" if "i \<le> n" for n r
  proof (induction r)
    case (Suc r)
    have "x (n + Suc r * l) = x ((n + r * l) + l)" by (simp add: ac_simps)
    also have "\<dots> = x (n + r * l)" by (rule per) (use that in simp)
    finally show ?case using Suc by simp
  qed simp
  let ?k = "(i + 1) * l"
  have "i \<le> ?k" "0 < ?k" using l(2) by (cases l; simp)+
  moreover have "2 * ?k = ?k + (i + 1) * l" by simp
  ultimately show ?thesis using mult [of ?k "i + 1"] by (intro exI [of _ ?k]) (simp only:)
qed

lemma cycle_found:
  assumes c: "heap_chain m x" and nz: "\<forall>i. x i \<noteq> 0" and k: "x k = x (2 * k)" and "n < k"
  shows "heap_cycle m (x n) (x (2 * n)) = Some True"
  using assms(4)
proof (induction "k - n" arbitrary: n rule: less_induct)
  case less
  have f: "ld32 m (x (2 * n) + 12) = Some (x (2 * n + 1))" "ld32 m (x n + 12) = Some (x (Suc n))"
    "ld32 m (x (2 * n + 1) + 12) = Some (x (2 * Suc n))"
    using chain_step [OF c nz [rule_format]] by (metis Suc_eq_plus1, metis, metis Suc_eq_plus1 add_2_eq_Suc' mult_Suc_right mult.commute add.commute)
  show ?case
  proof (cases "x (Suc n) = x (2 * Suc n)")
    case True
    then show ?thesis using f nz by (subst heap_cycle.simps) simp
  next
    case False
    then have "Suc n < k" using less.prems k by (metis Suc_lessI)
    then have "heap_cycle m (x (Suc n)) (x (2 * Suc n)) = Some True" using less.hyps [of "Suc n"] less.prems by simp
    then show ?thesis using f nz False by (subst heap_cycle.simps) simp
  qed
qed

lemma cycle_absent:
  assumes c: "heap_chain m x" and e: "x N = 0"
  shows "heap_cycle m (x n) (x (2 * n)) = Some False"
proof (induction "N - n" arbitrary: n rule: less_induct)
  case less
  show ?case
  proof (cases "x (2 * n) = 0 \<or> x (2 * n + 1) = 0")
    case True
    then show ?thesis using chain_step [OF c, of "2 * n"] by (subst heap_cycle.simps) auto
  next
    case False
    then have nN: "2 * n + 1 < N" using chain_end [OF c e] by (metis not_le)
    have "x n \<noteq> 0" using False chain_end [OF c, of n "2 * n"] by auto
    then have f: "ld32 m (x (2 * n) + 12) = Some (x (2 * n + 1))" "ld32 m (x n + 12) = Some (x (Suc n))"
      "ld32 m (x (2 * n + 1) + 12) = Some (x (2 * Suc n))"
      using chain_step [OF c, of "2 * n"] chain_step [OF c, of n] chain_step [OF c, of "2 * n + 1"] False by simp_all
    have ne: "x (Suc n) \<noteq> x (2 * Suc n)"
    proof
      assume eq: "x (Suc n) = x (2 * Suc n)"
      have rep: "x (Suc n + r * Suc n) = x (Suc n)" for r
      proof (induction r)
        case (Suc r)
        have "Suc n + Suc r * Suc n = 2 * Suc n + r * Suc n" by simp
        then have "x (Suc n + Suc r * Suc n) = x (2 * Suc n + r * Suc n)" by (rule arg_cong)
        then show ?case using chain_shift [OF c eq, of "r * Suc n"] Suc by simp
      qed simp
      have "x (Suc n + N * Suc n) = 0" using chain_end [OF c e] by simp
      then have "x (Suc n) = 0" using rep by simp
      then show False using False chain_end [OF c, of "Suc n" "2 * n + 1"] by simp
    qed
    have "heap_cycle m (x (Suc n)) (x (2 * Suc n)) = Some False" using less [of "Suc n"] nN by simp
    then show ?thesis using f ne False by (subst heap_cycle.simps) simp
  qed
qed

section \<open>Properties\<close>

text \<open>C11: the cycle test returns on every chain of headers that can be read, however the links are damaged, and
  answers whether the chain is endless; then \<open>heap_validate\<close> reports the cycle instead of following it.\<close>

theorem heap_cycle_decides:
  assumes "heap_chain (ram s) x" and "x 0 = heap_head s"
  shows "heap_cycle (ram s) (heap_head s) (heap_head s) = Some (\<forall>i. x i \<noteq> 0)
    \<and> ((\<forall>i. x i \<noteq> 0) \<longrightarrow> heap_validate s = Some (vga_print (lit ''Heap cycle detected!\<newline>'') s))"
proof -
  have "heap_cycle (ram s) (x 0) (x (2 * 0)) = Some (\<forall>i. x i \<noteq> 0)"
  proof (cases "\<forall>i. x i \<noteq> 0")
    case True
    obtain k where "0 < k" "x k = x (2 * k)" using chain_meets [OF assms(1) True] by blast
    then show ?thesis using cycle_found [OF assms(1) True, of k 0] True by simp
  next
    case False
    then obtain N where "x N = 0" by blast
    then show ?thesis using cycle_absent [OF assms(1), of N 0] False by simp
  qed
  then show ?thesis by (simp add: assms(2) heap_validate_def)
qed

text \<open>One block whose link points back to itself.\<close>

theorem heap_cycle_decides_witness:
  "heap_validate (power_on\<lparr>heap_head := 0x400000, ram := put32 0x40000C 0x400000 (\<lambda>_. 0)\<rparr>)
     = Some (vga_print (lit ''Heap cycle detected!\<newline>'') (power_on\<lparr>heap_head := 0x400000, ram := put32 0x40000C 0x400000 (\<lambda>_. 0)\<rparr>))"
proof -
  let ?s = "power_on\<lparr>heap_head := 0x400000, ram := put32 0x40000C 0x400000 (\<lambda>_. 0)\<rparr>"
  have "ld32 (ram ?s) 0x40000C = Some 0x400000" by (simp add: ld32_def accessible_def)
  then have c: "heap_chain (ram ?s) (\<lambda>_. 0x400000)" by (simp add: heap_chain_def)
  show ?thesis using heap_cycle_decides [OF c] by simp
qed

end
