(* ===== verification/Descriptors.thy ===== *)
theory Descriptors
  imports Machine
begin

text \<open>
  The descriptor tables: \<open>arch/x86/gdt.c\<close>, \<open>arch/x86/tss.c\<close> and the table part of
  \<open>core/idt.c\<close>, with the three assembly routines they call (\<open>boot/gdt_flush.s\<close>,
  \<open>boot/tss_flush.s\<close>, \<open>boot/idt_load.s\<close>), which only load processor registers. The addresses of
  the tables and of the assembly entry points are fixed by the linker and are arguments.
\<close>

section \<open>State\<close>

record gdt_entry =
  limit_low :: u16
  base_low :: u16
  base_middle :: u8
  access :: u8
  granularity :: u8
  base_high :: u8

record idt_entry =
  offset_low :: u16
  selector :: u16
  zero :: u8
  type_attr :: u8
  offset_high :: u16

record descriptors = heap +
  gdt :: "nat \<Rightarrow> gdt_entry"
  gp_limit :: u16
  gp_base :: u32
  tss_ss0 :: u32
  tss_esp0 :: u32
  tss_iomap_base :: u16
  idt :: "nat \<Rightarrow> idt_entry"
  idtp_limit :: u16
  idtp_base :: u32

section \<open>\<open>arch/x86/gdt.c\<close>\<close>

definition gdt_set_entry :: "nat \<Rightarrow> u32 \<Rightarrow> u32 \<Rightarrow> u8 \<Rightarrow> u8 \<Rightarrow> 'a descriptors_scheme \<Rightarrow> 'a descriptors_scheme" where
  "gdt_set_entry num base limit acc gran s =
     (let e = gdt s num;
          e = e\<lparr>base_low := ucast (base AND 0xFFFF)\<rparr>;
          e = e\<lparr>base_middle := ucast (drop_bit 16 base AND 0xFF)\<rparr>;
          e = e\<lparr>base_high := ucast (drop_bit 24 base AND 0xFF)\<rparr>;
          e = e\<lparr>limit_low := ucast (limit AND 0xFFFF)\<rparr>;
          e = e\<lparr>granularity := ucast (drop_bit 16 limit AND 0x0F)\<rparr>;
          e = e\<lparr>granularity := granularity e OR (gran AND 0xF0)\<rparr>;
          e = e\<lparr>access := acc\<rparr>
      in s\<lparr>gdt := (gdt s)(num := e)\<rparr>)"

text \<open>\<open>gdt_flush.s\<close>: load the table register and all segment registers.\<close>

definition gdt_flush :: "'a descriptors_scheme \<Rightarrow> 'a descriptors_scheme" where
  "gdt_flush s = s\<lparr>regs := (regs s)\<lparr>r_gdtr_base := gp_base s, r_gdtr_limit := gp_limit s,
     r_ds := 0x10, r_es := 0x10, r_fs := 0x10, r_gs := 0x10, r_ss := 0x10, r_cs := 0x08\<rparr>\<rparr>"

definition gdt_init :: "u32 \<Rightarrow> 'a descriptors_scheme \<Rightarrow> 'a descriptors_scheme" where
  "gdt_init gdt_addr s =
     (let s = s\<lparr>gp_limit := 8 * 6 - 1\<rparr>;
          s = s\<lparr>gp_base := gdt_addr\<rparr>;
          s = gdt_set_entry 0 0 0 0 0 s;
          s = gdt_set_entry 1 0 0xFFFFFFFF 0x9A 0xCF s;
          s = gdt_set_entry 2 0 0xFFFFFFFF 0x92 0xCF s;
          s = gdt_set_entry 3 0 0xFFFFFFFF 0xFA 0xCF s;
          s = gdt_set_entry 4 0 0xFFFFFFFF 0xF2 0xCF s
      in gdt_flush s)"

section \<open>\<open>arch/x86/tss.c\<close>\<close>

text \<open>\<open>sizeof(struct tss_entry)\<close>: 25 words and two half words.\<close>

definition tss_size :: u32 where
  "tss_size = 25 * 4 + 2 * 2"

definition tss_flush :: "'a hw_scheme \<Rightarrow> 'a hw_scheme" where
  "tss_flush s = s\<lparr>regs := (regs s)\<lparr>r_tr := 0x28\<rparr>\<rparr>"

definition tss_init :: "u32 \<Rightarrow> 'a descriptors_scheme \<Rightarrow> 'a descriptors_scheme" where
  "tss_init tss_addr s =
     (let s = gdt_set_entry 5 tss_addr tss_size 0x89 0x40 s;
          s = s\<lparr>tss_ss0 := 0x10\<rparr>;
          s = s\<lparr>tss_esp0 := 0\<rparr>;
          s = s\<lparr>tss_iomap_base := ucast tss_size\<rparr>
      in tss_flush s)"

section \<open>\<open>core/idt.c\<close>: the table\<close>

abbreviation IDT_ENTRIES :: nat where "IDT_ENTRIES \<equiv> 256"

definition idt_set_gate :: "nat \<Rightarrow> u32 \<Rightarrow> 'a descriptors_scheme \<Rightarrow> 'a descriptors_scheme" where
  "idt_set_gate n handler s =
     s\<lparr>idt := (idt s)(n := \<lparr>offset_low = ucast (handler AND 0xFFFF), selector = 0x08, zero = 0,
        type_attr = 0x8E, offset_high = ucast (drop_bit 16 handler AND 0xFFFF)\<rparr>)\<rparr>"

definition idt_load :: "'a descriptors_scheme \<Rightarrow> 'a descriptors_scheme" where
  "idt_load s = s\<lparr>regs := (regs s)\<lparr>r_idtr_base := idtp_base s, r_idtr_limit := idtp_limit s\<rparr>\<rparr>"

definition empty_gate :: idt_entry where
  "empty_gate = \<lparr>offset_low = 0, selector = 0, zero = 0, type_attr = 0, offset_high = 0\<rparr>"

definition idt_init ::
    "u32 \<Rightarrow> (nat \<Rightarrow> u32) \<Rightarrow> (nat \<Rightarrow> u32) \<Rightarrow> 'a descriptors_scheme \<Rightarrow> 'a descriptors_scheme" where
  "idt_init idt_addr isr_handlers irq_handlers s =
     (let s = s\<lparr>idtp_limit := 8 * 256 - 1\<rparr>;
          s = s\<lparr>idtp_base := idt_addr\<rparr>;
          s = for_upto IDT_ENTRIES (\<lambda>i s. s\<lparr>idt := (idt s)(i := empty_gate)\<rparr>) s;
          s = for_upto 32 (\<lambda>i. idt_set_gate i (isr_handlers i)) s;
          s = for_upto 16 (\<lambda>i. idt_set_gate (32 + i) (irq_handlers i)) s
      in idt_load s)"

section \<open>What the processor reads out of a descriptor\<close>

definition segment_base :: "gdt_entry \<Rightarrow> u32" where
  "segment_base e = ucast (base_low e) OR push_bit 16 (ucast (base_middle e)) OR push_bit 24 (ucast (base_high e))"

definition segment_limit :: "gdt_entry \<Rightarrow> u32" where
  "segment_limit e = ucast (limit_low e) OR push_bit 16 (ucast (granularity e AND 0x0F))"

definition gate_offset :: "idt_entry \<Rightarrow> u32" where
  "gate_offset e = ucast (offset_low e) OR push_bit 16 (ucast (offset_high e))"

definition gate_present :: "idt_entry \<Rightarrow> bool" where
  "gate_present e = bit (type_attr e) 7"

lemma small_masks:
  "(0xFFFF :: 'a::len word) = mask 16" "(0xFF :: 'a word) = mask 8" "(0xF :: 'a word) = mask 4"
  "(0xFFFFF :: 'a word) = mask 20"
  by (simp_all add: mask_eq_exp_minus_1)

lemma mask_F0: "(0xF0 :: u8) = NOT (mask 4)"
  by (simp add: mask_eq_exp_minus_1)

lemma gdt_entry_fields:
  fixes s :: "'a descriptors_scheme" and num base limit acc gran
  defines "e \<equiv> gdt (gdt_set_entry num base limit acc gran s) num"
  shows "segment_base e = base" "segment_limit e = limit AND 0xFFFFF" "access e = acc"
    "granularity e AND 0xF0 = gran AND 0xF0"
proof -
  have f: "base_low e = ucast (base AND 0xFFFF)" "base_middle e = ucast (drop_bit 16 base AND 0xFF)"
    "base_high e = ucast (drop_bit 24 base AND 0xFF)" "limit_low e = ucast (limit AND 0xFFFF)"
    "granularity e = ucast (drop_bit 16 limit AND 0x0F) OR (gran AND 0xF0)" "access e = acc"
    by (simp_all add: e_def gdt_set_entry_def Let_def)
  show "segment_base e = base"
    unfolding segment_base_def f small_masks
  proof (rule bit_word_eqI)
    fix n assume n: "n < LENGTH(32)"
    consider "n < 16" | "16 \<le> n" "n < 24" | "24 \<le> n" by linarith
    then show "bit (ucast (ucast (base AND mask 16) :: u16)
        OR push_bit 16 (ucast (ucast (drop_bit 16 base AND mask 8) :: u8))
        OR push_bit 24 (ucast (ucast (drop_bit 24 base AND mask 8) :: u8)) :: u32) n = bit base n"
      by cases (use n in \<open>auto simp: bit_simps\<close>)
  qed
  show "segment_limit e = limit AND 0xFFFFF"
    unfolding segment_limit_def f small_masks mask_F0
  proof (rule bit_word_eqI)
    fix n assume n: "n < LENGTH(32)"
    consider "n < 16" | "16 \<le> n" "n < 20" | "20 \<le> n" by linarith
    then show "bit (ucast (ucast (limit AND mask 16) :: u16)
        OR push_bit 16 (ucast ((ucast (drop_bit 16 limit AND mask 4) OR (gran AND NOT (mask 4)) :: u8) AND mask 4)) :: u32) n
        = bit (limit AND mask 20) n"
      by cases (use n in \<open>auto simp: bit_simps\<close>)
  qed
  show "access e = acc" by (rule f)
  show "granularity e AND 0xF0 = gran AND 0xF0"
    unfolding f mask_F0 small_masks by (rule bit_word_eqI) (auto simp: bit_simps)
qed

lemma gate_fields:
  "gate_offset (idt (idt_set_gate n handler s) n) = handler"
  "gate_present (idt (idt_set_gate n handler s) n)" "selector (idt (idt_set_gate n handler s) n) = 8"
proof -
  show "gate_offset (idt (idt_set_gate n handler s) n) = handler"
    unfolding gate_offset_def idt_set_gate_def small_masks
  proof (rule bit_word_eqI)
    fix m assume m: "m < LENGTH(32)"
    consider "m < 16" | "16 \<le> m" by linarith
    then show "bit (ucast (offset_low (idt (s\<lparr>idt := (idt s)(n := \<lparr>offset_low = ucast (handler AND mask 16),
          selector = 8, zero = 0, type_attr = 142, offset_high = ucast (drop_bit 16 handler AND mask 16)\<rparr>)\<rparr>) n))
        OR push_bit 16 (ucast (offset_high (idt (s\<lparr>idt := (idt s)(n := \<lparr>offset_low = ucast (handler AND mask 16),
          selector = 8, zero = 0, type_attr = 142, offset_high = ucast (drop_bit 16 handler AND mask 16)\<rparr>)\<rparr>) n))) :: u32) m
        = bit handler m"
      by cases (use m in \<open>auto simp: bit_simps\<close>)
  qed
  show "gate_present (idt (idt_set_gate n handler s) n)" "selector (idt (idt_set_gate n handler s) n) = 8"
    by (simp_all add: gate_present_def idt_set_gate_def)
qed


section \<open>The tables after boot\<close>

lemma gdt_set_other: "m \<noteq> n \<Longrightarrow> gdt (gdt_set_entry n base limit acc gran s) m = gdt s m"
  by (simp add: gdt_set_entry_def Let_def)

lemma gdt_flush_same [simp]: "gdt (gdt_flush s) = gdt s" "gdt (s\<lparr>gp_limit := x\<rparr>) = gdt s"
  by (simp_all add: gdt_flush_def)

lemma gdt_set_regs [simp]:
  "gp_limit (gdt_set_entry n base limit acc gran s) = gp_limit s"
  "gp_base (gdt_set_entry n base limit acc gran s) = gp_base s"
  "regs (gdt_set_entry n base limit acc gran s) = regs s"
  by (simp_all add: gdt_set_entry_def Let_def)

text \<open>A descriptor covering the flat 4 GB address space: base 0, limit \<open>0xFFFFF\<close> pages.\<close>

definition flat :: "u8 \<Rightarrow> gdt_entry \<Rightarrow> bool" where
  "flat acc e \<longleftrightarrow> segment_base e = 0 \<and> segment_limit e = 0xFFFFF \<and> access e = acc
     \<and> granularity e AND 0xF0 = 0xC0"

lemma flat_set: "flat acc (gdt (gdt_set_entry n 0 0xFFFFFFFF acc 0xCF s) n)"
  using gdt_entry_fields [of n 0 "0xFFFFFFFF" acc "0xCF" s] by (simp add: flat_def)

lemma gates_loop:
  fixes s :: "'a descriptors_scheme"
  shows "idt (for_upto n (\<lambda>i. idt_set_gate (k + i) (h i)) s) j =
      (if k \<le> j \<and> j < k + n then idt (idt_set_gate j (h (j - k)) s) j else idt s j)"
    "regs (for_upto n (\<lambda>i. idt_set_gate (k + i) (h i)) s) = regs s"
    "idtp_limit (for_upto n (\<lambda>i. idt_set_gate (k + i) (h i)) s) = idtp_limit s"
    "idtp_base (for_upto n (\<lambda>i. idt_set_gate (k + i) (h i)) s) = idtp_base s"
proof -
  let ?P = "\<lambda>n t. (\<forall>j. idt t j = (if k \<le> j \<and> j < k + n then idt (idt_set_gate j (h (j - k)) s) j else idt s j))
    \<and> regs t = regs s \<and> idtp_limit t = idtp_limit s \<and> idtp_base t = idtp_base s"
  have "?P n (for_upto n (\<lambda>i. idt_set_gate (k + i) (h i)) s)"
    by (rule for_upto_invariant [where P = ?P]) (auto simp: idt_set_gate_def less_Suc_eq)
  then show "idt (for_upto n (\<lambda>i. idt_set_gate (k + i) (h i)) s) j =
      (if k \<le> j \<and> j < k + n then idt (idt_set_gate j (h (j - k)) s) j else idt s j)"
    "regs (for_upto n (\<lambda>i. idt_set_gate (k + i) (h i)) s) = regs s"
    "idtp_limit (for_upto n (\<lambda>i. idt_set_gate (k + i) (h i)) s) = idtp_limit s"
    "idtp_base (for_upto n (\<lambda>i. idt_set_gate (k + i) (h i)) s) = idtp_base s" by blast+
qed

lemma cleared_gates:
  fixes s :: "'a descriptors_scheme"
  shows "idt (for_upto n (\<lambda>i s. s\<lparr>idt := (idt s)(i := empty_gate)\<rparr>) s) j = (if j < n then empty_gate else idt s j)"
    "idtp_limit (for_upto n (\<lambda>i s. s\<lparr>idt := (idt s)(i := empty_gate)\<rparr>) s) = idtp_limit s"
    "idtp_base (for_upto n (\<lambda>i s. s\<lparr>idt := (idt s)(i := empty_gate)\<rparr>) s) = idtp_base s"
proof -
  let ?P = "\<lambda>n t. (\<forall>j. idt t j = (if j < n then empty_gate else idt s j))
    \<and> idtp_limit t = idtp_limit s \<and> idtp_base t = idtp_base s"
  have "?P n (for_upto n (\<lambda>i s. s\<lparr>idt := (idt s)(i := empty_gate)\<rparr>) s)"
    by (rule for_upto_invariant [where P = ?P]) (auto simp: less_Suc_eq)
  then show "idt (for_upto n (\<lambda>i s. s\<lparr>idt := (idt s)(i := empty_gate)\<rparr>) s) j = (if j < n then empty_gate else idt s j)"
    "idtp_limit (for_upto n (\<lambda>i s. s\<lparr>idt := (idt s)(i := empty_gate)\<rparr>) s) = idtp_limit s"
    "idtp_base (for_upto n (\<lambda>i s. s\<lparr>idt := (idt s)(i := empty_gate)\<rparr>) s) = idtp_base s" by blast+
qed

section \<open>Properties\<close>

text \<open>An entry written by \<open>gdt_set_entry\<close> reads back as the segment it was meant to be: the full
  base, the low 20 bits of the limit, the access byte and the four flag bits.\<close>

lemma gdt_entry_roundtrip:
  "segment_base (gdt (gdt_set_entry num base limit acc gran s) num) = base
   \<and> segment_limit (gdt (gdt_set_entry num base limit acc gran s) num) = limit AND 0xFFFFF
   \<and> access (gdt (gdt_set_entry num base limit acc gran s) num) = acc
   \<and> granularity (gdt (gdt_set_entry num base limit acc gran s) num) AND 0xF0 = gran AND 0xF0"
  by (intro conjI gdt_entry_fields)

text \<open>After \<open>gdt_init\<close> and \<open>tss_init\<close> the table holds the four flat segments and the task state
  segment at its address, the table register covers exactly these six entries, the segment registers
  select the kernel segments and the task register the task state segment.\<close>

lemma gdt_after_boot:
  fixes s :: "'a descriptors_scheme"
  shows "let t = tss_init tss_addr (gdt_init gdt_addr s) in
    flat 0x9A (gdt t 1) \<and> flat 0x92 (gdt t 2) \<and> flat 0xFA (gdt t 3) \<and> flat 0xF2 (gdt t 4)
    \<and> segment_base (gdt t 5) = tss_addr \<and> segment_limit (gdt t 5) = 104 \<and> access (gdt t 5) = 0x89
    \<and> r_gdtr_base (regs t) = gdt_addr \<and> unat (r_gdtr_limit (regs t)) + 1 = 8 * 6
    \<and> r_cs (regs t) = 8 * 1 \<and> r_ds (regs t) = 8 * 2 \<and> r_ss (regs t) = 8 * 2 \<and> r_tr (regs t) = 8 * 5"
proof -
  define u where "u = gdt_init gdt_addr s"
  define t where "t = tss_init tss_addr u"
  have u: "flat 0x9A (gdt u 1)" "flat 0x92 (gdt u 2)" "flat 0xFA (gdt u 3)" "flat 0xF2 (gdt u 4)"
    by (simp_all add: u_def gdt_init_def Let_def gdt_set_other flat_set)
  have t: "gdt t = gdt (gdt_set_entry 5 tss_addr tss_size 0x89 0x40 u)"
    "regs t = (regs u)\<lparr>r_tr := 0x28\<rparr>"
    by (simp_all add: t_def tss_init_def Let_def tss_flush_def)
  have "regs u = (regs s)\<lparr>r_gdtr_base := gdt_addr, r_gdtr_limit := 47,
     r_ds := 0x10, r_es := 0x10, r_fs := 0x10, r_gs := 0x10, r_ss := 0x10, r_cs := 0x08\<rparr>"
    by (simp add: u_def gdt_init_def Let_def gdt_flush_def)
  with u gdt_entry_fields [of 5 tss_addr tss_size "0x89" "0x40" u] show ?thesis
    unfolding Let_def u_def [symmetric] t_def [symmetric]
    by (simp add: t gdt_set_other tss_size_def)
qed

text \<open>After \<open>idt_init\<close> the gates 0 to 31 lead to the exception stubs, the gates 32 to 47 to the
  interrupt stubs, all in the kernel code segment, and the other gates are not present; the table register covers all 256
  gates.\<close>

lemma gates_after_init:
  fixes s :: "'a descriptors_scheme"
  assumes "n < 256"
  shows "let t = idt_init idt_addr isr irq s in
    (if n < 48 then gate_present (idt t n) \<and> selector (idt t n) = 8
            \<and> gate_offset (idt t n) = (if n < 32 then isr n else irq (n - 32))
          else \<not> gate_present (idt t n))
    \<and> r_idtr_base (regs t) = idt_addr \<and> unat (r_idtr_limit (regs t)) + 1 = 8 * 256"
proof -
  define s0 where "s0 = for_upto 256 (\<lambda>i s. s\<lparr>idt := (idt s)(i := empty_gate)\<rparr>) (s\<lparr>idtp_limit := 2047, idtp_base := idt_addr\<rparr>)"
  define s1 where "s1 = for_upto 32 (\<lambda>i. idt_set_gate i (isr i)) s0"
  define s2 where "s2 = for_upto 16 (\<lambda>i. idt_set_gate (32 + i) (irq i)) s1"
  define t where "t = idt_init idt_addr isr irq s"
  have t: "t = idt_load s2" by (simp add: t_def idt_init_def Let_def s0_def s1_def s2_def)
  note g1 = gates_loop [where k = 0 and n = 32 and h = isr and s = s0, unfolded add_0, folded s1_def]
  note g2 = gates_loop [where k = 32 and n = 16 and h = irq and s = s1, folded s2_def]
  have i0: "idt s0 n = empty_gate" using assms by (simp add: s0_def cleared_gates)
  have "idt t n = idt s2 n" by (simp add: t idt_load_def)
  also have "\<dots> = (if n < 32 then idt (idt_set_gate n (isr n) s0) n
      else if n < 48 then idt (idt_set_gate n (irq (n - 32)) s1) n else empty_gate)"
    by (auto simp: g1(1) g2(1) i0)
  finally have "idt t n = (if n < 32 then idt (idt_set_gate n (isr n) s0) n
      else if n < 48 then idt (idt_set_gate n (irq (n - 32)) s1) n else empty_gate)" .
  moreover have "\<not> gate_present empty_gate" by (simp add: gate_present_def empty_gate_def)
  moreover have "r_idtr_base (regs t) = idt_addr" "r_idtr_limit (regs t) = 2047"
    by (simp_all add: t idt_load_def g1(3,4) g2(3,4) s0_def cleared_gates(2,3))
  ultimately show ?thesis
    unfolding Let_def t_def [symmetric] by (simp add: gate_fields)
qed

definition boot_tables :: descriptors where
  "boot_tables = heap.extend power_on
     (descriptors.fields (\<lambda>_. \<lparr>limit_low = 0, base_low = 0, base_middle = 0, access = 0, granularity = 0, base_high = 0\<rparr>)
        0 0 0 0 0 (\<lambda>_. empty_gate) 0 0)"

end
