(* ===== verification/CString.thy ===== *)
theory CString
  imports Memory
begin

text \<open>
  \<open>lib/string.c\<close>. A pointer the code reads through is a reader: the bytes from it on, \<open>None\<close> where a
  load would fault. A destination is an object with a store operation by offset (a list buffer, the
  kernel's memory from an address on); the source of a copy is read from the same object, so
  that copies between places of one memory are covered. Pointers the functions return are the ones they
  were given and left out. \<open>int\<close> is a 32-bit word and \<open>char\<close> is signed. A
  scan that never finds its end, or a fault, is \<open>None\<close>.
\<close>

section \<open>Readers and stores\<close>

type_synonym i32 = "32 word"
type_synonym reader = "nat \<Rightarrow> u8 option"
type_synonym 'o store = "nat \<Rightarrow> u8 \<Rightarrow> 'o \<Rightarrow> 'o option"

definition adv :: "reader \<Rightarrow> reader" where
  "adv r = (\<lambda>i. r (Suc i))"

definition buf_at :: "u8 list \<Rightarrow> nat \<Rightarrow> reader" where
  "buf_at bs k = (\<lambda>i. if k + i < length bs then Some (bs ! (k + i)) else None)"

definition mem_at :: "mem \<Rightarrow> u32 \<Rightarrow> reader" where
  "mem_at m a = (\<lambda>i. ld8 m (a + of_nat i))"

definition str_at :: "cstr \<Rightarrow> reader" where
  "str_at s = buf_at (s @ [0]) 0"

definition buf_put :: "u8 list store" where
  "buf_put i c bs = (if i < length bs then Some (bs[i := c]) else None)"

definition mem_put :: "u32 \<Rightarrow> mem store" where
  "mem_put a i c m = st8 (a + of_nat i) c m"

section \<open>Reading\<close>

partial_function (option) strlen_from :: "reader \<Rightarrow> nat \<Rightarrow> nat option" where
  "strlen_from str len = do {
     c \<leftarrow> str len;
     if c \<noteq> 0 then strlen_from str (len + 1) else Some len }"

definition strlen :: "reader \<Rightarrow> u32 option" where
  "strlen str = map_option of_nat (strlen_from str 0)"

partial_function (option) strcmp :: "reader \<Rightarrow> reader \<Rightarrow> i32 option" where
  "strcmp a b = do {
     ca \<leftarrow> a 0;
     cb \<leftarrow> b 0;
     if ca \<noteq> 0 \<and> cb \<noteq> 0
     then if ca \<noteq> cb then Some (scast ca - scast cb) else strcmp (adv a) (adv b)
     else Some (scast ca - scast cb) }"

fun strncmp :: "reader \<Rightarrow> reader \<Rightarrow> nat \<Rightarrow> i32 option" where
  "strncmp a b 0 = Some 0"
| "strncmp a b (Suc n) = do {
     ca \<leftarrow> a 0;
     cb \<leftarrow> b 0;
     if ca \<noteq> 0 \<and> cb \<noteq> 0
     then if ca \<noteq> cb then Some (scast ca - scast cb) else strncmp (adv a) (adv b) n
     else Some (scast ca - scast cb) }"

text \<open>Overflow of the signed result wraps around.\<close>

partial_function (option) atoi_from :: "reader \<Rightarrow> i32 \<Rightarrow> i32 option" where
  "atoi_from str result = do {
     c \<leftarrow> str 0;
     if c \<noteq> 0
     then if sint c < 0x30 \<or> 0x39 < sint c then Some result
          else atoi_from (adv str) (result * 10 + (scast c - 0x30))
     else Some result }"

definition atoi :: "reader \<Rightarrow> i32 option" where
  "atoi str = atoi_from str 0"

definition hex_digit_value :: "u8 \<Rightarrow> i32 option" where
  "hex_digit_value c =
     (if 0x30 \<le> sint c \<and> sint c \<le> 0x39 then Some (scast c - 0x30)
      else if 0x61 \<le> sint c \<and> sint c \<le> 0x66 then Some (scast c - 0x61 + 10)
      else if 0x41 \<le> sint c \<and> sint c \<le> 0x46 then Some (scast c - 0x41 + 10)
      else None)"

partial_function (option) atoi_hex_from :: "reader \<Rightarrow> i32 \<Rightarrow> i32 option" where
  "atoi_hex_from str result = do {
     c \<leftarrow> str 0;
     if c \<noteq> 0
     then case hex_digit_value c of
            None \<Rightarrow> Some result
          | Some value \<Rightarrow> atoi_hex_from (adv str) (result * 16 + value)
     else Some result }"

definition atoi_hex :: "reader \<Rightarrow> i32 option" where
  "atoi_hex str = do {
     c0 \<leftarrow> str 0;
     prefixed \<leftarrow> (if c0 = 0x30
                  then do { c1 \<leftarrow> str 1; Some (c1 = 0x78 \<or> c1 = 0x58) }
                  else Some False);
     atoi_hex_from (if prefixed then adv (adv str) else str) 0 }"

section \<open>Writing\<close>

partial_function (option) strcpy :: "'o store \<Rightarrow> ('o \<Rightarrow> reader) \<Rightarrow> nat \<Rightarrow> 'o \<Rightarrow> 'o option" where
  "strcpy put src i d = do {
     c \<leftarrow> src d i;
     d \<leftarrow> put i c d;
     if c \<noteq> 0 then strcpy put src (i + 1) d else Some d }"

fun memset :: "'o store \<Rightarrow> u32 \<Rightarrow> nat \<Rightarrow> nat \<Rightarrow> 'o \<Rightarrow> 'o option" where
  "memset put v i 0 d = Some d"
| "memset put v i (Suc n) d = do { d \<leftarrow> put i (ucast v) d; memset put v (i + 1) n d }"

fun memcpy :: "'o store \<Rightarrow> ('o \<Rightarrow> reader) \<Rightarrow> nat \<Rightarrow> nat \<Rightarrow> 'o \<Rightarrow> 'o option" where
  "memcpy put src i 0 d = Some d"
| "memcpy put src i (Suc n) d = do { c \<leftarrow> src d i; d \<leftarrow> put i c d; memcpy put src (i + 1) n d }"

fun strncpy :: "'o store \<Rightarrow> ('o \<Rightarrow> reader) \<Rightarrow> nat \<Rightarrow> nat \<Rightarrow> 'o \<Rightarrow> 'o option" where
  "strncpy put src i 0 d = Some d"
| "strncpy put src i (Suc n) d = do {
     c \<leftarrow> src d i;
     if c \<noteq> 0 then do { d \<leftarrow> put i c d; strncpy put src (i + 1) n d }
     else memset put 0 i (Suc n) d }"

definition strcat :: "'o store \<Rightarrow> ('o \<Rightarrow> reader) \<Rightarrow> ('o \<Rightarrow> reader) \<Rightarrow> 'o \<Rightarrow> 'o option" where
  "strcat put dest src d = do {
     e \<leftarrow> strlen_from (dest d) 0;
     strcpy (\<lambda>i. put (e + i)) src 0 d }"

text \<open>\<open>utoa\<close>: the digits least significant first, the NUL, then the reversal in place. \<open>None\<close> for base 0 (a
  divide error) and base 1 (which never ends).\<close>

definition digit_char :: "u32 \<Rightarrow> u8" where
  "digit_char t = (if t < 10 then 0x30 + ucast t else 0x41 + ucast (t - 10))"

partial_function (option) utoa_digits :: "'o store \<Rightarrow> u32 \<Rightarrow> u32 \<Rightarrow> nat \<Rightarrow> 'o \<Rightarrow> (nat \<times> 'o) option" where
  "utoa_digits put base value ptr d =
     (if value \<noteq> 0
      then if base = 0 then None
           else do {
             d \<leftarrow> put ptr (digit_char (value mod base)) d;
             utoa_digits put base (value div base) (ptr + 1) d }
      else Some (ptr, d))"

function utoa_reverse :: "'o store \<Rightarrow> ('o \<Rightarrow> reader) \<Rightarrow> nat \<Rightarrow> nat \<Rightarrow> 'o \<Rightarrow> 'o option" where
  "utoa_reverse put get ptr1 ptr d =
     (if ptr1 < ptr
      then do {
        tmp_char \<leftarrow> get d ptr;
        c \<leftarrow> get d ptr1;
        d \<leftarrow> put ptr c d;
        d \<leftarrow> put ptr1 tmp_char d;
        utoa_reverse put get (ptr1 + 1) (ptr - 1) d }
      else Some d)"
  by pat_completeness auto
termination
  by (relation "measure (\<lambda>(put, get, ptr1, ptr, d). ptr - ptr1)") auto

declare utoa_reverse.simps [simp del]

definition utoa :: "'o store \<Rightarrow> ('o \<Rightarrow> reader) \<Rightarrow> u32 \<Rightarrow> u32 \<Rightarrow> 'o \<Rightarrow> 'o option" where
  "utoa put get value base d =
     (if value = 0 then do { d \<leftarrow> put 0 0x30 d; put 1 0 d }
      else do {
        (ptr, d) \<leftarrow> utoa_digits put base value 0 d;
        d \<leftarrow> put ptr 0 d;
        utoa_reverse put get 0 (ptr - 1) d })"

section \<open>Strings behind a reader\<close>

definition holds :: "reader \<Rightarrow> cstr \<Rightarrow> bool" where
  "holds r s \<longleftrightarrow> 0 \<notin> set s \<and> (\<forall>i < length s. r i = Some (s ! i)) \<and> r (length s) = Some 0"

lemma holds_Nil: "holds r [] \<longleftrightarrow> r 0 = Some 0"
  by (simp add: holds_def)

lemma holds_Cons: "holds r (c # s) \<longleftrightarrow> c \<noteq> 0 \<and> r 0 = Some c \<and> holds (adv r) s"
proof -
  have "(\<forall>i < Suc (length s). r i = Some ((c # s) ! i)) \<longleftrightarrow>
      r 0 = Some c \<and> (\<forall>i < length s. r (Suc i) = Some (s ! i))"
    by (auto simp: nth_Cons' less_Suc_eq_0_disj)
  then show ?thesis by (auto simp: holds_def adv_def)
qed

lemmas holds_simps = holds_Nil holds_Cons

lemma holds_str_at [simp]: "holds (str_at s) s \<longleftrightarrow> 0 \<notin> set s"
  by (auto simp: holds_def str_at_def buf_at_def nth_append)

lemma upto_nul_less: "0 \<in> set bs \<Longrightarrow> length (upto_nul bs) < length bs \<and> bs ! length (upto_nul bs) = 0"
  by (induction bs) auto

lemma holds_buf: "k \<le> length bs \<Longrightarrow> 0 \<in> set (drop k bs) \<Longrightarrow> holds (buf_at bs k) (upto_nul (drop k bs))"
proof -
  assume k: "k \<le> length bs" and z: "0 \<in> set (drop k bs)"
  let ?d = "drop k bs"
  let ?n = "length (upto_nul ?d)"
  have n: "?n < length ?d" "?d ! ?n = 0" using upto_nul_less [OF z] by auto
  moreover have "upto_nul ?d ! i = ?d ! i" if "i < ?n" for i
    using that by (simp add: upto_nul_def takeWhile_nth)
  ultimately show ?thesis using n k by (auto simp: holds_def buf_at_def)
qed

lemma strlen_from_holds: "holds (\<lambda>i. r (k + i)) s \<Longrightarrow> strlen_from r k = Some (k + length s)"
proof (induction s arbitrary: k)
  case Nil
  then show ?case by (subst strlen_from.simps) (simp add: holds_Nil)
next
  case (Cons c s)
  then have "r k = Some c" "c \<noteq> 0" "holds (\<lambda>i. r (Suc k + i)) s" by (simp_all add: holds_Cons adv_def)
  with Cons.IH [of "Suc k"] show ?case by (subst strlen_from.simps) simp
qed

lemma strlen_holds: "holds r s \<Longrightarrow> strlen r = Some (of_nat (length s))"
  using strlen_from_holds [of r 0 s] by (simp add: strlen_def)

section \<open>Splitting at a separator\<close>

text \<open>The non-empty pieces of a text between separators.\<close>

fun split_at :: "'a \<Rightarrow> 'a list \<Rightarrow> 'a list list" where
  "split_at c [] = [[]]"
| "split_at c (x # xs) =
     (if x = c then [] # split_at c xs else (x # hd (split_at c xs)) # tl (split_at c xs))"

definition pieces :: "'a \<Rightarrow> 'a list \<Rightarrow> 'a list list" where
  "pieces c xs = filter (\<lambda>w. w \<noteq> []) (split_at c xs)"

lemma split_at_word: "c \<notin> set w \<Longrightarrow> split_at c w = [w]"
  by (induction w) auto

lemma split_at_words: "c \<notin> set w \<Longrightarrow> split_at c (w @ c # xs) = w # split_at c xs"
  by (induction w) auto

lemma pieces_skip: "pieces c (dropWhile (\<lambda>x. x = c) xs) = pieces c xs"
  by (induction xs) (simp_all add: pieces_def)

lemma pieces_Nil [simp]: "pieces c [] = []"
  by (simp add: pieces_def)

lemma pieces_first:
  assumes "takeWhile (\<lambda>x. x \<noteq> c) xs \<noteq> []"
  shows "pieces c xs = takeWhile (\<lambda>x. x \<noteq> c) xs # pieces c (dropWhile (\<lambda>x. x \<noteq> c) xs)"
proof -
  let ?w = "takeWhile (\<lambda>x. x \<noteq> c) xs" and ?r = "dropWhile (\<lambda>x. x \<noteq> c) xs"
  have w: "c \<notin> set ?w" by (auto dest: set_takeWhileD)
  show ?thesis
  proof (cases ?r)
    case Nil
    have "?w @ ?r = xs" by (rule takeWhile_dropWhile_id)
    then have e: "?w = xs" unfolding Nil by (rule trans [OF append_Nil2 [symmetric]])
    have "split_at c ?w = [?w]" by (rule split_at_word [OF w])
    then have "split_at c xs = [?w]" by (simp only: e)
    then have "pieces c xs = [?w]" using assms by (simp add: pieces_def)
    moreover have "pieces c ?r = []" unfolding Nil by simp
    ultimately show ?thesis by simp
  next
    case (Cons y ys)
    then have y: "y = c" using hd_dropWhile [of "\<lambda>x. x \<noteq> c" xs] by simp
    have "?w @ ?r = xs" by (rule takeWhile_dropWhile_id)
    then have e: "?w @ c # ys = xs" unfolding Cons y .
    have "split_at c xs = ?w # split_at c ys" using split_at_words [OF w, of ys] unfolding e .
    moreover have "pieces c ?r = filter (\<lambda>w. w \<noteq> []) (split_at c ys)" using Cons y by (simp add: pieces_def)
    ultimately show ?thesis using assms by (simp add: pieces_def)
  qed
qed

lemma split_at_sound: "split_at c xs \<noteq> [] \<and> (\<forall>w \<in> set (split_at c xs). c \<notin> set w \<and> set w \<subseteq> set xs)"
proof (induction xs)
  case (Cons x xs)
  then obtain w ws where w: "split_at c xs = w # ws" by (cases "split_at c xs") auto
  then show ?case using Cons by auto
qed simp

lemma pieces_sound: "w \<in> set (pieces c xs) \<Longrightarrow> w \<noteq> [] \<and> c \<notin> set w \<and> set w \<subseteq> set xs"
  using split_at_sound [of c xs] by (auto simp: pieces_def)

section \<open>Comparison\<close>

text \<open>The first difference of two terminated strings decides, by the values of signed characters.\<close>

lemma char_diff:
  fixes a b :: u8
  shows "sint (scast a - scast b :: i32) = sint a - sint b"
proof -
  have r: "- 128 \<le> sint x \<and> sint x < 128" for x :: u8
    using sint_ge [of x] sint_lt [of x] by simp
  have s: "sint (scast x :: i32) = sint x" for x :: u8 by (rule sint_up_scast) (simp add: is_up)
  show ?thesis using r [of a] r [of b] by (simp add: sint_word_ariths s signed_take_bit_int_eq_self)
qed

definition char_less :: "(u8 \<times> u8) set" where
  "char_less = {(x, y). sint x < sint y}"

lemma char_diff_zero [simp]: "(scast a :: i32) = scast b \<longleftrightarrow> (a :: u8) = b"
proof
  assume "(scast a :: i32) = scast b"
  then have "sint (scast a - scast b :: i32) = 0" by simp
  then have "sint a = sint b" using char_diff [of a b] by simp
  then show "a = b" by (rule signed_word_eqI)
qed simp

lemma char_zero [simp]: "(scast a :: i32) = 0 \<longleftrightarrow> (a :: u8) = 0" "(0 :: i32) = scast a \<longleftrightarrow> a = 0"
  using char_diff_zero [of a 0] char_diff_zero [of 0 a] by auto

lemma strcmp_ok:
  assumes "holds a s" and "holds b t"
  shows "\<exists>d. strcmp a b = Some d \<and> (d = 0 \<longleftrightarrow> s = t)
    \<and> (sint d < 0 \<longleftrightarrow> (s @ [0], t @ [0]) \<in> lexord char_less)"
  using assms
proof (induction s arbitrary: a b t)
  case Nil
  obtain cb where b: "b 0 = Some cb" "cb = 0 \<longleftrightarrow> t = []" "\<And>ts. cb = hd (t @ 0 # ts)"
    using Nil.prems(2) by (cases t) (auto simp: holds_simps)
  have "strcmp a b = Some (scast (0 :: u8) - scast cb)"
    using Nil.prems(1) b(1) by (subst strcmp.simps) (simp add: holds_Nil)
  then show ?case using b char_diff [of 0 cb]
    by (cases t) (auto simp: char_less_def)
next
  case (Cons c s)
  have a: "a 0 = Some c" "c \<noteq> 0" "holds (adv a) s" using Cons.prems(1) by (auto simp: holds_Cons)
  show ?case
  proof (cases t)
    case Nil
    then have "strcmp a b = Some (scast c - scast (0 :: u8))"
      using a Cons.prems(2) by (subst strcmp.simps) (simp add: holds_Nil)
    then show ?thesis using a(2) char_diff [of c 0] Nil
      by (auto simp: char_less_def)
  next
    case t: (Cons e t')
    then have b: "b 0 = Some e" "e \<noteq> 0" "holds (adv b) t'" using Cons.prems(2) by (auto simp: holds_Cons)
    show ?thesis
    proof (cases "c = e")
      case True
      then have "strcmp a b = strcmp (adv a) (adv b)" using a b by (subst strcmp.simps) simp
      then show ?thesis using Cons.IH [OF a(3) b(3)] True t by (auto simp: char_less_def)
    next
      case False
      then have "strcmp a b = Some (scast c - scast e)" using a b by (subst strcmp.simps) simp
      then show ?thesis using False char_diff [of c e] t
        by (auto simp: char_less_def)
    qed
  qed
qed

lemma strcmp_zero: "holds a s \<Longrightarrow> holds b t \<Longrightarrow> \<exists>d. strcmp a b = Some d \<and> (d = 0 \<longleftrightarrow> s = t)"
  using strcmp_ok by blast

lemma strncmp_ok:
  assumes "holds a s" and "holds b t"
  shows "\<exists>d. strncmp a b n = Some d \<and> (d = 0 \<longleftrightarrow> take n s = take n t)"
  using assms
proof (induction n arbitrary: a b s t)
  case (Suc n)
  obtain ca cb where c: "a 0 = Some ca" "b 0 = Some cb" "ca = 0 \<longleftrightarrow> s = []" "cb = 0 \<longleftrightarrow> t = []"
    "s \<noteq> [] \<Longrightarrow> s = ca # tl s \<and> holds (adv a) (tl s)" "t \<noteq> [] \<Longrightarrow> t = cb # tl t \<and> holds (adv b) (tl t)"
    using Suc.prems by (cases s; cases t) (auto simp: holds_simps)
  show ?case
  proof (cases "s \<noteq> [] \<and> t \<noteq> [] \<and> ca = cb")
    case True
    then have "strncmp a b (Suc n) = strncmp (adv a) (adv b) n" using c by simp
    with True Suc.IH [of "adv a" "tl s" "adv b" "tl t"] c show ?thesis
      by (metis take_Suc_Cons list.inject)
  next
    case False
    then have "strncmp a b (Suc n) = Some (scast ca - scast cb)" using c by auto
    moreover have "ca = cb \<longleftrightarrow> take (Suc n) s = take (Suc n) t"
      using False c by (cases s; cases t) auto
    ultimately show ?thesis by (simp add: char_diff_zero)
  qed
qed simp

section \<open>The interface of a destination\<close>

text \<open>An object of \<open>len\<close> bytes in front of the pointer: a store changes the byte it names and nothing
  else, neither in front of the pointer nor in the rest of the object.\<close>

locale destination =
  fixes put :: "'o store" and view :: "'o \<Rightarrow> nat \<Rightarrow> u8" and len :: "'o \<Rightarrow> nat" and rest :: "'o \<Rightarrow> 'r"
  assumes put_ok: "i < len d \<Longrightarrow> \<exists>d'. put i c d = Some d' \<and> len d' = len d \<and> rest d' = rest d
    \<and> (\<forall>j < len d. view d' j = (if j = i then c else view d j))"

context destination
begin

lemma putE:
  assumes "i < len d"
  obtains d' where "put i c d = Some d'" "len d' = len d" "rest d' = rest d"
    "\<And>j. j < len d \<Longrightarrow> view d' j = (if j = i then c else view d j)"
  using put_ok [OF assms, of c] by blast

text \<open>What a run of stores from \<open>i\<close> on leaves: the bytes \<open>f\<close>.\<close>

definition wrote :: "nat \<Rightarrow> nat \<Rightarrow> (nat \<Rightarrow> u8) \<Rightarrow> 'o \<Rightarrow> 'o \<Rightarrow> bool" where
  "wrote i n f d d' \<longleftrightarrow> len d' = len d \<and> rest d' = rest d
     \<and> (\<forall>j < len d. view d' j = (if i \<le> j \<and> j < i + n then f j else view d j))"

lemma wrote_0: "wrote i 0 f d d"
  by (auto simp: wrote_def)

lemma wrote_Suc:
  assumes "put i c d = Some d1" "len d1 = len d" "rest d1 = rest d"
    "\<And>j. j < len d \<Longrightarrow> view d1 j = (if j = i then c else view d j)"
    and "wrote (i + 1) n f d1 d2" and "c = f i"
  shows "wrote i (Suc n) f d d2"
  using assms unfolding wrote_def by (auto simp: not_le less_Suc_eq)

lemma memset_writes:
  assumes "i + n \<le> len d"
  shows "\<exists>d'. memset put v i n d = Some d' \<and> wrote i n (\<lambda>_. ucast v) d d'"
  using assms
proof (induction n arbitrary: i d)
  case (Suc n)
  then have "i < len d" by simp
  then obtain d1 where d1: "put i (ucast v) d = Some d1" "len d1 = len d" "rest d1 = rest d"
    "\<And>j. j < len d \<Longrightarrow> view d1 j = (if j = i then ucast v else view d j)"
    by (rule putE [where c = "ucast v"]) blast
  obtain d2 where "memset put v (i + 1) n d1 = Some d2" "wrote (i + 1) n (\<lambda>_. ucast v) d1 d2"
    using Suc.IH [of "i + 1" d1] Suc.prems d1(2) by auto
  with d1 wrote_Suc [OF d1] show ?case by auto
qed (simp add: wrote_0)

lemma memcpy_writes:
  assumes "i + n \<le> len d" and "\<And>d' j. rest d' = rest d \<Longrightarrow> j < i + n \<Longrightarrow> src d' j = Some (f j)"
  shows "\<exists>d'. memcpy put src i n d = Some d' \<and> wrote i n f d d'"
  using assms
proof (induction n arbitrary: i d)
  case (Suc n)
  then have "i < len d" by simp
  then obtain d1 where d1: "put i (f i) d = Some d1" "len d1 = len d" "rest d1 = rest d"
    "\<And>j. j < len d \<Longrightarrow> view d1 j = (if j = i then f i else view d j)"
    by (rule putE [where c = "f i"]) blast
  obtain d2 where "memcpy put src (i + 1) n d1 = Some d2" "wrote (i + 1) n f d1 d2"
    using Suc.IH [of "i + 1" d1] Suc.prems d1(2,3) by auto
  with d1 wrote_Suc [OF d1] Suc.prems(2) [of d i] show ?case by auto
qed (simp add: wrote_0)

lemma strcpy_writes:
  assumes "i + length s < len d" and "\<And>d'. rest d' = rest d \<Longrightarrow> holds (\<lambda>j. src d' (i + j)) s"
  shows "\<exists>d'. strcpy put src i d = Some d' \<and> wrote i (length s + 1) (\<lambda>j. (s @ [0]) ! (j - i)) d d'"
  using assms
proof (induction s arbitrary: i d)
  case Nil
  then obtain d1 where d1: "put i 0 d = Some d1" "len d1 = len d" "rest d1 = rest d"
    "\<And>j. j < len d \<Longrightarrow> view d1 j = (if j = i then 0 else view d j)"
    by (auto elim: putE [where c = 0])
  have "src d i = Some 0" using Nil.prems(2) [of d] by (simp add: holds_Nil)
  then have "strcpy put src i d = Some d1" using d1(1) by (subst strcpy.simps) simp
  moreover have "wrote i 1 (\<lambda>j. ([] @ [0]) ! (j - i)) d d1"
    using d1 wrote_Suc [OF d1 wrote_0] by simp
  ultimately show ?case by auto
next
  case (Cons c s)
  then have "i < len d" by simp
  then obtain d1 where d1: "put i c d = Some d1" "len d1 = len d" "rest d1 = rest d"
    "\<And>j. j < len d \<Longrightarrow> view d1 j = (if j = i then c else view d j)"
    by (rule putE [where c = c]) blast
  have src: "src d i = Some c" "c \<noteq> 0" using Cons.prems(2) [of d] by (simp_all add: holds_Cons)
  have "holds (\<lambda>j. src d' (i + 1 + j)) s" if "rest d' = rest d1" for d'
    using Cons.prems(2) [of d'] that d1(3) by (simp add: holds_Cons adv_def)
  then obtain d2 where d2: "strcpy put src (i + 1) d1 = Some d2"
    "wrote (i + 1) (length s + 1) (\<lambda>j. (s @ [0]) ! (j - (i + 1))) d1 d2"
    using Cons.IH [of "i + 1" d1] Cons.prems(1) d1(2) by auto
  have "wrote (i + 1) (length s + 1) (\<lambda>j. ((c # s) @ [0]) ! (j - i)) d1 d2"
    using d2(2) unfolding wrote_def by (auto simp: nth_Cons')
  from wrote_Suc [OF d1 this] have "wrote i (Suc (length s + 1)) (\<lambda>j. ((c # s) @ [0]) ! (j - i)) d d2"
    by simp
  moreover have "strcpy put src i d = Some d2"
    using src d1(1) d2(1) by (subst strcpy.simps) simp
  ultimately show ?case by auto
qed

lemma strncpy_writes:
  assumes "i + n \<le> len d" and "\<And>d'. rest d' = rest d \<Longrightarrow> holds (\<lambda>j. src d' (i + j)) s"
  shows "\<exists>d'. strncpy put src i n d = Some d'
    \<and> wrote i n (\<lambda>j. if j - i < length s then s ! (j - i) else 0) d d'"
  using assms
proof (induction n arbitrary: i s d)
  case (Suc n)
  show ?case
  proof (cases s)
    case Nil
    then have "src d i = Some 0" using Suc.prems(2) [of d] by (simp add: holds_Nil)
    moreover obtain d' where "memset put 0 i (Suc n) d = Some d'" "wrote i (Suc n) (\<lambda>_. 0) d d'"
      using memset_writes [OF Suc.prems(1), of 0] by auto
    ultimately show ?thesis using Nil by simp
  next
    case (Cons c s')
    have "i < len d" using Suc.prems(1) by simp
    then obtain d1 where d1: "put i c d = Some d1" "len d1 = len d" "rest d1 = rest d"
      "\<And>j. j < len d \<Longrightarrow> view d1 j = (if j = i then c else view d j)"
      by (rule putE [where c = c]) blast
    have src: "src d i = Some c" "c \<noteq> 0" using Suc.prems(2) [of d] Cons by (simp_all add: holds_Cons)
    have "holds (\<lambda>j. src d' (i + 1 + j)) s'" if "rest d' = rest d1" for d'
      using Suc.prems(2) [of d'] that d1(3) Cons by (simp add: holds_Cons adv_def)
    then obtain d2 where d2: "strncpy put src (i + 1) n d1 = Some d2"
      "wrote (i + 1) n (\<lambda>j. if j - (i + 1) < length s' then s' ! (j - (i + 1)) else 0) d1 d2"
      using Suc.IH [of "i + 1" d1 s'] Suc.prems(1) d1(2) by auto
    have "wrote (i + 1) n (\<lambda>j. if j - i < length s then s ! (j - i) else 0) d1 d2"
      using d2(2) Cons unfolding wrote_def by (auto simp: nth_Cons')
    from wrote_Suc [OF d1 this] have "wrote i (Suc n) (\<lambda>j. if j - i < length s then s ! (j - i) else 0) d d2"
      using Cons by simp
    then show ?thesis using src d1(1) d2(1) by auto
  qed
qed (simp add: wrote_0)

end

text \<open>Destinations whose end the machine notices. \<open>strcpy\<close> does not look at the size of the destination:
  with too little room it runs off its end.\<close>

locale bounded = destination put view len rest
  for put :: "'o store" and view :: "'o \<Rightarrow> nat \<Rightarrow> u8" and len :: "'o \<Rightarrow> nat" and rest :: "'o \<Rightarrow> 'r" +
  assumes put_beyond: "len d \<le> i \<Longrightarrow> put i c d = None"

context bounded
begin

lemma strcpy_overruns:
  assumes "len d \<le> i + length s" and "\<And>d'. rest d' = rest d \<Longrightarrow> holds (\<lambda>j. src d' (i + j)) s"
  shows "strcpy put src i d = None"
  using assms
proof (induction s arbitrary: i d)
  case Nil
  then show ?case by (subst strcpy.simps) (simp add: holds_Nil put_beyond)
next
  case (Cons c s)
  have src: "src d i = Some c" "c \<noteq> 0" using Cons.prems(2) [of d] by (simp_all add: holds_Cons)
  show ?case
  proof (cases "i < len d")
    case True
    then obtain d1 where d1: "put i c d = Some d1" "len d1 = len d" "rest d1 = rest d"
      by (rule putE [where c = c]) blast
    have "holds (\<lambda>j. src d' (i + 1 + j)) s" if "rest d' = rest d1" for d'
      using Cons.prems(2) [of d'] that d1(3) by (simp add: holds_Cons adv_def)
    then have "strcpy put src (i + 1) d1 = None" using Cons.IH [of d1 "i + 1"] Cons.prems(1) d1(2) by simp
    then show ?thesis using src d1(1) by (subst strcpy.simps) simp
  qed (use src put_beyond in \<open>subst strcpy.simps; simp\<close>)
qed

end

text \<open>Destinations that can also be read back.\<close>

locale readable = destination put view len rest
  for put :: "'o store" and view :: "'o \<Rightarrow> nat \<Rightarrow> u8" and len :: "'o \<Rightarrow> nat" and rest :: "'o \<Rightarrow> 'r" +
  fixes get :: "'o \<Rightarrow> reader"
  assumes get_ok: "j < len d \<Longrightarrow> get d j = Some (view d j)"

text \<open>The digits of a number, least significant first.\<close>

function digits :: "u32 \<Rightarrow> u32 \<Rightarrow> cstr" where
  "digits base v = (if v = 0 \<or> base < 2 then [] else digit_char (v mod base) # digits base (v div base))"
  by pat_completeness auto
termination
proof (relation "measure (\<lambda>(base, v). unat v)", goal_cases)
  case (2 base v)
  then have "1 < unat base" "0 < unat v" by (auto simp: word_less_nat_alt unat_gt_0)
  then show ?case by (simp add: unat_div)
qed simp

declare digits.simps [simp del]

context readable
begin

lemma utoa_digits_writes:
  assumes "2 \<le> base" and "ptr + length (digits base v) \<le> len d"
  shows "\<exists>d'. utoa_digits put base v ptr d = Some (ptr + length (digits base v), d')
    \<and> wrote ptr (length (digits base v)) (\<lambda>j. digits base v ! (j - ptr)) d d'"
  using assms
proof (induction base v arbitrary: ptr d rule: digits.induct)
  case (1 base v)
  have b: "\<not> base < 2" "base \<noteq> 0" using "1.prems"(1) by (auto simp: not_less)
  show ?case
  proof (cases "v = 0")
    case True
    then show ?thesis
      by (subst utoa_digits.simps, subst (1 2 3) digits.simps) (simp add: wrote_0)
  next
    case False
    have dg: "digits base v = digit_char (v mod base) # digits base (v div base)"
      using False b by (subst digits.simps) simp
    let ?c = "digit_char (v mod base)" and ?n = "length (digits base (v div base))"
    have "ptr < len d" using "1.prems"(2) dg by simp
    then obtain d1 where d1: "put ptr ?c d = Some d1" "len d1 = len d" "rest d1 = rest d"
      "\<And>j. j < len d \<Longrightarrow> view d1 j = (if j = ptr then ?c else view d j)"
      by (rule putE [where c = ?c]) blast
    have "ptr + 1 + ?n \<le> len d1" using "1.prems"(2) dg d1(2) by simp
    moreover have "\<not> (v = 0 \<or> base < 2)" using False b by simp
    ultimately obtain d2 where d2: "utoa_digits put base (v div base) (ptr + 1) d1 = Some (ptr + 1 + ?n, d2)"
      "wrote (ptr + 1) ?n (\<lambda>j. digits base (v div base) ! (j - (ptr + 1))) d1 d2"
      using "1.IH" [of "ptr + 1" d1] "1.prems"(1) by blast
    have "wrote (ptr + 1) ?n (\<lambda>j. digits base v ! (j - ptr)) d1 d2"
      using d2(2) unfolding wrote_def dg by (auto simp: nth_Cons')
    from wrote_Suc [OF d1 this] have "wrote ptr (Suc ?n) (\<lambda>j. digits base v ! (j - ptr)) d d2"
      by (simp add: dg)
    then show ?thesis using False b d1(1) d2(1) dg by (subst utoa_digits.simps) simp
  qed
qed

lemma utoa_reverse_writes:
  assumes "hi < len d" and "lo \<le> hi + 1"
  shows "\<exists>d'. utoa_reverse put get lo hi d = Some d' \<and> len d' = len d \<and> rest d' = rest d
    \<and> (\<forall>j < len d. view d' j = (if lo \<le> j \<and> j \<le> hi then view d (lo + hi - j) else view d j))"
  using assms
proof (induction "hi - lo" arbitrary: lo hi d rule: less_induct)
  case less
  show ?case
  proof (cases "lo < hi")
    case True
    have lo: "lo < len d" using True less.prems by simp
    obtain d1 where d1: "put hi (view d lo) d = Some d1" "len d1 = len d" "rest d1 = rest d"
      "\<And>j. j < len d \<Longrightarrow> view d1 j = (if j = hi then view d lo else view d j)"
      by (rule putE [OF less.prems(1)]) blast
    have "lo < len d1" using lo d1(2) by simp
    then obtain d2 where d2: "put lo (view d hi) d1 = Some d2" "len d2 = len d1" "rest d2 = rest d1"
      "\<And>j. j < len d1 \<Longrightarrow> view d2 j = (if j = lo then view d hi else view d1 j)"
      by (rule putE [where c = "view d hi"]) blast
    have "hi - 1 < len d2" "lo + 1 \<le> hi - 1 + 1" "hi - 1 - (lo + 1) < hi - lo"
      using less.prems(1) d1(2) d2(2) True by simp_all
    then obtain d3 where d3: "utoa_reverse put get (lo + 1) (hi - 1) d2 = Some d3" "len d3 = len d2" "rest d3 = rest d2"
      "\<And>j. j < len d2 \<Longrightarrow> view d3 j = (if lo + 1 \<le> j \<and> j \<le> hi - 1 then view d2 (lo + 1 + (hi - 1) - j) else view d2 j)"
      using less.hyps [of "hi - 1" "lo + 1" d2] by blast
    have "utoa_reverse put get lo hi d = Some d3"
      using True d1(1) d2(1) d3(1) get_ok [OF lo] get_ok [OF less.prems(1)]
      by (subst utoa_reverse.simps) simp
    moreover have "view d3 j = (if lo \<le> j \<and> j \<le> hi then view d (lo + hi - j) else view d j)" if "j < len d" for j
      using that True d1(2,4) d2(2,4) d3(4) less.prems(1) by auto
    ultimately show ?thesis using d1(2,3) d2(2,3) d3(2,3) by auto
  next
    case False
    then have "utoa_reverse put get lo hi d = Some d" by (subst utoa_reverse.simps) simp
    moreover have "lo + hi - j = j" if "lo \<le> j" "j \<le> hi" for j using that False by simp
    ultimately show ?thesis by auto
  qed
qed

lemma utoa_writes:
  assumes "2 \<le> base" and "v \<noteq> 0" and "length (digits base v) < len d"
  shows "\<exists>d'. utoa put get v base d = Some d'
    \<and> wrote 0 (length (digits base v) + 1) (\<lambda>j. (rev (digits base v) @ [0]) ! j) d d'"
proof -
  let ?ds = "digits base v" and ?n = "length (digits base v)"
  have n: "0 < ?n" using assms(1,2) by (subst digits.simps) (simp add: not_less)
  obtain d1 where d1: "utoa_digits put base v 0 d = Some (?n, d1)" "wrote 0 ?n (\<lambda>j. ?ds ! j) d d1"
    using utoa_digits_writes [OF assms(1), of 0 v d] assms(3) by auto
  have w1: "len d1 = len d" "rest d1 = rest d" "\<And>j. j < len d \<Longrightarrow> view d1 j = (if j < ?n then ?ds ! j else view d j)"
    using d1(2) by (auto simp: wrote_def)
  have "?n < len d1" using assms(3) w1(1) by simp
  then obtain d2 where d2: "put ?n 0 d1 = Some d2" "len d2 = len d1" "rest d2 = rest d1"
    "\<And>j. j < len d1 \<Longrightarrow> view d2 j = (if j = ?n then 0 else view d1 j)"
    by (rule putE [where c = 0]) blast
  have "?n - 1 < len d2" "0 \<le> ?n - 1 + 1" using assms(3) w1(1) d2(2) by simp_all
  then obtain d3 where d3: "utoa_reverse put get 0 (?n - 1) d2 = Some d3" "len d3 = len d2" "rest d3 = rest d2"
    "\<And>j. j < len d2 \<Longrightarrow> view d3 j = (if 0 \<le> j \<and> j \<le> ?n - 1 then view d2 (0 + (?n - 1) - j) else view d2 j)"
    using utoa_reverse_writes [of "?n - 1" d2 0] by blast
  have "view d3 j = (if j < ?n + 1 then (rev ?ds @ [0]) ! j else view d j)" if j: "j < len d" for j
  proof -
    consider "j < ?n" | "j = ?n" | "?n < j" by linarith
    then show ?thesis
    proof cases
      case 1
      then have "j \<le> ?n - 1" by simp
      then have "view d3 j = view d2 (?n - 1 - j)" using d3(4) [of j] j w1(1) d2(2) by simp
      also have "\<dots> = ?ds ! (?n - 1 - j)"
        using 1 assms(3) d2(4) [of "?n - 1 - j"] w1(1) w1(3) [of "?n - 1 - j"] by auto
      also have "\<dots> = (rev ?ds @ [0]) ! j" using 1 by (simp add: nth_append rev_nth)
      finally show ?thesis using 1 by simp
    next
      case 2
      then have "\<not> j \<le> ?n - 1" using n by linarith
      then show ?thesis using 2 d3(4) [of j] j w1(1) d2(2,4) by (simp add: nth_append)
    next
      case 3
      then have "\<not> j \<le> ?n - 1" by linarith
      then show ?thesis using 3 d3(4) [of j] j w1 d2(2,4) by simp
    qed
  qed
  then have "wrote 0 (?n + 1) (\<lambda>j. (rev ?ds @ [0]) ! j) d d3"
    using w1(1,2) d2(2,3) d3(2,3) by (simp add: wrote_def)
  moreover have "utoa put get v base d = Some d3"
    using assms(2) d1(1) d2(1) d3(1) by (simp add: utoa_def)
  ultimately show ?thesis by blast
qed

end

section \<open>The two kinds of destination\<close>

interpretation buf: bounded buf_put "\<lambda>bs i. bs ! i" length "\<lambda>_. ()"
  by unfold_locales (auto simp: buf_put_def)

interpretation rbuf: readable buf_put "\<lambda>bs i. bs ! i" length "\<lambda>_. ()" "\<lambda>bs. buf_at bs 0"
  by unfold_locales (auto simp: buf_at_def)

text \<open>The \<open>n\<close> bytes of memory from \<open>a\<close> on, where they can be accessed, and the memory outside them.\<close>

definition region_len :: "u32 \<Rightarrow> nat \<Rightarrow> nat" where
  "region_len a n = (if accessible a n then n else 0)"

definition outside :: "u32 \<Rightarrow> nat \<Rightarrow> mem \<Rightarrow> mem" where
  "outside a n m = (\<lambda>x. if \<exists>i < n. x = a + of_nat i then 0 else m x)"

lemma region_offset:
  assumes "accessible a n" and "i < n"
  shows "unat (a + of_nat i) = unat a + i" "accessible (a + of_nat i) 1"
    "j < n \<Longrightarrow> a + of_nat j = a + of_nat i \<longleftrightarrow> j = i"
proof -
  have u: "unat (a + of_nat k) = unat a + k" if "k < n" for k
    using assms(1) that by (simp add: accessible_def unat_word_ariths)
  show "unat (a + of_nat i) = unat a + i" by (rule u) (rule assms)
  then show "accessible (a + of_nat i) 1" using assms by (simp add: accessible_def)
  show "a + of_nat j = a + of_nat i \<longleftrightarrow> j = i" if "j < n"
  proof
    assume "a + of_nat j = a + of_nat i"
    then have "unat (a + of_nat j) = unat (a + of_nat i)" by (rule arg_cong)
    then show "j = i" using u [OF that] u [OF assms(2)] by simp
  qed simp
qed

interpretation region: readable "mem_put a" "\<lambda>m i. m (a + of_nat i)" "\<lambda>_. region_len a n" "outside a n" "\<lambda>m. mem_at m a"
  for a n
proof
  fix i c and m :: mem
  assume "i < region_len a n"
  then have i: "accessible a n" "i < n" by (auto simp: region_len_def split: if_splits)
  note r = region_offset [OF i]
  show "\<exists>m'. mem_put a i c m = Some m' \<and> region_len a n = region_len a n \<and> outside a n m' = outside a n m
      \<and> (\<forall>j < region_len a n. m' (a + of_nat j) = (if j = i then c else m (a + of_nat j)))"
  proof (intro exI conjI allI impI)
    show "mem_put a i c m = Some (m(a + of_nat i := c))" using r(2) by (simp add: mem_put_def st8_def)
    show "outside a n (m(a + of_nat i := c)) = outside a n m" using i(2) by (auto simp: outside_def fun_eq_iff)
    show "(m(a + of_nat i := c)) (a + of_nat j) = (if j = i then c else m (a + of_nat j))"
      if "j < region_len a n" for j
      using r(3) [of j] that i(1) by (simp add: region_len_def del: add_left_cancel)
  qed simp
  show "mem_at m a i = Some (m (a + of_nat i))"
    using r(2) by (simp add: mem_at_def ld8_def)
qed

section \<open>Reading numbers back\<close>

lemma digit_char_dec: "t < 10 \<Longrightarrow> 0x30 \<le> sint (digit_char t) \<and> sint (digit_char t) \<le> 0x39
    \<and> scast (digit_char t) - 0x30 = t"
proof -
  have "\<forall>k \<in> set [0..<10]. 0x30 \<le> sint (digit_char (of_nat k)) \<and> sint (digit_char (of_nat k)) \<le> 0x39
      \<and> scast (digit_char (of_nat k)) - 0x30 = (of_nat k :: u32)"
    by (simp add: upt_rec digit_char_def)
  moreover assume "t < 10"
  then have "unat t \<in> set [0..<10]" by (simp add: word_less_nat_alt)
  ultimately show ?thesis by (auto dest: bspec [of _ _ "unat t"])
qed

lemma digit_char_hex: "t < 16 \<Longrightarrow> hex_digit_value (digit_char t) = Some t \<and> digit_char t \<noteq> 0
    \<and> (digit_char t = 0x30 \<longleftrightarrow> t = 0)"
proof -
  have "\<forall>k \<in> set [0..<16]. hex_digit_value (digit_char (of_nat k)) = Some (of_nat k) \<and> digit_char (of_nat k) \<noteq> 0
      \<and> (digit_char (of_nat k) = 0x30 \<longleftrightarrow> (of_nat k :: u32) = 0)"
    by (simp add: upt_rec digit_char_def hex_digit_value_def)
  moreover assume "t < 16"
  then have "unat t \<in> set [0..<16]" by (simp add: word_less_nat_alt)
  ultimately show ?thesis by (auto dest: bspec [of _ _ "unat t"])
qed

lemma atoi_from_digits:
  assumes "holds r (map digit_char ts)" and "\<forall>t \<in> set ts. t < 10"
  shows "atoi_from r k = Some (foldl (\<lambda>r t. r * 10 + t) k ts)"
  using assms
proof (induction ts arbitrary: r k)
  case Nil
  then show ?case by (subst atoi_from.simps) (simp add: holds_Nil)
next
  case (Cons t ts)
  then have r: "r 0 = Some (digit_char t)" "digit_char t \<noteq> 0" "holds (adv r) (map digit_char ts)" "t < 10"
    by (auto simp: holds_Cons)
  then show ?case using Cons digit_char_dec [OF r(4)]
    by (subst atoi_from.simps) (simp add: not_less)
qed

lemma atoi_hex_from_digits:
  assumes "holds r (map digit_char ts)" and "\<forall>t \<in> set ts. t < 16"
  shows "atoi_hex_from r k = Some (foldl (\<lambda>r t. r * 16 + t) k ts)"
  using assms
proof (induction ts arbitrary: r k)
  case Nil
  then show ?case by (subst atoi_hex_from.simps) (simp add: holds_Nil)
next
  case (Cons t ts)
  then have r: "r 0 = Some (digit_char t)" "digit_char t \<noteq> 0" "holds (adv r) (map digit_char ts)" "t < 16"
    by (auto simp: holds_Cons)
  then show ?case using Cons digit_char_hex [OF r(4)]
    by (subst atoi_hex_from.simps) simp
qed

text \<open>The digits of a number as numbers: their value is the number.\<close>

function digit_values :: "u32 \<Rightarrow> u32 \<Rightarrow> u32 list" where
  "digit_values base v = (if v = 0 \<or> base < 2 then [] else (v mod base) # digit_values base (v div base))"
  by pat_completeness auto
termination
proof (relation "measure (\<lambda>(base, v). unat v)", goal_cases)
  case (2 base v)
  then have "1 < unat base" "0 < unat v" by (auto simp: word_less_nat_alt unat_gt_0)
  then show ?case by (simp add: unat_div)
qed simp

declare digit_values.simps [simp del]

lemma digit_values_step:
  "v \<noteq> 0 \<Longrightarrow> 2 \<le> base \<Longrightarrow> digit_values base v = (v mod base) # digit_values base (v div base)"
  "digit_values base 0 = []"
  by (subst digit_values.simps, simp add: not_less [symmetric])+

lemma digits_values: "digits base v = map digit_char (digit_values base v)"
  by (induction base v rule: digits.induct) (subst digits.simps, subst digit_values.simps, simp)

lemma digit_values_value:
  assumes "2 \<le> base"
  shows "foldl (\<lambda>r t. r * base + t) 0 (rev (digit_values base v)) = v"
  using assms
proof (induction base v rule: digit_values.induct)
  case (1 base v)
  show ?case
  proof (cases "v = 0")
    case False
    then have "foldl (\<lambda>r t. r * base + t) 0 (rev (digit_values base (v div base))) = v div base"
      using "1.IH" "1.prems" by (simp add: not_less)
    then show ?thesis using False "1.prems"
      by (simp add: digit_values_step(1) mult.commute [of "v div base"] word_mod_div_equality mult_div_mod_eq)
  qed (simp add: digit_values_step)
qed

lemma digit_values_range: "\<forall>t \<in> set (digit_values base v). t < base"
proof (induction base v rule: digit_values.induct)
  case (1 base v)
  show ?case
  proof (cases "v = 0 \<or> base < 2")
    case False
    then have "0 < base" by (auto simp: not_less word_gt_0)
    then have "v mod base < base" by (rule word_mod_less_divisor)
    then show ?thesis using False "1.IH" [OF False] by (subst digit_values.simps) simp
  qed (subst digit_values.simps, simp)
qed

lemma digit_values_length: "unat v < unat base ^ k \<Longrightarrow> length (digit_values base v) \<le> k"
proof (induction k arbitrary: v)
  case 0
  then show ?case by (subst digit_values.simps) (simp add: unat_eq_0)
next
  case (Suc k)
  show ?case
  proof (cases "v = 0 \<or> base < 2")
    case False
    then have "0 < unat base" by (auto simp: unat_gt_0)
    then have "unat (v div base) < unat base ^ k" using Suc.prems
      by (simp add: unat_div div_less_iff_less_mult mult.commute)
    from Suc.IH [OF this] False show ?thesis by (subst digit_values.simps) simp
  qed (subst digit_values.simps, simp)
qed

lemma digit_values_lead: "v \<noteq> 0 \<Longrightarrow> 2 \<le> base \<Longrightarrow> digit_values base v \<noteq> [] \<and> last (digit_values base v) \<noteq> 0"
proof (induction base v rule: digit_values.induct)
  case (1 base v)
  show ?case
  proof (cases "v div base = 0")
    case True
    then have "v mod base = v" using mult_div_mod_eq [of base v] by simp
    then show ?thesis using True "1.prems" by (simp add: digit_values_step)
  next
    case False
    have "\<not> (v = 0 \<or> base < 2)" using "1.prems" by (simp add: not_less)
    from "1.IH" [OF this False] "1.prems" show ?thesis by (simp add: digit_values_step(1))
  qed
qed

section \<open>Properties\<close>

lemma utoa_buffer:
  assumes "2 \<le> base" and "v \<noteq> 0" and "length (digit_values base v) < length bs"
  shows "\<exists>bs'. utoa buf_put (\<lambda>b. buf_at b 0) v base bs = Some bs' \<and> length bs' = length bs
    \<and> ((\<forall>t \<in> set (digit_values base v). digit_char t \<noteq> 0) \<longrightarrow>
         holds (buf_at bs' 0) (map digit_char (rev (digit_values base v))))"
proof -
  let ?ds = "digits base v"
  have l: "length ?ds = length (digit_values base v)" by (simp add: digits_values)
  obtain bs' where bs': "utoa buf_put (\<lambda>b. buf_at b 0) v base bs = Some bs'" "length bs' = length bs"
    "\<And>j. j < length bs \<Longrightarrow> bs' ! j = (if j < length ?ds + 1 then (rev ?ds @ [0]) ! j else bs ! j)"
    using rbuf.utoa_writes [OF assms(1,2), of bs] assms(3) l by (auto simp: buf.wrote_def)
  have "holds (buf_at bs' 0) (rev ?ds)" if "\<forall>t \<in> set (digit_values base v). digit_char t \<noteq> 0"
  proof -
    have "0 \<notin> set ?ds" using that by (force simp: digits_values)
    then show ?thesis using bs'(2,3) assms(3) l by (auto simp: holds_def buf_at_def nth_append)
  qed
  then show ?thesis using bs'(1,2) by (auto simp: digits_values rev_map)
qed

text \<open>C27: numbers survive the way through text: whatever number \<open>utoa\<close> writes into a buffer of at least
  11 bytes, \<open>atoi\<close> reads back in base 10 and \<open>atoi_hex\<close> in base 16, and the buffer is not
  overrun.\<close>

theorem utoa_atoi:
  assumes "11 \<le> length bs"
  shows "\<exists>d h. utoa buf_put (\<lambda>b. buf_at b 0) v 10 bs = Some d \<and> length d = length bs
      \<and> atoi (buf_at d 0) = Some v
    \<and> utoa buf_put (\<lambda>b. buf_at b 0) v 16 bs = Some h \<and> length h = length bs
      \<and> atoi_hex (buf_at h 0) = Some v"
proof (cases "v = 0")
  case True
  have "bs \<noteq> []" "1 < length bs" using assms by auto
  let ?d = "bs[0 := 0x30, 1 := 0]"
  have "utoa buf_put (\<lambda>b. buf_at b 0) v base bs = Some ?d" for base
    using True \<open>1 < length bs\<close> \<open>bs \<noteq> []\<close> by (simp add: utoa_def buf_put_def)
  moreover have "holds (buf_at ?d 0) (map digit_char [0])"
    using \<open>1 < length bs\<close> \<open>bs \<noteq> []\<close> by (simp add: holds_def buf_at_def digit_char_def)
  then have "atoi (buf_at ?d 0) = Some 0" "atoi_hex_from (buf_at ?d 0) 0 = Some 0"
    using atoi_from_digits [of "buf_at ?d 0" "[0]" 0] atoi_hex_from_digits [of "buf_at ?d 0" "[0]" 0]
    by (simp_all add: atoi_def)
  moreover have "buf_at ?d 0 0 = Some 0x30" "buf_at ?d 0 1 = Some 0"
    using \<open>1 < length bs\<close> \<open>bs \<noteq> []\<close> by (simp_all add: buf_at_def)
  ultimately show ?thesis using True by (simp add: atoi_hex_def)
next
  case False
  have u: "unat v < 2 ^ LENGTH(32)" by (rule unsigned_less)
  have "unat v < unat (10 :: u32) ^ 10" "unat v < unat (16 :: u32) ^ 8" using u by simp_all
  from this [THEN digit_values_length]
  have l: "length (digit_values 10 v) \<le> 10" "length (digit_values 16 v) \<le> 8" by simp_all
  have r: "t < 10 \<Longrightarrow> digit_char t \<noteq> 0" for t using digit_char_dec [of t] by auto
  obtain d where d: "utoa buf_put (\<lambda>b. buf_at b 0) v 10 bs = Some d" "length d = length bs"
    "holds (buf_at d 0) (map digit_char (rev (digit_values 10 v)))"
    using utoa_buffer [of 10 v bs] False assms l(1) digit_values_range [of 10 v] r by auto
  obtain h where h: "utoa buf_put (\<lambda>b. buf_at b 0) v 16 bs = Some h" "length h = length bs"
    "holds (buf_at h 0) (map digit_char (rev (digit_values 16 v)))"
    using utoa_buffer [of 16 v bs] False assms l(2) digit_values_range [of 16 v] digit_char_hex by auto
  have "atoi (buf_at d 0) = Some v"
    using atoi_from_digits [OF d(3)] digit_values_range [of 10 v] digit_values_value [of 10 v]
    by (simp add: atoi_def)
  moreover have "atoi_hex_from (buf_at h 0) 0 = Some v"
    using atoi_hex_from_digits [OF h(3)] digit_values_range [of 16 v] digit_values_value [of 16 v] by simp
  moreover have "\<exists>c. buf_at h 0 0 = Some c \<and> c \<noteq> 0x30"
  proof -
    obtain t ts where t: "rev (digit_values 16 v) = t # ts" "t \<noteq> 0" "t < 16"
      using digit_values_lead [of v 16] False digit_values_range [of 16 v]
      by (cases "digit_values 16 v" rule: rev_cases) auto
    then show ?thesis using h(3) digit_char_hex [of t] by (auto simp: holds_Cons)
  qed
  ultimately show ?thesis using d(1,2) h(1,2) by (auto simp: atoi_hex_def)
qed

theorem utoa_atoi_witness:
  "\<exists>d. utoa buf_put (\<lambda>b. buf_at b 0) 2048 10 (replicate 16 0) = Some d \<and> atoi (buf_at d 0) = Some 2048"
  using utoa_atoi [of "replicate 16 0" 2048] by auto

text \<open>C28: \<open>strcmp\<close> on two C strings returns, gives 0 exactly when they are equal, and a negative number
  exactly when the first comes first in the order of their signed characters.\<close>

theorem strcmp_order:
  assumes "holds a s" and "holds b t"
  shows "\<exists>d. strcmp a b = Some d \<and> (d = 0 \<longleftrightarrow> s = t)
    \<and> (sint d < 0 \<longleftrightarrow> (s @ [0], t @ [0]) \<in> lexord char_less)"
  using assms by (rule strcmp_ok)

theorem strcmp_order_witness:
  "\<exists>d. strcmp (str_at (lit ''ls'')) (str_at (lit ''lx'')) = Some d \<and> sint d < 0"
  using strcmp_order [of "str_at (lit ''ls'')" "lit ''ls''" "str_at (lit ''lx'')" "lit ''lx''"]
  by (auto simp: lit_simps char_less_def)

text \<open>C29: \<open>strcpy\<close> into an array copies the string, its NUL included, when there is room for all of it, and
  leaves the rest of the array alone; with less room it does not stop at the end of the array.\<close>

theorem strcpy_array:
  assumes "0 \<notin> set s"
  shows "strcpy buf_put (\<lambda>_. str_at s) 0 bs =
     (if length s < length bs then Some (s @ [0] @ drop (length s + 1) bs) else None)"
proof (cases "length s < length bs")
  case True
  have "holds (\<lambda>j. str_at s (0 + j)) s" using assms by simp
  then obtain bs' where bs': "strcpy buf_put (\<lambda>_. str_at s) 0 bs = Some bs'" "length bs' = length bs"
    "\<And>j. j < length bs \<Longrightarrow> bs' ! j = (if j < length s + 1 then (s @ [0]) ! j else bs ! j)"
    using buf.strcpy_writes [of 0 s bs "\<lambda>_. str_at s"] True by (auto simp: buf.wrote_def)
  have "bs' = s @ [0] @ drop (length s + 1) bs"
    by (rule nth_equalityI) (use True bs'(2,3) in \<open>auto simp: nth_append nth_Cons'\<close>)
  with bs'(1) True show ?thesis by simp
next
  case False
  then show ?thesis using buf.strcpy_overruns [of bs 0 s "\<lambda>_. str_at s"] assms by simp
qed

theorem strcpy_array_witness:
  "strcpy buf_put (\<lambda>_. str_at (lit ''ab'')) 0 [9, 9, 9, 9] = Some [0x61, 0x62, 0, 9]
   \<and> strcpy buf_put (\<lambda>_. str_at (lit ''ab'')) 0 [9, 9] = None"
  using strcpy_array [of "lit ''ab''" "[9, 9, 9, 9]"] strcpy_array [of "lit ''ab''" "[9, 9]"]
  by (simp add: lit_simps)

end
