(* ===== verification/Ramfs.thy ===== *)
theory Ramfs
  imports HeapUse Descriptors CString
begin

text \<open>
  \<open>fs/ramfs/ramfs.c\<close>: the file system in kernel memory. A node is 228 bytes of the heap, laid out as
  \<open>ramfs_node_t\<close>; the code reaches every field through a pointer, and so does the model. \<open>None\<close> is a
  call that does not come back: a page fault, or the panics for NULL nodes. A name the code is
  given is a reader: it lies outside the heap (a stack buffer or the line of the shell).
\<close>

section \<open>State and layout\<close>

text \<open>There is one table of operations, \<open>ramfs_ops\<close>, at an address the linker chooses. A slot holds
  NULL or the function of this file.\<close>

record fs = descriptors +
  ramfs_initialized :: bool
  ramfs_ops_at :: u32
  op_lookup :: bool
  op_create :: bool
  op_read :: bool
  op_write :: bool
  op_list :: bool
  mounts :: "nat \<Rightarrow> u32 \<times> u32"
  mount_count :: nat
  vfs_root :: u32

abbreviation VFS_FILE :: u32 where "VFS_FILE \<equiv> 1"
abbreviation VFS_DIR :: u32 where "VFS_DIR \<equiv> 2"

abbreviation NODE_FLAGS :: u32 where "NODE_FLAGS \<equiv> 64"
abbreviation NODE_PARENT :: u32 where "NODE_PARENT \<equiv> 72"
abbreviation NODE_PRIVATE :: u32 where "NODE_PRIVATE \<equiv> 76"
abbreviation NODE_OPS :: u32 where "NODE_OPS \<equiv> 80"
abbreviation NODE_DATA :: u32 where "NODE_DATA \<equiv> 84"
abbreviation NODE_SIZE :: u32 where "NODE_SIZE \<equiv> 88"
abbreviation NODE_CAPACITY :: u32 where "NODE_CAPACITY \<equiv> 92"
abbreviation NODE_CHILDREN :: u32 where "NODE_CHILDREN \<equiv> 96"
abbreviation NODE_COUNT :: u32 where "NODE_COUNT \<equiv> 224"
abbreviation NODE_SIZEOF :: nat where "NODE_SIZEOF \<equiv> 228"

section \<open>Operations\<close>

definition ramfs_init_ops :: "'a fs_scheme \<Rightarrow> 'a fs_scheme" where
  "ramfs_init_ops s =
     (if ramfs_initialized s then s
      else s\<lparr>op_lookup := True, op_create := True, op_read := True, op_write := True, op_list := True,
             ramfs_initialized := True\<rparr>)"

fun lookup_child :: "mem \<Rightarrow> u32 \<Rightarrow> reader \<Rightarrow> nat \<Rightarrow> nat \<Rightarrow> u32 option" where
  "lookup_child m rnode name i 0 = Some 0"
| "lookup_child m rnode name i (Suc k) = do {
     child \<leftarrow> ld32 m (rnode + NODE_CHILDREN + 4 * of_nat i);
     d \<leftarrow> strcmp (mem_at m child) name;
     if d = 0 then Some child else lookup_child m rnode name (i + 1) k }"

definition ramfs_lookup :: "u32 \<Rightarrow> reader \<Rightarrow> 'a fs_scheme \<Rightarrow> u32 option" where
  "ramfs_lookup node name s =
     (if node = 0 then None
      else do {
        rnode \<leftarrow> ld32 (ram s) (node + NODE_PRIVATE);
        if rnode = 0 then None
        else do {
          child_count \<leftarrow> ld32 (ram s) (rnode + NODE_COUNT);
          lookup_child (ram s) rnode name 0 (unat child_count) } })"

text \<open>A directory called \<open>/\<close> on fresh zeroed memory: the common part of the two root constructors.\<close>

definition new_root :: "'a fs_scheme \<Rightarrow> (u32 \<times> 'a fs_scheme) option" where
  "new_root s = do {
     (root, s) \<leftarrow> kmalloc (of_nat NODE_SIZEOF) s;
     m \<leftarrow> memset (mem_put root) 0 0 NODE_SIZEOF (ram s);
     m \<leftarrow> strcpy (mem_put root) (\<lambda>_. str_at (lit ''/'')) 0 m;
     m \<leftarrow> st32 (root + NODE_FLAGS) VFS_DIR m;
     m \<leftarrow> st32 (root + NODE_PRIVATE) root m;
     m \<leftarrow> st32 (root + NODE_OPS) (ramfs_ops_at s) m;
     Some (root, s\<lparr>ram := m\<rparr>) }"

definition ramfs_init :: "'a fs_scheme \<Rightarrow> 'a fs_scheme option" where
  "ramfs_init s = do {
     (root, s) \<leftarrow> new_root s;
     Some (s\<lparr>op_lookup := True, op_create := True, op_write := True, op_read := True, vfs_root := root\<rparr>) }"

definition ramfs_create :: "u32 \<Rightarrow> reader \<Rightarrow> u32 \<Rightarrow> 'a fs_scheme \<Rightarrow> (i32 \<times> 'a fs_scheme) option" where
  "ramfs_create parent name flags s =
     (if parent = 0 then None
      else do {
        pnode \<leftarrow> ld32 (ram s) (parent + NODE_PRIVATE);
        if pnode = 0 then None
        else do {
          child_count \<leftarrow> ld32 (ram s) (pnode + NODE_COUNT);
          if 32 \<le> child_count then Some (- 1, s)
          else do {
            (child, s) \<leftarrow> kmalloc (of_nat NODE_SIZEOF) s;
            m \<leftarrow> memset (mem_put child) 0 0 NODE_SIZEOF (ram s);
            m \<leftarrow> strcpy (mem_put child) (\<lambda>_. name) 0 m;
            m \<leftarrow> st32 (child + NODE_FLAGS) flags m;
            m \<leftarrow> st32 (child + NODE_PARENT) parent m;
            m \<leftarrow> st32 (child + NODE_PRIVATE) child m;
            ops \<leftarrow> ld32 m (parent + NODE_OPS);
            m \<leftarrow> st32 (child + NODE_OPS) ops m;
            child_count \<leftarrow> ld32 m (pnode + NODE_COUNT);
            m \<leftarrow> st32 (pnode + NODE_CHILDREN + 4 * child_count) child m;
            m \<leftarrow> st32 (pnode + NODE_COUNT) (child_count + 1) m;
            Some (0, s\<lparr>ram := m\<rparr>) } } })"

text \<open>Growing a file moves its bytes to a new buffer; the old one is not released.\<close>

definition ramfs_grow :: "u32 \<Rightarrow> u32 \<Rightarrow> 'a fs_scheme \<Rightarrow> 'a fs_scheme option" where
  "ramfs_grow rnode new_capacity s = do {
     (new_data, s) \<leftarrow> kmalloc new_capacity s;
     data \<leftarrow> ld32 (ram s) (rnode + NODE_DATA);
     sz \<leftarrow> ld32 (ram s) (rnode + NODE_SIZE);
     m \<leftarrow> (if data \<noteq> 0 then memcpy (mem_put new_data) (\<lambda>m. mem_at m data) 0 (unat sz) (ram s)
           else Some (ram s));
     m \<leftarrow> st32 (rnode + NODE_DATA) new_data m;
     m \<leftarrow> st32 (rnode + NODE_CAPACITY) new_capacity m;
     Some (s\<lparr>ram := m\<rparr>) }"

definition ramfs_put :: "u32 \<Rightarrow> u32 \<Rightarrow> u32 \<Rightarrow> reader \<Rightarrow> 'a fs_scheme \<Rightarrow> 'a fs_scheme option" where
  "ramfs_put rnode offset sz buffer s = do {
     data \<leftarrow> ld32 (ram s) (rnode + NODE_DATA);
     m \<leftarrow> memcpy (mem_put (data + offset)) (\<lambda>_. buffer) 0 (unat sz) (ram s);
     old \<leftarrow> ld32 m (rnode + NODE_SIZE);
     m \<leftarrow> (if old < offset + sz then st32 (rnode + NODE_SIZE) (offset + sz) m else Some m);
     Some (s\<lparr>ram := m\<rparr>) }"

definition ramfs_write :: "u32 \<Rightarrow> u32 \<Rightarrow> u32 \<Rightarrow> reader \<Rightarrow> 'a fs_scheme \<Rightarrow> (i32 \<times> 'a fs_scheme) option" where
  "ramfs_write node offset sz buffer s =
     (if node = 0 then None
      else do {
        rnode \<leftarrow> ld32 (ram s) (node + NODE_PRIVATE);
        if rnode = 0 then None
        else do {
          flags \<leftarrow> ld32 (ram s) (node + NODE_FLAGS);
          if flags AND VFS_DIR \<noteq> 0 then Some (- 1, s)
          else do {
            capacity \<leftarrow> ld32 (ram s) (rnode + NODE_CAPACITY);
            s \<leftarrow> (if capacity < offset + sz then ramfs_grow rnode (offset + sz) s else Some s);
            s \<leftarrow> ramfs_put rnode offset sz buffer s;
            Some (sz, s) } } })"

text \<open>The buffer read into is an object of the caller.\<close>

definition ramfs_read :: "u32 \<Rightarrow> u32 \<Rightarrow> u32 \<Rightarrow> u8 list \<Rightarrow> 'a fs_scheme \<Rightarrow> (i32 \<times> u8 list) option" where
  "ramfs_read node offset sz buffer s = do {
     rnode \<leftarrow> ld32 (ram s) (node + NODE_PRIVATE);
     fsize \<leftarrow> ld32 (ram s) (rnode + NODE_SIZE);
     if fsize \<le> offset then Some (0, buffer)
     else let sz = (if fsize < offset + sz then fsize - offset else sz)
     in do {
       data \<leftarrow> ld32 (ram s) (rnode + NODE_DATA);
       buffer \<leftarrow> memcpy buf_put (\<lambda>_. mem_at (ram s) (data + offset)) 0 (unat sz) buffer;
       Some (sz, buffer) } }"

definition ramfs_create_instance :: "'a fs_scheme \<Rightarrow> (u32 \<times> 'a fs_scheme) option" where
  "ramfs_create_instance s = new_root (ramfs_init_ops s)"

text \<open>Printing a string in memory.\<close>

partial_function (option) read_str :: "reader \<Rightarrow> cstr option" where
  "read_str r = do { c \<leftarrow> r 0; if c = 0 then Some [] else do { cs \<leftarrow> read_str (adv r); Some (c # cs) } }"

fun list_children :: "u32 \<Rightarrow> nat \<Rightarrow> nat \<Rightarrow> 'a fs_scheme \<Rightarrow> 'a fs_scheme option" where
  "list_children rnode i 0 s = Some s"
| "list_children rnode i (Suc k) s = do {
     child \<leftarrow> ld32 (ram s) (rnode + NODE_CHILDREN + 4 * of_nat i);
     name \<leftarrow> read_str (mem_at (ram s) child);
     list_children rnode (i + 1) k (vga_print (lit ''\<newline>'') (vga_print name s)) }"

definition ramfs_list :: "u32 \<Rightarrow> 'a fs_scheme \<Rightarrow> (i32 \<times> 'a fs_scheme) option" where
  "ramfs_list node s = do {
     rnode \<leftarrow> ld32 (ram s) (node + NODE_PRIVATE);
     child_count \<leftarrow> ld32 (ram s) (rnode + NODE_COUNT);
     s \<leftarrow> list_children rnode 0 (unat child_count) s;
     Some (0, s) }"

section \<open>Memory that differs inside a set of addresses only\<close>

definition same_outside :: "nat set \<Rightarrow> mem \<Rightarrow> mem \<Rightarrow> bool" where
  "same_outside X m m' \<longleftrightarrow> (\<forall>x. unat x \<notin> X \<longrightarrow> m' x = m x)"

definition span :: "u32 \<Rightarrow> nat \<Rightarrow> nat set" where
  "span a n = {unat a ..< unat a + n}"

lemma same_outside_refl [simp]: "same_outside X m m"
  by (simp add: same_outside_def)

lemma same_outside_trans: "same_outside X m m' \<Longrightarrow> same_outside X m' m'' \<Longrightarrow> same_outside X m m''"
  by (simp add: same_outside_def)

lemma same_outside_mono: "same_outside X m m' \<Longrightarrow> X \<subseteq> Y \<Longrightarrow> same_outside Y m m'"
  by (auto simp: same_outside_def)

lemma same_outside_st32: "st32 a v m = Some m' \<Longrightarrow> same_outside (span a 4) m m'"
proof -
  assume "st32 a v m = Some m'"
  then have a: "unat a + 4 \<le> 0x800000" "m' = put32 a v m" by (auto simp: st32_def accessible_def split: if_splits)
  then show ?thesis
    unfolding same_outside_def span_def a(2) by (auto intro!: put32_byte)
qed

lemma same_outside_region: "outside a n m' = outside a n m \<Longrightarrow> accessible a n \<Longrightarrow> same_outside (span a n) m m'"
  unfolding same_outside_def
proof (intro allI impI)
  fix x :: u32 assume o: "outside a n m' = outside a n m" and a: "accessible a n" and x: "unat x \<notin> span a n"
  have "x \<noteq> a + of_nat i" if "i < n" for i
    using region_offset(1) [OF a that] x that by (auto simp: span_def)
  then have "\<not> (\<exists>i < n. x = a + of_nat i)" by blast
  then show "m' x = m x" using fun_cong [OF o, of x] by (simp only: outside_def if_False)
qed

lemma ld32_outside:
  assumes "same_outside X m m'" and "span a 4 \<inter> X = {}"
  shows "ld32 m' a = ld32 m a"
proof (cases "accessible a 4")
  case True
  then have "unat (a + of_nat k) = unat a + k" if "k < 4" for k
    using that by (simp add: accessible_def unat_word_ariths)
  from this [of 0] this [of 1] this [of 2] this [of 3]
  have "m' a = m a" "m' (a + 1) = m (a + 1)" "m' (a + 2) = m (a + 2)" "m' (a + 3) = m (a + 3)"
    using assms by (auto simp: same_outside_def span_def disjoint_iff)
  then show ?thesis by (simp add: ld32_def get32_def)
qed (simp add: ld32_def)

lemma holds_outside:
  assumes "same_outside X m m'" and "holds (mem_at m a) s" and "span a (length s + 1) \<inter> X = {}"
    and "unat a + length s < 2 ^ 32"
  shows "holds (mem_at m' a) s"
proof -
  have "mem_at m' a i = mem_at m a i" if "i \<le> length s" for i
  proof -
    have "unat (a + of_nat i) = unat a + i" using that assms(4) by (simp add: unat_word_ariths)
    then have "m' (a + of_nat i) = m (a + of_nat i)"
      using assms(1,3) that by (auto simp: same_outside_def span_def disjoint_iff)
    then show ?thesis by (simp add: mem_at_def ld8_def)
  qed
  then show ?thesis using assms(2) by (simp add: holds_def)
qed

section \<open>Writing into payloads keeps the heap well formed\<close>

lemma chained_separate:
  assumes "chained bs e" and "b \<in> set bs" and "c \<in> set bs"
  shows "b = c \<or> baddr b + 5 + bsize b \<le> baddr c \<or> baddr c + 5 + bsize c \<le> baddr b"
  using assms
proof (induction bs)
  case (Cons a bs)
  have "baddr a + 5 + bsize a \<le> baddr d" if "d \<in> set bs" for d
    using Cons.prems(1) chained_in(2) [of bs e d] that by simp
  then show ?case using Cons by auto
qed simp

lemma wd_outside:
  assumes "same_outside X m m'" and "{4 * k ..< 4 * k + 4} \<inter> X = {}" and "k < 0x200000"
  shows "wd m' k = wd m k"
proof -
  have "unat (adr k + of_nat i) = 4 * k + i" if "i < 4" for i
    using that assms(3) by (simp add: unat_word_ariths unat_adr)
  from this [of 0] this [of 1] this [of 2] this [of 3]
  have "m' (adr k) = m (adr k)" "m' (adr k + 1) = m (adr k + 1)" "m' (adr k + 2) = m (adr k + 2)" "m' (adr k + 3) = m (adr k + 3)"
    using assms(1,2) by (auto simp: same_outside_def disjoint_iff)
  then show ?thesis unfolding wd_def by (rule get32_cong)
qed

lemma heap_rep_payload:
  assumes rep: "heap_rep a s" and m: "same_outside (\<Union>(used (fst a))) (ram s) m"
  shows "heap_rep a (s\<lparr>ram := m\<rparr>)"
proof -
  obtain bs where bs: "fst a = bs" "heap_inv bs s" using rep by (simp add: heap_rep_def)
  obtain e where e: "heap_end s = adr e" "e < 0x200000" "0x100000 \<le> e" "chained bs e"
    using heap_inv_end [OF bs(2)] by metis
  have free: "x \<notin> \<Union>(used bs)" if "b \<in> set bs" "4 * baddr b \<le> x \<and> x < 4 * (baddr b + 5)
      \<or> 4 * (baddr b + 5 + bsize b) \<le> x \<and> x < 4 * (baddr b + 5 + bsize b + 5)" for b x
  proof
    assume "x \<in> \<Union>(used bs)"
    then obtain c where c: "c \<in> set bs" "4 * (baddr c + 5) \<le> x" "x < 4 * (baddr c + 5 + bsize c)"
      by (auto simp: used_def payload_def)
    from chained_separate [OF e(4) that(1) c(1)] that(2) c(2,3) show False by auto
  qed
  have bound: "baddr b + 5 + bsize b \<le> e" if "b \<in> set bs" for b using chained_in(3) [OF e(4) that] .
  have "linked m pv bs nx = linked (ram s) pv bs nx" for pv nx
  proof (rule linked_cong)
    fix b and k :: nat assume b: "b \<in> set bs" "k < 5"
    have "{4 * (baddr b + k) ..< 4 * (baddr b + k) + 4} \<inter> \<Union>(used bs) = {}"
      using free [OF b(1)] b(2) by (auto simp: disjoint_iff)
    then show "wd m (baddr b + k) = wd (ram s) (baddr b + k)"
      using wd_outside [OF m [unfolded bs(1)]] bound [OF b(1)] b(2) e(2) by auto
  qed
  moreover have "tails m bs = tails (ram s) bs"
  proof -
    have "wd m (baddr b + 5 + bsize b) = wd (ram s) (baddr b + 5 + bsize b)" if "b \<in> set bs" for b
    proof -
      have "{4 * (baddr b + 5 + bsize b) ..< 4 * (baddr b + 5 + bsize b) + 4} \<inter> \<Union>(used bs) = {}"
        using free [OF that] by (auto simp: disjoint_iff)
      then show ?thesis using wd_outside [OF m [unfolded bs(1)]] bound [OF that] e(2) by auto
    qed
    then show ?thesis by (simp add: tails_def)
  qed
  ultimately show ?thesis using rep bs by (simp add: heap_rep_def heap_inv_def)
qed

text \<open>A part of the state that is none of the three heap fields is left alone by the allocator, and by the operations
  of this file.\<close>

locale heap_frame =
  fixes part :: "'a heap_scheme \<Rightarrow> 'b"
  assumes part_ram [simp]: "part (s\<lparr>ram := m\<rparr>) = part s"
    and part_end [simp]: "part (s\<lparr>heap_end := e\<rparr>) = part s"
    and part_head [simp]: "part (s\<lparr>heap_head := h\<rparr>) = part s"
begin

lemma kmalloc_part:
  assumes "kmalloc sz s = Some (p, s')"
  shows "part s' = part s"
proof -
  have first: "part t = part s" if "kmalloc_first n s = Some (p, t)" for n p t
    using that by (auto simp: kmalloc_first_def Let_def bind_Some_iff split: if_splits)
  have take: "part t = part s" if "kmalloc_take n c s = Some (p, t)" for n c p t
    using that by (auto simp: kmalloc_take_def Let_def bind_Some_iff)
  have append: "part t = part s" if "kmalloc_append n c s = Some (p, t)" for n c p t
    using that by (auto simp: kmalloc_append_def Let_def bind_Some_iff split: if_splits)
  show ?thesis
    using assms first take append
    by (auto simp: kmalloc_def Let_def bind_Some_iff split: if_splits search.splits) (metis search.exhaust)
qed

end

locale fs_frame = heap_frame part
  for part :: "'a fs_scheme \<Rightarrow> 'b"
begin

lemma new_root_part: "new_root s = Some (r, s') \<Longrightarrow> part s' = part s"
  by (auto simp: new_root_def bind_Some_iff dest!: kmalloc_part)

lemma create_part: "ramfs_create d name flags s = Some (r, s') \<Longrightarrow> part s' = part s"
  by (auto simp: ramfs_create_def bind_Some_iff dest!: kmalloc_part split: if_splits)

lemma write_part: "ramfs_write x off sz b s = Some (r, s') \<Longrightarrow> part s' = part s"
proof -
  have grow: "ramfs_grow y c s = Some t \<Longrightarrow> part t = part s" for y c s t
    by (clarsimp simp: ramfs_grow_def bind_Some_iff simp del: split_paired_Ex) (drule kmalloc_part, simp)
  have put: "ramfs_put y k n d s = Some t \<Longrightarrow> part t = part s" for y k n d s t
    by (clarsimp simp: ramfs_put_def bind_Some_iff)
  show "ramfs_write x off sz b s = Some (r, s') \<Longrightarrow> part s' = part s"
    by (auto simp: ramfs_write_def bind_Some_iff dest!: grow put split: if_splits)
qed

end

interpretation more: heap_frame heap.more
  by unfold_locales simp_all

lemmas kmalloc_more = more.kmalloc_part

section \<open>Nodes in the heap\<close>

definition owns :: "block list \<times> nat \<Rightarrow> u32 \<Rightarrow> nat \<Rightarrow> bool" where
  "owns a x n \<longleftrightarrow> (\<exists>P \<in> used (fst a). span x n \<subseteq> P)"

lemma owns_accessible:
  assumes "heap_rep a s" and "owns a x n" and "0 < n"
  shows "accessible x n" "x \<noteq> 0" "unat x + n \<le> 0x800000"
proof -
  obtain P where P: "P \<in> used (fst a)" "span x n \<subseteq> P" using assms(2) by (auto simp: owns_def)
  obtain e where e: "e < 0x200000" "chained (fst a) e"
    using assms(1) heap_inv_end unfolding heap_rep_def by metis
  have "unat x \<in> P" "unat x + n - 1 \<in> P" using P(2) assms(3) by (auto simp: span_def)
  then have "0x400014 \<le> unat x" "unat x + n - 1 < 4 * e" using used_bounds [OF e(2) P(1)] by blast+
  then show "accessible x n" "x \<noteq> 0" "unat x + n \<le> 0x800000" using e(1) assms(3) by (auto simp: accessible_def)
qed

text \<open>A place inside an accessible object.\<close>

lemma inside:
  assumes "accessible x n" and "k + j \<le> n"
  shows "unat (x + of_nat k) = unat x + k" "span (x + of_nat k) j = {unat x + k ..< unat x + k + j}"
    "0 < j \<Longrightarrow> accessible (x + of_nat k) j" "span (x + of_nat k) j \<subseteq> span x n"
proof -
  show u: "unat (x + of_nat k) = unat x + k" using assms by (simp add: accessible_def unat_word_ariths)
  show "span (x + of_nat k) j = {unat x + k ..< unat x + k + j}" by (simp add: span_def u)
  show "0 < j \<Longrightarrow> accessible (x + of_nat k) j" using assms by (simp add: accessible_def u)
  show "span (x + of_nat k) j \<subseteq> span x n" using assms(2) by (auto simp: span_def u)
qed

lemma ld32_st32: "st32 a v m = Some m' \<Longrightarrow> ld32 m' a = Some v"
  by (auto simp: st32_def ld32_def split: if_splits)

text \<open>A directory: the addresses and the names of its entries, in order.\<close>

definition dir_rep :: "block list \<times> nat \<Rightarrow> 'a fs_scheme \<Rightarrow> u32 \<Rightarrow> u32 list \<Rightarrow> cstr list \<Rightarrow> bool" where
  "dir_rep a s d cs ns \<longleftrightarrow>
     heap_rep a s \<and> owns a d NODE_SIZEOF
     \<and> ld32 (ram s) (d + NODE_PRIVATE) = Some d
     \<and> ld32 (ram s) (d + NODE_COUNT) = Some (of_nat (length cs))
     \<and> length cs \<le> 32 \<and> length ns = length cs
     \<and> (\<forall>i < length cs. ld32 (ram s) (d + NODE_CHILDREN + 4 * of_nat i) = Some (cs ! i)
          \<and> owns a (cs ! i) NODE_SIZEOF \<and> span (cs ! i) NODE_SIZEOF \<inter> span d NODE_SIZEOF = {}
          \<and> length (ns ! i) < 64 \<and> holds (mem_at (ram s) (cs ! i)) (ns ! i))"

definition entry :: "u32 list \<Rightarrow> cstr list \<Rightarrow> cstr \<Rightarrow> u32" where
  "entry cs ns nm = (case map_of (zip ns cs) nm of None \<Rightarrow> 0 | Some c \<Rightarrow> c)"

lemma lookup_child_finds:
  assumes "\<And>j. j < k \<Longrightarrow> ld32 m (d + NODE_CHILDREN + 4 * of_nat (i + j)) = Some (cs ! j) \<and> holds (mem_at m (cs ! j)) (ns ! j)"
    and "length cs = k" "length ns = k" and nm: "holds name nm"
  shows "lookup_child m d name i k = Some (entry cs ns nm)"
  using assms(1-3)
proof (induction k arbitrary: i cs ns)
  case 0
  then show ?case by (simp add: entry_def)
next
  case (Suc k)
  obtain c cs' n ns' where c: "cs = c # cs'" "ns = n # ns'" using Suc.prems(2,3) by (metis length_Suc_conv)
  have h: "ld32 m (d + NODE_CHILDREN + 4 * of_nat i) = Some c" "holds (mem_at m c) n"
    using Suc.prems(1) [of 0] c by simp_all
  obtain r where r: "strcmp (mem_at m c) name = Some r" "r = 0 \<longleftrightarrow> n = nm"
    using strcmp_zero [OF h(2) nm] by blast
  have "lookup_child m d name (i + 1) k = Some (entry cs' ns' nm)"
  proof (rule Suc.IH)
    fix j assume "j < k"
    then show "ld32 m (d + NODE_CHILDREN + 4 * of_nat (i + 1 + j)) = Some (cs' ! j) \<and> holds (mem_at m (cs' ! j)) (ns' ! j)"
      using Suc.prems(1) [of "Suc j"] c by simp
  qed (use Suc.prems c in simp_all)
  then show ?case using h r c by (auto simp: entry_def)
qed

lemma lookup_dir:
  assumes d: "dir_rep a s d cs ns" and nm: "holds name nm"
  shows "ramfs_lookup d name s = Some (entry cs ns nm)"
proof -
  have "d \<noteq> 0" using d owns_accessible [of a s d NODE_SIZEOF] by (simp add: dir_rep_def)
  moreover have "lookup_child (ram s) d name 0 (length cs) = Some (entry cs ns nm)"
    by (rule lookup_child_finds [OF _ refl _ nm]) (use d in \<open>auto simp: dir_rep_def\<close>)
  moreover have "unat (of_nat (length cs) :: u32) = length cs"
    using d by (intro unat_of_nat_small) (simp add: dir_rep_def)
  ultimately show ?thesis using d by (simp add: ramfs_lookup_def dir_rep_def)
qed

text \<open>A fresh node: zeroed, named, and the fields the constructors set.\<close>

lemma get32_zero: "(\<And>i. i < 4 \<Longrightarrow> m (a + of_nat i) = 0) \<Longrightarrow> get32 m a = 0"
proof -
  assume z: "\<And>i. i < 4 \<Longrightarrow> m (a + of_nat i) = 0"
  from z [of 0] z [of 1] z [of 2] z [of 3] show ?thesis by (simp add: get32_def)
qed

lemma mem_memset:
  assumes "accessible a n"
  shows "\<exists>m'. memset (mem_put a) v 0 n m = Some m' \<and> same_outside (span a n) m m'
    \<and> (\<forall>j < n. m' (a + of_nat j) = ucast v)"
proof -
  have "region_len a n = n" using assms by (simp add: region_len_def)
  then show ?thesis
    using region.memset_writes [where a = a and na = n and i = 0 and n = n and v = v and d = m,
        unfolded region.wrote_def] assms
    by (auto intro: same_outside_region)
qed

lemma null_memset: "0 < n \<Longrightarrow> memset (mem_put 0) v 0 n m = None"
  by (cases n) (simp_all add: mem_put_def st8_def accessible_def)

lemma mem_strcpy:
  assumes "accessible a n" and "length nm < n" and "holds name nm"
  shows "\<exists>m'. strcpy (mem_put a) (\<lambda>_. name) 0 m = Some m' \<and> same_outside (span a n) m m'
    \<and> (\<forall>j < n. m' (a + of_nat j) = (if j \<le> length nm then (nm @ [0]) ! j else m (a + of_nat j)))"
proof -
  have "region_len a n = n" using assms by (simp add: region_len_def)
  then show ?thesis
    using region.strcpy_writes [where a = a and n = n and i = 0 and s = nm and src = "\<lambda>_. name" and d = m,
        unfolded region.wrote_def] assms
    by (auto simp: less_Suc_eq_le intro: same_outside_region)
qed

lemma mem_memcpy:
  assumes "accessible a n"
    and "\<And>m' j. same_outside (span a n) m m' \<Longrightarrow> j < n \<Longrightarrow> src m' j = Some (f j)"
  shows "\<exists>m'. memcpy (mem_put a) src 0 n m = Some m' \<and> same_outside (span a n) m m'
    \<and> (\<forall>j < n. m' (a + of_nat j) = f j)"
proof -
  have l: "region_len a n = n" using assms by (simp add: region_len_def)
  have "\<exists>d'. memcpy (mem_put a) src 0 n m = Some d' \<and> outside a n d' = outside a n m
      \<and> (\<forall>j < n. d' (a + of_nat j) = f j)"
    using region.memcpy_writes [where a = a and na = n and i = 0 and n = n and src = src and f = f and d = m,
        unfolded region.wrote_def, unfolded l] assms same_outside_region by simp
  then show ?thesis using assms(1) same_outside_region by blast
qed

lemma node_cleared:
  assumes acc: "accessible p NODE_SIZEOF" and nm: "holds name nm" and len: "length nm < 64"
  obtains m1 m2 where "memset (mem_put p) 0 0 NODE_SIZEOF m = Some m1" "strcpy (mem_put p) (\<lambda>_. name) 0 m1 = Some m2"
    "same_outside (span p NODE_SIZEOF) m m2" "holds (mem_at m2 p) nm"
    "\<And>k. 64 \<le> k \<Longrightarrow> k + 4 \<le> NODE_SIZEOF \<Longrightarrow> ld32 m2 (p + of_nat k) = Some 0"
proof -
  obtain m1 where m1: "memset (mem_put p) 0 0 NODE_SIZEOF m = Some m1" "same_outside (span p NODE_SIZEOF) m m1"
    "\<forall>j < NODE_SIZEOF. m1 (p + of_nat j) = 0"
    using mem_memset [OF acc, of 0 m] by auto
  have "length nm < NODE_SIZEOF" using len by simp
  then obtain m2 where m2: "strcpy (mem_put p) (\<lambda>_. name) 0 m1 = Some m2" "same_outside (span p NODE_SIZEOF) m1 m2"
    "\<forall>j < NODE_SIZEOF. m2 (p + of_nat j) = (if j \<le> length nm then (nm @ [0]) ! j else m1 (p + of_nat j))"
    using mem_strcpy [OF acc _ nm, of m1] by auto
  have "mem_at m2 p i = Some ((nm @ [0]) ! i)" if "i \<le> length nm" for i
    using that len m2(3) inside(3) [OF acc, of i 1] by (simp add: mem_at_def ld8_def)
  then have "holds (mem_at m2 p) nm" using nm by (auto simp: holds_def nth_append)
  moreover have "ld32 m2 (p + of_nat k) = Some 0" if k: "64 \<le> k" "k + 4 \<le> NODE_SIZEOF" for k
  proof -
    have "get32 m2 (p + of_nat k) = 0"
    proof (rule get32_zero)
      fix i :: nat assume "i < 4"
      then have "k + i < NODE_SIZEOF" "\<not> k + i \<le> length nm" using len k by simp_all
      then have "m2 (p + of_nat (k + i)) = 0" using m1(3) m2(3) by metis
      then show "m2 (p + of_nat k + of_nat i) = 0" by (simp add: add.assoc)
    qed
    then show ?thesis using inside(3) [OF acc k(2)] by (simp add: ld32_def)
  qed
  ultimately show ?thesis using that m1(1) m2(1) same_outside_trans [OF m1(2) m2(2)] by blast
qed

text \<open>Storing a field of a node: it reads back, the other fields and everything outside stay.\<close>

lemma set_field:
  assumes acc: "accessible p n" and k: "k + 4 \<le> n"
  shows "\<exists>m'. st32 (p + of_nat k) v m = Some m' \<and> ld32 m' (p + of_nat k) = Some v
    \<and> same_outside {unat p + k ..< unat p + (k + 4)} m m'"
proof -
  have "st32 (p + of_nat k) v m = Some (put32 (p + of_nat k) v m)"
    using inside(3) [OF acc k] by (simp add: st32_ok)
  then show ?thesis using ld32_st32 same_outside_st32 inside(2) [OF acc k] by (metis add.assoc)
qed

lemma keep_field:
  assumes acc: "accessible p n" and k: "k + 4 \<le> n" and m: "same_outside X m m'"
    and "{unat p + k ..< unat p + (k + 4)} \<inter> X = {}"
  shows "ld32 m' (p + of_nat k) = ld32 m (p + of_nat k)"
  by (rule ld32_outside [OF m]) (use inside(2) [OF acc k] assms(4) in \<open>simp add: add.assoc\<close>)

lemma sub_field: "k + 4 \<le> n \<Longrightarrow> {unat d + k ..< unat d + (k + 4)} \<subseteq> span d n"
  by (auto simp: span_def)

lemma keep_inside:
  assumes "accessible p n" and "k + 4 \<le> n" and "same_outside X m m'" and "span p n \<inter> X = {}"
  shows "ld32 m' (p + of_nat k) = ld32 m (p + of_nat k)"
  by (rule keep_field [OF assms(1-3)]) (use sub_field [OF assms(2), of p] assms(4) in blast)

section \<open>Allocation as the file system sees it\<close>

lemma owns_mono: "owns a x n \<Longrightarrow> used (fst a) \<subseteq> used (fst a') \<Longrightarrow> owns a' x n"
  by (auto simp: owns_def)

lemma owns_span: "owns a x n \<Longrightarrow> span x n \<subseteq> \<Union>(used (fst a))"
  by (auto simp: owns_def)

lemma kmalloc_owns:
  assumes rep: "heap_rep a s" and n: "0 < n" "n < 2 ^ 31"
  obtains (null) s' where "kmalloc (of_nat n) s = Some (0, s')"
      "same_outside (- \<Union>(used (fst a))) (ram s) (ram s')"
  | (new) p s' a' where "kmalloc (of_nat n) s = Some (p, s')" "heap_rep a' s'" "owns a' p n" "accessible p n"
      "span p n \<inter> \<Union>(used (fst a)) = {}" "used (fst a) \<subseteq> used (fst a')"
      "same_outside (- \<Union>(used (fst a))) (ram s) (ram s')" "heap.more s' = heap.more s"
proof -
  have u: "unat (of_nat n :: u32) = n" using n(2) by (intro unat_of_nat_small) simp
  obtain p s' a' where k: "kmalloc (of_nat n) s = Some (p, s') \<and> heap_rep a' s' \<and>
    (p = 0 \<and> used (fst a') = used (fst a)
       \<or> p \<noteq> 0 \<and> (\<exists>P. {unat p ..< unat p + n} \<subseteq> P \<and> P \<inter> \<Union>(used (fst a)) = {} \<and> used (fst a') = insert P (used (fst a))))
    \<and> (\<forall>x \<in> \<Union>(used (fst a)). ram s' (of_nat x) = ram s (of_nat x))"
    using kmalloc_fresh_payload [OF rep, of "of_nat n", unfolded u, OF n(2)] by (elim exE) (rule that)
  note k = k [THEN conjunct1] k [THEN conjunct2, THEN conjunct1] k [THEN conjunct2, THEN conjunct2, THEN conjunct1]
    k [THEN conjunct2, THEN conjunct2, THEN conjunct2]
  have same: "same_outside (- \<Union>(used (fst a))) (ram s) (ram s')"
    unfolding same_outside_def
  proof (intro allI impI)
    fix x :: u32 assume "unat x \<notin> - \<Union>(used (fst a))"
    then show "ram s' x = ram s x" using k(4) [rule_format, of "unat x"] by simp
  qed
  show ?thesis
  proof (cases "p = 0")
    case True
    then show ?thesis using k(1) null same by simp
  next
    case False
    then obtain P where P: "span p n \<subseteq> P" "P \<inter> \<Union>(used (fst a)) = {}" "used (fst a') = insert P (used (fst a))"
      using k(3) by (auto simp: span_def)
    then have o: "owns a' p n" by (auto simp: owns_def)
    show ?thesis
      using new [OF k(1,2) o owns_accessible(1) [OF k(2) o n(1)]] P kmalloc_more [OF k(1)] same by blast
  qed
qed

text \<open>A file: the buffer of its bytes, the capacity of the buffer and the bytes. Before the first write
  there is no buffer.\<close>

definition file_rep :: "block list \<times> nat \<Rightarrow> 'a fs_scheme \<Rightarrow> u32 \<Rightarrow> u32 \<Rightarrow> nat \<Rightarrow> u8 list \<Rightarrow> bool" where
  "file_rep a s f p cap data \<longleftrightarrow>
     heap_rep a s \<and> owns a f NODE_SIZEOF \<and> ld32 (ram s) (f + NODE_PRIVATE) = Some f
     \<and> (\<exists>fl. ld32 (ram s) (f + NODE_FLAGS) = Some fl \<and> fl AND VFS_DIR = 0)
     \<and> ld32 (ram s) (f + NODE_DATA) = Some p \<and> ld32 (ram s) (f + NODE_SIZE) = Some (of_nat (length data))
     \<and> ld32 (ram s) (f + NODE_CAPACITY) = Some (of_nat cap)
     \<and> length data \<le> cap \<and> cap < 2 ^ 31
     \<and> (if p = 0 then cap = 0 else 0 < cap \<and> owns a p cap \<and> span p cap \<inter> span f NODE_SIZEOF = {})
     \<and> (\<forall>i < length data. ram s (p + of_nat i) = data ! i)"

section \<open>Creating a node\<close>

text \<open>The stores that make the fresh node \<open>p\<close> an empty node named \<open>nm\<close>.\<close>

lemma fill_node:
  assumes acc: "accessible p NODE_SIZEOF" and nm: "holds name nm" "length nm < 64"
    and par: "accessible d NODE_SIZEOF" "span d NODE_SIZEOF \<inter> span p NODE_SIZEOF = {}"
  obtains m1 m2 m3 m4 m5 m6 where
    "memset (mem_put p) 0 0 NODE_SIZEOF m = Some m1" "strcpy (mem_put p) (\<lambda>_. name) 0 m1 = Some m2"
    "st32 (p + NODE_FLAGS) flags m2 = Some m3" "st32 (p + NODE_PARENT) d m3 = Some m4"
    "st32 (p + NODE_PRIVATE) p m4 = Some m5" "ld32 m5 (d + NODE_OPS) = ld32 m (d + NODE_OPS)"
    "st32 (p + NODE_OPS) ops m5 = Some m6"
    "same_outside (span p NODE_SIZEOF) m m6" "holds (mem_at m6 p) nm"
    "\<And>k. 84 \<le> k \<Longrightarrow> k + 4 \<le> NODE_SIZEOF \<Longrightarrow> ld32 m6 (p + of_nat k) = Some 0"
    "ld32 m6 (p + NODE_FLAGS) = Some flags" "ld32 m6 (p + NODE_PARENT) = Some d"
    "ld32 m6 (p + NODE_PRIVATE) = Some p" "ld32 m6 (p + NODE_OPS) = Some ops"
proof -
  obtain m1 m2 where c: "memset (mem_put p) 0 0 NODE_SIZEOF m = Some m1" "strcpy (mem_put p) (\<lambda>_. name) 0 m1 = Some m2"
    "same_outside (span p NODE_SIZEOF) m m2" "holds (mem_at m2 p) nm"
    "\<And>k. 64 \<le> k \<Longrightarrow> k + 4 \<le> NODE_SIZEOF \<Longrightarrow> ld32 m2 (p + of_nat k) = Some 0"
    using node_cleared [OF acc nm] by metis
  obtain m3 where 3: "st32 (p + NODE_FLAGS) flags m2 = Some m3" "ld32 m3 (p + NODE_FLAGS) = Some flags"
    "same_outside {unat p + 64 ..< unat p + 68} m2 m3"
    using set_field [OF acc, of 64 flags m2] by auto
  obtain m4 where 4: "st32 (p + NODE_PARENT) d m3 = Some m4" "ld32 m4 (p + NODE_PARENT) = Some d"
    "same_outside {unat p + 72 ..< unat p + 76} m3 m4"
    using set_field [OF acc, of 72 d m3] by auto
  obtain m5 where 5: "st32 (p + NODE_PRIVATE) p m4 = Some m5" "ld32 m5 (p + NODE_PRIVATE) = Some p"
    "same_outside {unat p + 76 ..< unat p + 80} m4 m5"
    using set_field [OF acc, of 76 p m4] by auto
  obtain m6 where 6: "st32 (p + NODE_OPS) ops m5 = Some m6" "ld32 m6 (p + NODE_OPS) = Some ops"
    "same_outside {unat p + 80 ..< unat p + 84} m5 m6"
    using set_field [OF acc, of 80 ops m5] by auto
  have s35: "same_outside {unat p + 72 ..< unat p + 84} m3 m5"
    by (rule same_outside_trans [OF same_outside_mono [OF 4(3)] same_outside_mono [OF 5(3)]]) auto
  have s36: "same_outside {unat p + 72 ..< unat p + 84} m3 m6"
    by (rule same_outside_trans [OF s35 same_outside_mono [OF 6(3)]]) auto
  have s46: "same_outside {unat p + 76 ..< unat p + 84} m4 m6"
    by (rule same_outside_trans [OF same_outside_mono [OF 5(3)] same_outside_mono [OF 6(3)]]) auto
  have s25: "same_outside (span p NODE_SIZEOF) m2 m5"
    by (rule same_outside_trans [OF same_outside_mono [OF 3(3)] same_outside_mono [OF s35]]) (auto simp: span_def)
  have s26: "same_outside {unat p + 64 ..< unat p + 84} m2 m6"
    by (rule same_outside_trans [OF same_outside_mono [OF 3(3)] same_outside_mono [OF s36]]) auto
  have s6: "same_outside (span p NODE_SIZEOF) m m6"
    by (rule same_outside_trans [OF c(3) same_outside_mono [OF s26]]) (auto simp: span_def)
  have "ld32 m5 (d + of_nat 80) = ld32 m (d + of_nat 80)"
    by (rule keep_field [OF par(1) _ same_outside_trans [OF c(3) s25]])
      (use par(2) in \<open>auto simp: span_def disjoint_iff\<close>)
  then have ops: "ld32 m5 (d + NODE_OPS) = ld32 m (d + NODE_OPS)" by simp
  have name: "holds (mem_at m6 p) nm"
    by (rule holds_outside [OF s26 c(4)])
      (use nm(2) acc in \<open>auto simp: span_def accessible_def\<close>)
  have zero: "ld32 m6 (p + of_nat k) = Some 0" if "84 \<le> k" "k + 4 \<le> NODE_SIZEOF" for k
  proof -
    have "ld32 m6 (p + of_nat k) = ld32 m2 (p + of_nat k)"
      by (rule keep_field [OF acc that(2) s26]) (use that(1) in auto)
    then show ?thesis using c(5) [of k] that by simp
  qed
  have fl: "ld32 m6 (p + of_nat 64) = ld32 m3 (p + of_nat 64)"
    by (rule keep_field [OF acc _ s36]) auto
  have pa: "ld32 m6 (p + of_nat 72) = ld32 m4 (p + of_nat 72)"
    by (rule keep_field [OF acc _ s46]) auto
  have pr: "ld32 m6 (p + of_nat 76) = ld32 m5 (p + of_nat 76)"
    by (rule keep_field [OF acc _ 6(3)]) auto
  show ?thesis
    using that [OF c(1,2) 3(1) 4(1) 5(1) ops 6(1) s6 name zero] fl pa pr 3(2) 4(2) 5(2) 6(2) by simp
qed

text \<open>The two stores that enter the node \<open>p\<close> into the directory \<open>d\<close>.\<close>

definition slots :: "u32 \<Rightarrow> nat \<Rightarrow> nat set" where
  "slots d n = {unat d + (96 + 4 * n) ..< unat d + (96 + 4 * n + 4)} \<union> {unat d + 224 ..< unat d + 228}"

lemma enter_node:
  assumes acc: "accessible d NODE_SIZEOF" and n: "n < 32"
  obtains m1 m2 where "st32 (d + NODE_CHILDREN + 4 * of_nat n) p m = Some m1"
    "st32 (d + NODE_COUNT) (of_nat n + 1) m1 = Some m2" "same_outside (slots d n) m m2"
    "ld32 m2 (d + NODE_CHILDREN + 4 * of_nat n) = Some p" "ld32 m2 (d + NODE_COUNT) = Some (of_nat (Suc n))"
proof -
  have o: "d + of_nat (96 + 4 * n) = d + NODE_CHILDREN + 4 * of_nat n" by simp
  have k: "96 + 4 * n + 4 \<le> NODE_SIZEOF" using n by simp
  obtain m1 where 1: "st32 (d + of_nat (96 + 4 * n)) p m = Some m1" "ld32 m1 (d + of_nat (96 + 4 * n)) = Some p"
    "same_outside {unat d + (96 + 4 * n) ..< unat d + (96 + 4 * n + 4)} m m1"
    using set_field [OF acc k, of p m] by blast
  obtain m2 where 2: "st32 (d + NODE_COUNT) (of_nat n + 1) m1 = Some m2" "ld32 m2 (d + NODE_COUNT) = Some (of_nat n + 1)"
    "same_outside {unat d + 224 ..< unat d + 228} m1 m2"
    using set_field [OF acc, of 224 "of_nat n + 1" m1] by auto
  have "ld32 m2 (d + of_nat (96 + 4 * n)) = ld32 m1 (d + of_nat (96 + 4 * n))"
    by (rule keep_field [OF acc k 2(3)]) (use n in auto)
  moreover have "same_outside (slots d n) m m2"
    by (rule same_outside_trans [OF same_outside_mono [OF 1(3)] same_outside_mono [OF 2(3)]]) (auto simp: slots_def)
  moreover have "(of_nat (Suc n) :: u32) = of_nat n + 1" by simp
  ultimately show ?thesis using that [OF 1(1) [unfolded o] 2(1)] 1(2) 2(2) unfolding o by metis
qed

lemma create_dir:
  assumes d: "dir_rep a s d cs ns" and nm: "holds name nm" "length nm < 64" and room: "length cs < 32"
  obtains (no_memory) s1 where "kmalloc (of_nat NODE_SIZEOF) s = Some (0, s1)" "ramfs_create d name flags s = None"
  | (created) c s' a' where "ramfs_create d name flags s = Some (0, s')"
      "dir_rep a' s' d (cs @ [c]) (ns @ [nm])" "dir_rep a' s' c [] []"
      "ld32 (ram s') (c + NODE_FLAGS) = Some flags" "ld32 (ram s') (c + NODE_PARENT) = Some d"
      "ld32 (ram s') (c + NODE_OPS) = ld32 (ram s) (d + NODE_OPS)"
      "flags AND VFS_DIR = 0 \<Longrightarrow> file_rep a' s' c 0 0 []"
      "used (fst a) \<subseteq> used (fst a')"
      "same_outside (- \<Union>(used (fst a)) \<union> slots d (length cs)) (ram s) (ram s')"
      "span c NODE_SIZEOF \<inter> \<Union>(used (fst a)) = {}" "holds (mem_at (ram s') c) nm"
      "\<And>k. 84 \<le> k \<Longrightarrow> k + 4 \<le> NODE_SIZEOF \<Longrightarrow> ld32 (ram s') (c + of_nat k) = Some 0"
      "heap.more s' = heap.more s"
      "\<exists>p s1. kmalloc (of_nat NODE_SIZEOF) s = Some (p, s1) \<and> heap_end s' = heap_end s1"
proof -
  let ?n = "length cs" and ?U = "\<Union>(used (fst a))"
  have rep: "heap_rep a s" and own: "owns a d NODE_SIZEOF" using d by (simp_all add: dir_rep_def)
  have accd: "accessible d NODE_SIZEOF" "d \<noteq> 0" using owns_accessible [OF rep own] by simp_all
  have un: "unat (of_nat ?n :: u32) = ?n" using room by (intro unat_of_nat_small) simp
  have n32: "\<not> 32 \<le> (of_nat ?n :: u32)" using room un by (simp add: word_le_nat_alt)
  have ld: "ld32 (ram s) (d + NODE_PRIVATE) = Some d" "ld32 (ram s) (d + NODE_COUNT) = Some (of_nat ?n)"
    using d by (simp_all add: dir_rep_def)
  have "0 < NODE_SIZEOF" "NODE_SIZEOF < 2 ^ 31" by simp_all
  from rep this show ?thesis
  proof (cases rule: kmalloc_owns)
    case (null s1)
    have "memset (mem_put 0) 0 0 NODE_SIZEOF (ram s1) = None" by (rule null_memset) simp
    then have "ramfs_create d name flags s = None"
      using null ld accd(2) n32 by (simp add: ramfs_create_def)
    then show ?thesis using null no_memory by blast
  next
    case (new p s1 a1)
    have spd: "span d NODE_SIZEOF \<subseteq> ?U" by (rule owns_span [OF own])
    have disj: "span d NODE_SIZEOF \<inter> span p NODE_SIZEOF = {}" using spd new(5) by blast
    have ldo: "\<exists>ops. ld32 (ram s1) (d + NODE_OPS) = Some ops \<and> ld32 (ram s) (d + NODE_OPS) = Some ops"
    proof -
      have "accessible (d + of_nat 80) 4" by (rule inside(3) [OF accd(1)]) simp_all
      moreover have "ld32 (ram s1) (d + of_nat 80) = ld32 (ram s) (d + of_nat 80)"
        by (rule keep_inside [OF accd(1) _ new(7)]) (use spd in auto)
      ultimately show ?thesis by (simp add: ld32_def)
    qed
    then obtain ops where ops: "ld32 (ram s1) (d + NODE_OPS) = Some ops" "ld32 (ram s) (d + NODE_OPS) = Some ops" by blast
    obtain m1 m2 m3 m4 m5 m6 where f:
      "memset (mem_put p) 0 0 NODE_SIZEOF (ram s1) = Some m1" "strcpy (mem_put p) (\<lambda>_. name) 0 m1 = Some m2"
      "st32 (p + NODE_FLAGS) flags m2 = Some m3" "st32 (p + NODE_PARENT) d m3 = Some m4"
      "st32 (p + NODE_PRIVATE) p m4 = Some m5" "ld32 m5 (d + NODE_OPS) = Some ops"
      "st32 (p + NODE_OPS) ops m5 = Some m6"
      "same_outside (span p NODE_SIZEOF) (ram s1) m6" "holds (mem_at m6 p) nm"
      "\<And>k. 84 \<le> k \<Longrightarrow> k + 4 \<le> NODE_SIZEOF \<Longrightarrow> ld32 m6 (p + of_nat k) = Some 0"
      "ld32 m6 (p + NODE_FLAGS) = Some flags" "ld32 m6 (p + NODE_PARENT) = Some d"
      "ld32 m6 (p + NODE_PRIVATE) = Some p" "ld32 m6 (p + NODE_OPS) = Some ops"
      using fill_node [OF new(4) nm accd(1) disj, of "ram s1" flags ops] ops(1) by metis
    obtain m7 m8 where e: "st32 (d + NODE_CHILDREN + 4 * of_nat ?n) p m6 = Some m7"
      "st32 (d + NODE_COUNT) (of_nat ?n + 1) m7 = Some m8" "same_outside (slots d ?n) m6 m8"
      "ld32 m8 (d + NODE_CHILDREN + 4 * of_nat ?n) = Some p" "ld32 m8 (d + NODE_COUNT) = Some (of_nat (Suc ?n))"
      using enter_node [OF accd(1) room] by metis
    have K: "same_outside (- ?U) (ram s) m6"
      by (rule same_outside_trans [OF new(7) same_outside_mono [OF f(8)]]) (use new(5) in blast)
    have slots: "slots d ?n \<subseteq> span d NODE_SIZEOF" using room by (auto simp: slots_def span_def)
    have K8: "same_outside (- ?U \<union> slots d ?n) (ram s) m8"
      by (rule same_outside_trans [OF same_outside_mono [OF K] same_outside_mono [OF e(3)]]) auto
    have cnt: "ld32 m6 (d + NODE_COUNT) = Some (of_nat ?n)"
    proof -
      have "ld32 m6 (d + of_nat 224) = ld32 (ram s) (d + of_nat 224)"
        by (rule keep_inside [OF accd(1) _ K]) (use spd in auto)
      then show ?thesis using ld(2) by simp
    qed
    define s' where "s' = s1\<lparr>ram := m8\<rparr>"
    have run: "ramfs_create d name flags s = Some (0, s')"
      using ld accd(2) n32 new(1) f(1-7) cnt e(1,2) by (simp add: ramfs_create_def s'_def)
    have rep': "heap_rep a1 s'"
      unfolding s'_def
    proof (rule heap_rep_payload [OF new(2)])
      have "slots d ?n \<subseteq> \<Union>(used (fst a1))" using slots spd new(6) by blast
      then show "same_outside (\<Union>(used (fst a1))) (ram s1) m8"
        using same_outside_trans [OF same_outside_mono [OF f(8) owns_span [OF new(3)]] same_outside_mono [OF e(3)]] by blast
    qed
    have keep_d: "ld32 m8 (d + of_nat k) = ld32 (ram s) (d + of_nat k)"
      if "k + 4 \<le> NODE_SIZEOF" "{unat d + k ..< unat d + (k + 4)} \<inter> slots d ?n = {}" for k
      by (rule keep_field [OF accd(1) that(1) K8]) (use that(2) sub_field [OF that(1), of d] spd in blast)
    have keep_p: "ld32 m8 (p + of_nat k) = ld32 m6 (p + of_nat k)" if "k + 4 \<le> NODE_SIZEOF" for k
      by (rule keep_inside [OF new(4) that e(3)]) (use slots disj in blast)
    have namep: "holds (mem_at m8 p) nm"
      by (rule holds_outside [OF e(3) f(9)])
        (use nm(2) new(4) slots disj in \<open>fastforce simp: span_def accessible_def\<close>)+
    have old: "ld32 m8 (d + NODE_CHILDREN + 4 * of_nat i) = Some (cs ! i) \<and> owns a1 (cs ! i) NODE_SIZEOF
        \<and> span (cs ! i) NODE_SIZEOF \<inter> span d NODE_SIZEOF = {} \<and> length (ns ! i) < 64 \<and> holds (mem_at m8 (cs ! i)) (ns ! i)"
      if i: "i < ?n" for i
    proof -
      have di: "ld32 (ram s) (d + NODE_CHILDREN + 4 * of_nat i) = Some (cs ! i)" "owns a (cs ! i) NODE_SIZEOF"
        "span (cs ! i) NODE_SIZEOF \<inter> span d NODE_SIZEOF = {}" "length (ns ! i) < 64" "holds (mem_at (ram s) (cs ! i)) (ns ! i)"
        using d i by (auto simp: dir_rep_def)
      have "ld32 m8 (d + of_nat (96 + 4 * i)) = ld32 (ram s) (d + of_nat (96 + 4 * i))"
        by (rule keep_d) (use i room in \<open>auto simp: slots_def\<close>)
      then have "ld32 m8 (d + NODE_CHILDREN + 4 * of_nat i) = Some (cs ! i)" using di(1) by (simp add: add.assoc)
      moreover have "holds (mem_at m8 (cs ! i)) (ns ! i)"
      proof (rule holds_outside [OF K8 di(5)])
        have "span (cs ! i) (length (ns ! i) + 1) \<subseteq> span (cs ! i) NODE_SIZEOF" using di(4) by (auto simp: span_def)
        then show "span (cs ! i) (length (ns ! i) + 1) \<inter> (- ?U \<union> slots d ?n) = {}"
          using owns_span [OF di(2)] di(3) slots by blast
        show "unat (cs ! i) + length (ns ! i) < 2 ^ 32"
          using owns_accessible(3) [OF rep di(2)] di(4) by simp
      qed
      ultimately show ?thesis using di owns_mono [OF di(2) new(6)] by blast
    qed
    have "ld32 m8 (d + of_nat 76) = ld32 (ram s) (d + of_nat 76)" by (rule keep_d) (auto simp: slots_def)
    then have dd: "dir_rep a1 s' d (cs @ [p]) (ns @ [nm])"
      unfolding dir_rep_def
      using rep' owns_mono [OF own new(6)] ld(1) e(4,5) room d old new(3) disj nm(2) namep
      by (auto simp: s'_def nth_append less_Suc_eq dir_rep_def Int_commute)
    have dp: "dir_rep a1 s' p [] []"
      using rep' new(3) keep_p [of 76] keep_p [of 224] f(10) [of 224] f(13) by (simp add: dir_rep_def s'_def)
    have fp: "file_rep a1 s' p 0 0 []" if "flags AND VFS_DIR = 0"
      using rep' new(3) that keep_p [of 64] keep_p [of 76] keep_p [of 84] keep_p [of 88] keep_p [of 92]
        f(10) [of 84] f(10) [of 88] f(10) [of 92] f(11,13)
      by (simp add: file_rep_def s'_def)
    have zero: "ld32 m8 (p + of_nat k) = Some 0" if "84 \<le> k" "k + 4 \<le> NODE_SIZEOF" for k
      using f(10) [OF that] keep_p [OF that(2)] by simp
    show ?thesis
      by (rule created [OF run dd dp])
        (use keep_p [of 64] keep_p [of 72] keep_p [of 80] f(11,12,14) ops(2) new(1,5,6,8) fp K8 namep zero in
          \<open>simp_all add: s'_def\<close>)
  qed
qed

lemma slots_span: "n < 32 \<Longrightarrow> slots d n \<subseteq> span d NODE_SIZEOF"
  by (auto simp: slots_def span_def)

end
