(* ===== verification/Files.thy ===== *)
theory Files
  imports Ramfs
begin

text \<open>
  Reading and writing the files of \<open>fs/ramfs/ramfs.c\<close>: the contents of a file as a list of bytes, and
  the properties of the file system.
\<close>

section \<open>Writing within the capacity\<close>

lemma null_memcpy: "0 < n \<Longrightarrow> memcpy (mem_put 0) src 0 n m = None"
  by (cases n) (auto simp: mem_put_def st8_def accessible_def split: Option.bind_splits)

text \<open>The contents after a write.\<close>

definition patch :: "nat \<Rightarrow> u8 list \<Rightarrow> u8 list \<Rightarrow> u8 list" where
  "patch off bs data = take off data @ bs @ drop (off + length bs) data"

lemma patch_nth:
  assumes "off \<le> length data"
  shows "length (patch off bs data) = max (length data) (off + length bs)"
    "i < max (length data) (off + length bs) \<Longrightarrow> patch off bs data ! i =
       (if off \<le> i \<and> i < off + length bs then bs ! (i - off) else data ! i)"
proof -
  show "length (patch off bs data) = max (length data) (off + length bs)"
    using assms by (auto simp: patch_def)
  assume i: "i < max (length data) (off + length bs)"
  consider "i < off" | "off \<le> i" "i < off + length bs" | "off + length bs \<le> i" by linarith
  then show "patch off bs data ! i = (if off \<le> i \<and> i < off + length bs then bs ! (i - off) else data ! i)"
  proof cases
    case 2
    then have "i - off < length bs" by linarith
    with 2 show ?thesis using assms by (simp add: patch_def nth_append)
  next
    case 3
    then have "i < length data" "\<not> i - off < length bs" using i by linarith+
    with 3 show ?thesis using assms by (simp add: patch_def nth_append)
  qed (use assms in \<open>simp_all add: patch_def nth_append\<close>)
qed

lemma fileD:
  assumes "file_rep a s f p cap data"
  shows "heap_rep a s" "owns a f NODE_SIZEOF" "accessible f NODE_SIZEOF" "f \<noteq> 0"
    "ld32 (ram s) (f + NODE_PRIVATE) = Some f" "ld32 (ram s) (f + NODE_DATA) = Some p"
    "ld32 (ram s) (f + NODE_SIZE) = Some (of_nat (length data))" "ld32 (ram s) (f + NODE_CAPACITY) = Some (of_nat cap)"
    "length data \<le> cap" "cap < 2 ^ 31" "\<And>i. i < length data \<Longrightarrow> ram s (p + of_nat i) = data ! i"
    "\<And>k. k < 2 ^ 31 \<Longrightarrow> unat (of_nat k :: u32) = k"
  using assms owns_accessible [of a s f NODE_SIZEOF] by (auto simp: file_rep_def intro!: unat_of_nat_small)

lemma file_buffer:
  assumes "file_rep a s f p cap data" and "0 < cap"
  shows "owns a p cap" "accessible p cap" "p \<noteq> 0" "span p cap \<inter> span f NODE_SIZEOF = {}"
proof -
  have p: "owns a p cap \<and> span p cap \<inter> span f NODE_SIZEOF = {}" and rep: "heap_rep a s"
    using assms by (simp_all add: file_rep_def split: if_splits)
  then show "owns a p cap" "span p cap \<inter> span f NODE_SIZEOF = {}" by blast+
  show "accessible p cap" "p \<noteq> 0" using owns_accessible [OF rep _ assms(2)] p by blast+
qed

text \<open>The fields \<open>data\<close>, \<open>size\<close> and \<open>capacity\<close> of a node.\<close>

definition data_fields :: "u32 \<Rightarrow> nat set" where
  "data_fields f = {unat f + 84 ..< unat f + 96}"

lemma data_fields_span: "data_fields f \<subseteq> span f NODE_SIZEOF"
  by (auto simp: data_fields_def span_def)

lemma put_fits:
  assumes f: "file_rep a s f p cap data" and off: "off \<le> length data" and n: "0 < length bs" "off + length bs \<le> cap"
    and buf: "\<And>i. i < length bs \<Longrightarrow> buffer i = Some (bs ! i)"
  obtains s' where "ramfs_put f (of_nat off) (of_nat (length bs)) buffer s = Some s'"
    "file_rep a s' f p cap (patch off bs data)" "heap.more s' = heap.more s"
    "same_outside (data_fields f \<union> span p cap) (ram s) (ram s')" "heap_end s' = heap_end s"
proof -
  note fd = fileD [OF f]
  have "0 < cap" using n by linarith
  note fb = file_buffer [OF f this]
  let ?q = "p + of_nat off" and ?n = "length bs"
  note q = inside [OF fb(2) n(2)]
  have qa: "accessible ?q ?n" by (rule q(3)) (rule n(1))
  obtain m1 where m1: "memcpy (mem_put ?q) (\<lambda>_. buffer) 0 ?n (ram s) = Some m1"
    "same_outside (span ?q ?n) (ram s) m1" "\<And>j. j < ?n \<Longrightarrow> m1 (?q + of_nat j) = bs ! j"
    using mem_memcpy [OF qa, of "ram s" "\<lambda>_. buffer" "\<lambda>j. bs ! j"] buf by blast
  have m1': "same_outside (span p cap) (ram s) m1" by (rule same_outside_mono [OF m1(2) q(4)])
  have un: "unat (of_nat off + of_nat ?n :: u32) = off + ?n" "unat (of_nat ?n :: u32) = ?n"
    "unat (of_nat (length data) :: u32) = length data"
    using fd(12) [of "off + ?n"] fd(12) [of ?n] fd(12) [of "length data"] n(2) fd(9,10) by (simp_all flip: of_nat_add)
  have keep1: "ld32 m1 (f + of_nat k) = ld32 (ram s) (f + of_nat k)" if "k + 4 \<le> NODE_SIZEOF" for k
    by (rule keep_inside [OF fd(3) that m1']) (use fb(4) in blast)
  have sz: "ld32 m1 (f + NODE_SIZE) = Some (of_nat (length data))" using keep1 [of 88] fd(7) by simp
  let ?N = "max (length data) (off + ?n)"
  obtain m2 where m2: "(if (of_nat (length data) :: u32) < of_nat off + of_nat ?n
       then st32 (f + NODE_SIZE) (of_nat off + of_nat ?n) m1 else Some m1) = Some m2"
    "same_outside {unat f + 88 ..< unat f + 92} m1 m2" "ld32 m2 (f + NODE_SIZE) = Some (of_nat ?N)"
  proof (cases "length data < off + ?n")
    case True
    then have "(of_nat (length data) :: u32) < of_nat off + of_nat ?n" by (simp add: word_less_nat_alt un)
    then show ?thesis
      using set_field [OF fd(3), of 88 "of_nat off + of_nat ?n" m1] that True by (auto simp: max_def)
  next
    case False
    then have "\<not> (of_nat (length data) :: u32) < of_nat off + of_nat ?n" by (simp add: word_less_nat_alt un)
    then show ?thesis using that [of m1] False sz by (simp add: max_def)
  qed
  define s' where "s' = s\<lparr>ram := m2\<rparr>"
  have put: "ramfs_put f (of_nat off) (of_nat ?n) buffer s = Some s'"
    using fd(6) m1(1) sz m2(1) un(2) by (simp add: ramfs_put_def s'_def)
  have fsp: "{unat f + 88 ..< unat f + 92} \<subseteq> data_fields f" by (auto simp: data_fields_def)
  have out: "same_outside (data_fields f \<union> span p cap) (ram s) m2"
    by (rule same_outside_trans [OF same_outside_mono [OF m1'] same_outside_mono [OF m2(2)]]) (use fsp in auto)
  have rep: "heap_rep a s'"
    unfolding s'_def
    by (rule heap_rep_payload [OF fd(1) same_outside_mono [OF out]])
      (use owns_span [OF fd(2)] owns_span [OF fb(1)] data_fields_span in blast)
  have keep2: "ld32 m2 (f + of_nat k) = ld32 (ram s) (f + of_nat k)"
    if "k + 4 \<le> NODE_SIZEOF" "k + 4 \<le> 88 \<or> 92 \<le> k" for k
    using keep_field [OF fd(3) that(1) m2(2)] keep1 [OF that(1)] that(2) by force
  have bytes: "m2 (p + of_nat i) = patch off bs data ! i" if i: "i < ?N" for i
  proof -
    have ic: "i < cap" using i fd(9) n(2) by auto
    have pi: "unat (p + of_nat i) = unat p + i" using inside(1) [OF fb(2), of i 1] ic by simp
    have "unat (p + of_nat i) \<in> span p cap" using pi ic by (simp add: span_def)
    then have "unat (p + of_nat i) \<notin> {unat f + 88 ..< unat f + 92}" using fb(4) fsp data_fields_span by blast
    then have "m2 (p + of_nat i) = m1 (p + of_nat i)" using m2(2) unfolding same_outside_def by blast
    also have "\<dots> = patch off bs data ! i"
    proof (cases "off \<le> i \<and> i < off + ?n")
      case True
      have "(of_nat i :: u32) = of_nat off + of_nat (i - off)" using True by (simp flip: of_nat_add)
      then have "p + of_nat i = ?q + of_nat (i - off)" by (simp add: add.assoc)
      then show ?thesis using m1(3) [of "i - off"] True patch_nth(2) [OF off, of i bs] i by auto
    next
      case False
      then have "unat (p + of_nat i) \<notin> span ?q ?n" using pi q(2) by auto
      then have "m1 (p + of_nat i) = ram s (p + of_nat i)" using m1(2) by (simp add: same_outside_def)
      moreover have "i < length data" using False i off by auto
      ultimately show ?thesis using fd(11) patch_nth(2) [OF off, of i bs] False i by auto
    qed
    finally show ?thesis .
  qed
  have "file_rep a s' f p cap (patch off bs data)"
    using f rep keep2 [of 64] keep2 [of 76] keep2 [of 84] keep2 [of 92] m2(3) bytes n(2) fd(9,10)
    by (auto simp: file_rep_def s'_def patch_nth(1) [OF off])
  then show ?thesis using that [OF put] out by (simp add: s'_def)
qed

section \<open>Growing\<close>

text \<open>Copying the old bytes into fresh memory; without an old buffer there are none.\<close>

lemma copy_old:
  assumes acc: "accessible q n" and len: "length data \<le> n"
    and src: "p \<noteq> 0 \<Longrightarrow> accessible p cap \<and> length data \<le> cap \<and> span p cap \<inter> span q n = {}" "p = 0 \<Longrightarrow> data = []"
    and bytes: "\<And>i. i < length data \<Longrightarrow> m (p + of_nat i) = data ! i"
  shows "\<exists>m1. (if p \<noteq> 0 then memcpy (mem_put q) (\<lambda>m. mem_at m p) 0 (length data) m else Some m) = Some m1
    \<and> same_outside (span q n) m m1 \<and> (\<forall>i < length data. m1 (q + of_nat i) = data ! i)"
proof (cases "p = 0")
  case True
  then show ?thesis using src(2) by simp
next
  case False
  have acc': "accessible q (length data)" using acc len by (simp add: accessible_def)
  have sub: "span q (length data) \<subseteq> span q n" using len by (auto simp: span_def)
  have "mem_at m' p j = Some (data ! j)" if "same_outside (span q (length data)) m m'" "j < length data" for m' j
  proof -
    have j: "j < cap" using src(1) [OF False] that(2) by simp
    note ip = inside [of p cap j 1]
    have "unat (p + of_nat j) \<in> span p cap" using ip(1) src(1) [OF False] j by (simp add: span_def)
    then have "unat (p + of_nat j) \<notin> span q (length data)" using src(1) [OF False] sub by blast
    then have "m' (p + of_nat j) = data ! j" using that bytes by (simp add: same_outside_def)
    then show ?thesis using ip(3) src(1) [OF False] j by (simp add: mem_at_def ld8_def)
  qed
  from mem_memcpy [where src = "\<lambda>m. mem_at m p" and f = "\<lambda>j. data ! j", OF acc' this]
  obtain m1 where m1: "memcpy (mem_put q) (\<lambda>m. mem_at m p) 0 (length data) m = Some m1"
    "same_outside (span q (length data)) m m1" "\<forall>j < length data. m1 (q + of_nat j) = data ! j" by blast
  then show ?thesis using False same_outside_mono [OF m1(2) sub] by auto
qed

lemma grow_file:
  assumes f: "file_rep a s f p cap data" and n: "cap < n" "n < 2 ^ 31"
  obtains (no_memory) s1 where "kmalloc (of_nat n) s = Some (0, s1)"
      "ramfs_grow f (of_nat n) s = None \<or> (\<exists>s2. ramfs_grow f (of_nat n) s = Some s2 \<and> data = [] \<and> ld32 (ram s2) (f + NODE_DATA) = Some 0)"
  | (grown) q s' a' where "ramfs_grow f (of_nat n) s = Some s'" "file_rep a' s' f q n data"
      "used (fst a) \<subseteq> used (fst a')"
      "same_outside (- \<Union>(used (fst a)) \<union> data_fields f) (ram s) (ram s')" "heap.more s' = heap.more s"
      "span q n \<inter> \<Union>(used (fst a)) = {}" "\<exists>s1. kmalloc (of_nat n) s = Some (q, s1) \<and> heap_end s' = heap_end s1"
proof -
  note fd = fileD [OF f]
  let ?U = "\<Union>(used (fst a))"
  have spf: "span f NODE_SIZEOF \<subseteq> ?U" by (rule owns_span [OF fd(2)])
  have ul: "unat (of_nat (length data) :: u32) = length data" using fd(12) fd(9,10) by simp
  have keep: "ld32 (ram s1) (f + of_nat k) = ld32 (ram s) (f + of_nat k)"
    if "same_outside (- ?U) (ram s) (ram s1)" "k + 4 \<le> NODE_SIZEOF" for s1 :: "'a fs_scheme" and k
    by (rule keep_inside [OF fd(3) that(2,1)]) (use spf in blast)
  have n0: "0 < n" using n(1) by simp
  from fd(1) n0 n(2) show ?thesis
  proof (cases rule: kmalloc_owns)
    case (null s1)
    have k: "ld32 (ram s1) (f + NODE_DATA) = Some p" "ld32 (ram s1) (f + NODE_SIZE) = Some (of_nat (length data))"
      using keep [OF null(2), of 84] keep [OF null(2), of 88] fd(6,7) by simp_all
    show ?thesis
    proof (cases "p \<noteq> 0 \<and> data \<noteq> []")
      case True
      then have "memcpy (mem_put 0) (\<lambda>m. mem_at m p) 0 (length data) (ram s1) = None" by (intro null_memcpy) simp
      then have "ramfs_grow f (of_nat n) s = None" using null(1) k True ul by (simp add: ramfs_grow_def)
      then show ?thesis using no_memory [OF null(1)] by blast
    next
      case False
      then have d: "data = []" using f by (auto simp: file_rep_def)
      obtain m1 where m1: "st32 (f + NODE_DATA) 0 (ram s1) = Some m1" "ld32 m1 (f + NODE_DATA) = Some 0"
        using set_field [OF fd(3), of 84 0 "ram s1"] by auto
      obtain m2 where m2: "st32 (f + NODE_CAPACITY) (of_nat n) m1 = Some m2"
        "same_outside {unat f + 92 ..< unat f + 96} m1 m2"
        using set_field [OF fd(3), of 92 "of_nat n" m1] by auto
      have "ld32 m2 (f + of_nat 84) = ld32 m1 (f + of_nat 84)"
        by (rule keep_field [OF fd(3) _ m2(2)]) auto
      then have "\<exists>s2. ramfs_grow f (of_nat n) s = Some s2 \<and> data = [] \<and> ld32 (ram s2) (f + NODE_DATA) = Some 0"
        using null(1) k d m1 m2(1) by (simp add: ramfs_grow_def)
      then show ?thesis using no_memory [OF null(1)] by blast
    qed
  next
    case (new q s1 a1)
    have k: "ld32 (ram s1) (f + NODE_DATA) = Some p" "ld32 (ram s1) (f + NODE_SIZE) = Some (of_nat (length data))"
      using keep [OF new(7), of 84] keep [OF new(7), of 88] fd(6,7) by simp_all
    have src: "p \<noteq> 0 \<Longrightarrow> accessible p cap \<and> length data \<le> cap \<and> span p cap \<inter> span q n = {} \<and> span p cap \<subseteq> ?U"
      using file_buffer [OF f] f new(5) owns_span [of a p cap] by (auto simp: file_rep_def)
    have dq: "span f NODE_SIZEOF \<inter> span q n = {}" using spf new(5) by blast
    have "ram s1 (p + of_nat i) = data ! i" if i: "i < length data" for i
    proof -
      have "p \<noteq> 0" "i < cap" using i f by (auto simp: file_rep_def)
      then have "unat (p + of_nat i) \<in> span p cap" using inside(1) [of p cap i 1] src by (simp add: span_def)
      then have "unat (p + of_nat i) \<in> ?U" using src [OF \<open>p \<noteq> 0\<close>] by blast
      then show ?thesis using new(7) fd(11) [OF i] by (simp add: same_outside_def)
    qed
    moreover have "p = 0 \<Longrightarrow> data = []" "length data \<le> n" using f n(1) by (auto simp: file_rep_def)
    ultimately obtain m1 where m1: "(if p \<noteq> 0 then memcpy (mem_put q) (\<lambda>m. mem_at m p) 0 (length data) (ram s1) else Some (ram s1)) = Some m1"
      "same_outside (span q n) (ram s1) m1" "\<forall>i < length data. m1 (q + of_nat i) = data ! i"
      using copy_old [OF new(4), of data p cap "ram s1"] src fd(9) by blast
    obtain m2 where m2: "st32 (f + NODE_DATA) q m1 = Some m2" "ld32 m2 (f + NODE_DATA) = Some q"
      "same_outside {unat f + 84 ..< unat f + 88} m1 m2"
      using set_field [OF fd(3), of 84 q m1] by auto
    obtain m3 where m3: "st32 (f + NODE_CAPACITY) (of_nat n) m2 = Some m3" "ld32 m3 (f + NODE_CAPACITY) = Some (of_nat n)"
      "same_outside {unat f + 92 ..< unat f + 96} m2 m3"
      using set_field [OF fd(3), of 92 "of_nat n" m2] by auto
    have fs: "{unat f + 84 ..< unat f + 88} \<union> {unat f + 92 ..< unat f + 96} \<subseteq> span f NODE_SIZEOF"
      by (auto simp: span_def)
    have s13: "same_outside ({unat f + 84 ..< unat f + 88} \<union> {unat f + 92 ..< unat f + 96}) m1 m3"
      by (rule same_outside_trans [OF same_outside_mono [OF m2(3)] same_outside_mono [OF m3(3)]]) auto
    define s' where "s' = s1\<lparr>ram := m3\<rparr>"
    have run: "ramfs_grow f (of_nat n) s = Some s'"
      using new(1) k m1(1) m2(1) m3(1) ul by (cases "p = 0") (simp_all add: ramfs_grow_def s'_def)
    have rep: "heap_rep a1 s'"
      unfolding s'_def
    proof (rule heap_rep_payload [OF new(2)])
      have "span f NODE_SIZEOF \<subseteq> \<Union>(used (fst a1))" using spf new(6) by blast
      then show "same_outside (\<Union>(used (fst a1))) (ram s1) m3"
        using same_outside_trans [OF same_outside_mono [OF m1(2) owns_span [OF new(3)]] same_outside_mono [OF s13]] fs by blast
    qed
    have K: "same_outside (- ?U) (ram s) m1"
      by (rule same_outside_trans [OF new(7) same_outside_mono [OF m1(2)]]) (use new(5) in blast)
    have keepf: "ld32 m3 (f + of_nat j) = ld32 (ram s) (f + of_nat j)"
      if "j + 4 \<le> NODE_SIZEOF" "j + 4 \<le> 84 \<or> j = 88" for j
    proof -
      have "ld32 m3 (f + of_nat j) = ld32 m1 (f + of_nat j)"
        by (rule keep_field [OF fd(3) that(1) s13]) (use that(2) in auto)
      also have "\<dots> = ld32 (ram s) (f + of_nat j)"
        by (rule keep_inside [OF fd(3) that(1) K]) (use spf in blast)
      finally show ?thesis .
    qed
    have "ld32 m3 (f + of_nat 84) = ld32 m2 (f + of_nat 84)" by (rule keep_field [OF fd(3) _ m3(3)]) auto
    moreover have "m3 (q + of_nat i) = data ! i" if "i < length data" for i
    proof -
      have i: "i < n" using that fd(9) n(1) by simp
      then have "unat (q + of_nat i) \<in> span q n" using inside(1) [OF new(4), of i 1] by (simp add: span_def)
      then have "unat (q + of_nat i) \<notin> {unat f + 84 ..< unat f + 88} \<union> {unat f + 92 ..< unat f + 96}"
        using fs dq by blast
      then have "m3 (q + of_nat i) = m1 (q + of_nat i)" using s13 unfolding same_outside_def by blast
      then show ?thesis using m1(3) that by simp
    qed
    moreover have "q \<noteq> 0" using new(4) by (auto simp: accessible_def)
    ultimately have "file_rep a1 s' f q n data"
      using f rep owns_mono [OF fd(2) new(6)] keepf [of 64] keepf [of 76] keepf [of 88] m2(2) m3(2) n new(3) dq
      by (auto simp: file_rep_def s'_def Int_commute)
    moreover have "same_outside (- ?U \<union> data_fields f) (ram s) m3"
      by (rule same_outside_trans [OF same_outside_mono [OF K] same_outside_mono [OF s13]]) (auto simp: data_fields_def)
    ultimately show ?thesis using grown [OF run] new(1,5,6,8) by (simp add: s'_def)
  qed
qed

section \<open>Writing and reading\<close>

lemma ramfs_write_file:
  assumes "file_rep a s f p cap data"
  shows "ramfs_write f off sz buffer s = do {
     s \<leftarrow> (if of_nat cap < off + sz then ramfs_grow f (off + sz) s else Some s);
     s \<leftarrow> ramfs_put f off sz buffer s;
     Some (sz, s) }"
proof -
  obtain fl where "ld32 (ram s) (f + NODE_FLAGS) = Some fl" "fl AND VFS_DIR = 0"
    using assms by (auto simp: file_rep_def)
  then show ?thesis using fileD [OF assms] by (simp add: ramfs_write_def)
qed

lemma write_file:
  assumes f: "file_rep a s f p cap data" and off: "off \<le> length data"
    and n: "0 < length bs" "off + length bs < 2 ^ 31"
    and buf: "\<forall>i < length bs. buffer i = Some (bs ! i)"
  obtains (no_memory) s1 where "cap < off + length bs" "kmalloc (of_nat (off + length bs)) s = Some (0, s1)"
      "ramfs_write f (of_nat off) (of_nat (length bs)) buffer s = None"
  | (written) s' a' q cap' where
      "ramfs_write f (of_nat off) (of_nat (length bs)) buffer s = Some (of_nat (length bs), s')"
      "file_rep a' s' f q cap' (patch off bs data)" "used (fst a) \<subseteq> used (fst a')" "heap.more s' = heap.more s"
      "same_outside (- \<Union>(used (fst a)) \<union> data_fields f \<union> span p cap) (ram s) (ram s')"
      "q = p \<and> cap' = cap \<or> span q cap' \<inter> \<Union>(used (fst a)) = {}"
      "heap_end s' = heap_end s
        \<or> (\<exists>s1. kmalloc (of_nat (off + length bs)) s = Some (q, s1) \<and> heap_end s' = heap_end s1)"
proof -
  note fd = fileD [OF f]
  let ?n = "length bs" and ?U = "\<Union>(used (fst a))"
  have un: "unat (of_nat off + of_nat ?n :: u32) = off + ?n"
    using fd(12) [of "off + ?n"] n(2) by (simp flip: of_nat_add)
  have uc: "unat (of_nat cap :: u32) = cap" using fd(10,12) by simp
  have cmp: "(of_nat cap :: u32) < of_nat off + of_nat ?n \<longleftrightarrow> cap < off + ?n"
    by (simp add: word_less_nat_alt un uc)
  note wr = ramfs_write_file [OF f, of "of_nat off" "of_nat ?n" buffer, unfolded cmp]
  show ?thesis
  proof (cases "cap < off + ?n")
    case False
    then have "off + ?n \<le> cap" by simp
    from f off n(1) this buf [rule_format] obtain s' where s': "ramfs_put f (of_nat off) (of_nat ?n) buffer s = Some s'"
      "file_rep a s' f p cap (patch off bs data)" "heap.more s' = heap.more s"
      "same_outside (data_fields f \<union> span p cap) (ram s) (ram s')" "heap_end s' = heap_end s"
      by (rule put_fits)
    show ?thesis
    proof (rule written)
      show "ramfs_write f (of_nat off) (of_nat ?n) buffer s = Some (of_nat ?n, s')" using wr False s'(1) by simp
      show "same_outside (- ?U \<union> data_fields f \<union> span p cap) (ram s) (ram s')"
        by (rule same_outside_mono [OF s'(4)]) blast
    qed (use s' in blast)+
  next
    case True
    from f True n(2) show ?thesis
    proof (cases rule: grow_file)
      case (no_memory s1)
      have "ramfs_write f (of_nat off) (of_nat ?n) buffer s = None"
      proof (cases "ramfs_grow f (of_nat (off + ?n)) s")
        case None
        then show ?thesis using wr True by simp
      next
        case (Some s2)
        then have "off = 0" "ld32 (ram s2) (f + NODE_DATA) = Some 0" using no_memory(2) off by auto
        moreover have "memcpy (mem_put 0) (\<lambda>_. buffer) 0 ?n (ram s2) = None" by (rule null_memcpy) (rule n(1))
        moreover have "unat (of_nat ?n :: u32) = ?n" using fd(12) n(2) by simp
        ultimately have "ramfs_put f (of_nat off) (of_nat ?n) buffer s2 = None" by (simp add: ramfs_put_def)
        then show ?thesis using wr True Some by simp
      qed
      then show ?thesis using that(1) [OF True no_memory(1)] by blast
    next
      case (grown q s1 a1)
      note f1 = grown(2)
      obtain s' where s': "ramfs_put f (of_nat off) (of_nat ?n) buffer s1 = Some s'"
        "file_rep a1 s' f q (off + ?n) (patch off bs data)" "heap.more s' = heap.more s1"
        "same_outside (data_fields f \<union> span q (off + ?n)) (ram s1) (ram s')" "heap_end s' = heap_end s1"
        using put_fits [OF f1 off n(1) order_refl buf [rule_format]] by blast
      show ?thesis
      proof (rule written)
        show "ramfs_write f (of_nat off) (of_nat ?n) buffer s = Some (of_nat ?n, s')"
          using wr True grown(1) s'(1) by simp
        show "same_outside (- ?U \<union> data_fields f \<union> span p cap) (ram s) (ram s')"
          by (rule same_outside_trans [OF same_outside_mono [OF grown(4)] same_outside_mono [OF s'(4)]])
            (use grown(6) in blast)+
      qed (use s' grown in auto)
    qed
  qed
qed

text \<open>Reading into a buffer of the caller that is large enough.\<close>

lemma read_file:
  assumes f: "file_rep a s f p cap data" and n: "off + n < 2 ^ 31" and room: "min n (length data - off) \<le> length buf"
  shows "ramfs_read f (of_nat off) (of_nat n) buf s =
    Some (of_nat (min n (length data - off)), take n (drop off data) @ drop (min n (length data - off)) buf)"
proof -
  note fd = fileD [OF f]
  have u: "unat (of_nat off :: u32) = off" "unat (of_nat n :: u32) = n" "unat (of_nat (length data) :: u32) = length data"
    "unat (of_nat off + of_nat n :: u32) = off + n"
    using fd(12) [of off] fd(12) [of n] fd(12) [of "length data"] fd(12) [of "off + n"] n fd(9,10)
    by (simp_all flip: of_nat_add)
  show ?thesis
  proof (cases "length data \<le> off")
    case True
    then show ?thesis using fd(5,7) by (simp add: ramfs_read_def word_le_nat_alt u)
  next
    case False
    let ?k = "min n (length data - off)"
    have k: "(if (of_nat (length data) :: u32) < of_nat off + of_nat n then of_nat (length data) - of_nat off else of_nat n)
        = (of_nat ?k :: u32)"
    proof (cases "length data < off + n")
      case True
      have "(of_nat (length data) - of_nat off :: u32) = of_nat (length data - off)" using False by (simp add: of_nat_diff)
      moreover have "min n (length data - off) = length data - off" using True by simp
      ultimately show ?thesis using True by (simp only: word_less_nat_alt u if_True)
    next
      case False
      then have "min n (length data - off) = n" by simp
      then show ?thesis using False by (simp only: word_less_nat_alt u if_False)
    qed
    have uk: "unat (of_nat ?k :: u32) = ?k" using fd(12) [of ?k] n by simp
    have p: "0 < cap" using False fd(9) by simp
    note fb = file_buffer [OF f p]
    have "mem_at (ram s) (p + of_nat off) j = Some (data ! (off + j))" if "j < ?k" for j
    proof -
      have j: "off + j < length data" using that unfolding min_less_iff_conj by linarith
      then have "ram s (p + of_nat (off + j)) = data ! (off + j)" by (rule fd(11))
      moreover have "accessible (p + of_nat (off + j)) 1"
        by (rule inside(3) [OF fb(2)]) (use j fd(9) in auto)
      ultimately show ?thesis by (simp add: mem_at_def ld8_def add.assoc)
    qed
    then obtain buf' where b: "memcpy buf_put (\<lambda>_. mem_at (ram s) (p + of_nat off)) 0 ?k buf = Some buf'"
      "length buf' = length buf" "\<forall>j < length buf. buf' ! j = (if j < ?k then data ! (off + j) else buf ! j)"
      using buf.memcpy_writes [where i = 0 and n = ?k and d = buf and src = "\<lambda>_. mem_at (ram s) (p + of_nat off)"
          and f = "\<lambda>j. data ! (off + j)", unfolded buf.wrote_def] room by auto
    have "buf' = take n (drop off data) @ drop ?k buf"
      by (rule nth_equalityI) (use b(2,3) room in \<open>auto simp: nth_append min_def\<close>)
    then show ?thesis using fd(5-7) False b(1) uk
      by (simp add: ramfs_read_def word_le_nat_alt u(1,3) Let_def k del: of_nat_min)
  qed
qed

section \<open>While the heap has room\<close>

text \<open>An allocation of \<open>n\<close> bytes succeeds when this many are left, generously counted.\<close>

definition heap_room :: "nat \<Rightarrow> 'a heap_scheme \<Rightarrow> bool" where
  "heap_room n s \<longleftrightarrow> unat (heap_end s) + 4 * n + 80 < 0x800000"

lemma kmalloc_room:
  assumes rep: "heap_rep a s" and n: "0 < n" "heap_room n s"
  shows "\<exists>p s'. kmalloc (of_nat n) s = Some (p, s') \<and> p \<noteq> 0 \<and> unat (heap_end s') \<le> unat (heap_end s) + 4 * n + 80"
proof -
  obtain bs e where a: "a = (bs, e)" by (cases a)
  have inv: "heap_inv bs s" "heap_end s = adr e" "e < 0x200000" using rep by (auto simp: heap_rep_def a)
  have ue: "unat (heap_end s) = 4 * e" using inv(2,3) by (simp add: unat_adr)
  have en: "4 * e + 4 * n + 80 < 0x800000" using n(2) by (simp add: heap_room_def ue)
  have un: "unat (of_nat n :: u32) = n" using en by (intro unat_of_nat_small) simp
  then have nz: "(of_nat n :: u32) \<noteq> 0" using n(1) by auto
  have w: "words_of (of_nat n) \<le> n + 7" by (simp add: words_of_def un)
  obtain r bs' e' where r: "abs_kmalloc (of_nat n) bs e = (r, bs', e')" by (cases "abs_kmalloc (of_nat n) bs e")
  have sz: "unat (of_nat n :: u32) < 2 ^ 31" using un en by simp
  obtain s' where s': "kmalloc (of_nat n) s = Some (adr r, s')" "heap_end s' = adr e'"
    using kmalloc_refines_abs [OF inv sz r] by blast
  have al: "abs_alloc (words_of (of_nat n)) bs e = (r, bs', e')"
    using r nz en w by (simp add: abs_kmalloc_def un split: if_splits)
  have res: "r \<noteq> 0 \<and> r < 0x200000 \<and> e' \<le> e + n + 13"
  proof (cases "find_fit (words_of (of_nat n)) bs")
    case None
    then show ?thesis using al en w by (auto simp: abs_alloc_def Let_def split: if_splits)
  next
    case (Some t)
    then obtain xs b ys where t: "find_fit (words_of (of_nat n)) bs = Some (xs, b, ys)" by (cases t) auto
    have "b \<in> set bs" using find_fit_Some [OF t] by auto
    moreover obtain e2 where "heap_end s = adr e2" "e2 < 0x200000" "chained bs e2" using heap_inv_end [OF inv(1)] by metis
    ultimately have "baddr b + 5 < 0x200000" using chained_in(3) by fastforce
    then show ?thesis using al t by (auto simp: abs_alloc_def)
  qed
  have "adr r \<noteq> 0" using res by (simp add: adr_0)
  moreover have "unat (heap_end s') = 4 * e'" using res en by (simp add: s'(2) unat_adr)
  ultimately show ?thesis using s'(1) res ue by auto
qed

section \<open>The root of a file system\<close>

lemma heap_more_fs:
  fixes s t :: "'a fs_scheme"
  assumes "heap.more t = heap.more s"
  shows "ramfs_ops_at t = ramfs_ops_at s" "op_lookup t = op_lookup s" "mounts t = mounts s"
    "mount_count t = mount_count s" "vfs_root t = vfs_root s" "fs.more t = fs.more s"
  using assms by (cases s; cases t; simp)+

lemma new_root_ok:
  assumes rep: "heap_rep a s" and room: "heap_room NODE_SIZEOF s"
  obtains r s' a' where "new_root s = Some (r, s')" "dir_rep a' s' r [] []"
    "ld32 (ram s') (r + NODE_FLAGS) = Some VFS_DIR" "ld32 (ram s') (r + NODE_OPS) = Some (ramfs_ops_at s)"
    "holds (mem_at (ram s') r) (lit ''/'')" "heap.more s' = heap.more s"
    "unat (heap_end s') \<le> unat (heap_end s) + 4 * NODE_SIZEOF + 80"
    "\<And>k. 84 \<le> k \<Longrightarrow> k + 4 \<le> NODE_SIZEOF \<Longrightarrow> ld32 (ram s') (r + of_nat k) = Some 0"
    "same_outside (- \<Union>(used (fst a))) (ram s) (ram s')" "span r NODE_SIZEOF \<inter> \<Union>(used (fst a)) = {}"
    "used (fst a) \<subseteq> used (fst a')"
proof -
  have "0 < NODE_SIZEOF" "NODE_SIZEOF < 2 ^ 31" by simp_all
  obtain p0 s0 where k: "kmalloc (of_nat NODE_SIZEOF) s = Some (p0, s0)" "p0 \<noteq> 0"
    "unat (heap_end s0) \<le> unat (heap_end s) + 4 * NODE_SIZEOF + 80"
    using kmalloc_room [OF rep _ room] by auto
  from rep \<open>0 < NODE_SIZEOF\<close> \<open>NODE_SIZEOF < 2 ^ 31\<close> show ?thesis
  proof (cases rule: kmalloc_owns)
    case (null s')
    then show ?thesis using k by simp
  next
    case (new p s1 a1)
    have nm: "holds (str_at (lit ''/'')) (lit ''/'')" "length (lit ''/'') < 64" by (simp_all add: lit_simps)
    obtain m1 m2 where c: "memset (mem_put p) 0 0 NODE_SIZEOF (ram s1) = Some m1"
      "strcpy (mem_put p) (\<lambda>_. str_at (lit ''/'')) 0 m1 = Some m2" "same_outside (span p NODE_SIZEOF) (ram s1) m2"
      "holds (mem_at m2 p) (lit ''/'')"
      "\<And>k. 64 \<le> k \<Longrightarrow> k + 4 \<le> NODE_SIZEOF \<Longrightarrow> ld32 m2 (p + of_nat k) = Some 0"
      using node_cleared [OF new(4) nm, of "ram s1"] by metis
    obtain m3 where 3: "st32 (p + NODE_FLAGS) VFS_DIR m2 = Some m3" "ld32 m3 (p + NODE_FLAGS) = Some VFS_DIR"
      "same_outside {unat p + 64 ..< unat p + 68} m2 m3"
      using set_field [OF new(4), of 64 VFS_DIR m2] by auto
    obtain m4 where 4: "st32 (p + NODE_PRIVATE) p m3 = Some m4" "ld32 m4 (p + NODE_PRIVATE) = Some p"
      "same_outside {unat p + 76 ..< unat p + 80} m3 m4"
      using set_field [OF new(4), of 76 p m3] by auto
    obtain m5 where 5: "st32 (p + NODE_OPS) (ramfs_ops_at s1) m4 = Some m5" "ld32 m5 (p + NODE_OPS) = Some (ramfs_ops_at s1)"
      "same_outside {unat p + 80 ..< unat p + 84} m4 m5"
      using set_field [OF new(4), of 80 "ramfs_ops_at s1" m4] by auto
    have s35: "same_outside {unat p + 76 ..< unat p + 84} m3 m5"
      by (rule same_outside_trans [OF same_outside_mono [OF 4(3)] same_outside_mono [OF 5(3)]]) auto
    have s25: "same_outside {unat p + 64 ..< unat p + 84} m2 m5"
      by (rule same_outside_trans [OF same_outside_mono [OF 3(3)] same_outside_mono [OF s35]]) auto
    have out: "same_outside (span p NODE_SIZEOF) (ram s1) m5"
      by (rule same_outside_trans [OF c(3) same_outside_mono [OF s25]]) (auto simp: span_def)
    have more: "ramfs_ops_at s1 = ramfs_ops_at s" by (rule heap_more_fs(1) [OF new(8)])
    define s' where "s' = s1\<lparr>ram := m5\<rparr>"
    have run: "new_root s = Some (p, s')"
      using new(1) c(1,2) 3(1) 4(1) 5(1) by (simp add: new_root_def s'_def)
    have rep': "heap_rep a1 s'"
      unfolding s'_def by (rule heap_rep_payload [OF new(2) same_outside_mono [OF out owns_span [OF new(3)]]])
    have zero: "ld32 m5 (p + of_nat k) = Some 0" if "84 \<le> k" "k + 4 \<le> NODE_SIZEOF" for k
    proof -
      have "ld32 m5 (p + of_nat k) = ld32 m2 (p + of_nat k)"
        by (rule keep_field [OF new(4) that(2) s25]) (use that(1) in auto)
      then show ?thesis using c(5) [of k] that by simp
    qed
    have "ld32 m5 (p + of_nat 76) = ld32 m4 (p + of_nat 76)" by (rule keep_field [OF new(4) _ 5(3)]) auto
    moreover have "ld32 m5 (p + of_nat 64) = ld32 m3 (p + of_nat 64)" by (rule keep_field [OF new(4) _ s35]) auto
    moreover have "holds (mem_at m5 p) (lit ''/'')"
      by (rule holds_outside [OF s25 c(4)]) (use new(4) in \<open>auto simp: span_def accessible_def lit_simps\<close>)
    moreover have "same_outside (- \<Union>(used (fst a))) (ram s) m5"
      by (rule same_outside_trans [OF new(7) same_outside_mono [OF out]]) (use new(5) in blast)
    ultimately show ?thesis
      using that [OF run, of a1] rep' new(1,3,5,6,8) zero zero [of 224] 3(2) 4(2) 5(2) k more by (simp add: dir_rep_def s'_def)
  qed
qed

section \<open>Properties\<close>

text \<open>Looking a name up gives the first entry of the directory with exactly this name, or NULL when
  there is none.\<close>

lemma ramfs_lookup_finds:
  assumes "dir_rep a s d cs ns" and "holds name nm"
  shows "ramfs_lookup d name s = Some (entry cs ns nm)"
  using assms by (rule lookup_dir)

lemma entry_append:
  assumes "length ns = length cs"
  shows "entry (cs @ [c]) (ns @ [nm]) m = (if m = nm \<and> nm \<notin> set ns then c else entry cs ns m)"
proof -
  have "dom (map_of (zip ns cs)) = set ns" using assms by (simp add: dom_map_of_zip)
  then have "map_of (zip ns cs) nm = None \<longleftrightarrow> nm \<notin> set ns" by auto
  moreover have "map_of (zip (ns @ [nm]) (cs @ [c])) = map_of (zip ns cs @ [(nm, c)])" using assms by simp
  ultimately show ?thesis
    by (auto simp: entry_def map_add_def split: option.splits)
qed

lemma kept_bytes:
  assumes "heap_rep a s" and "same_outside (- \<Union>(used (fst a)) \<union> X) (ram s) m" and "x \<in> \<Union>(used (fst a)) - X"
  shows "m (of_nat x) = ram s (of_nat x)"
proof -
  obtain e where e: "e < 0x200000" "chained (fst a) e" using assms(1) heap_inv_end unfolding heap_rep_def by metis
  obtain P where "P \<in> used (fst a)" "x \<in> P" using assms(3) by blast
  then have "x < 4 * e" using used_bounds(2) [OF e(2)] by blast
  then have "unat (of_nat x :: u32) = x" using e(1) by (intro unat_of_nat_small) simp
  then show ?thesis using assms(2,3) by (simp add: same_outside_def)
qed

text \<open>While the directory has fewer than 32 entries and the heap has room, creating a node succeeds: the
  directory gets one more entry, which is found under its name unless an older entry hides it, all
  other names are found as before, the new node is itself an empty directory, and the contents of
  everything else in the heap are unchanged.\<close>

lemma ramfs_create_lookup:
  assumes "dir_rep a s d cs ns" and "holds name nm" and "length nm < 64" and "length cs < 32"
    and "heap_room NODE_SIZEOF s"
  shows "\<exists>c s' a'. ramfs_create d name flags s = Some (0, s')
    \<and> dir_rep a' s' d (cs @ [c]) (ns @ [nm]) \<and> dir_rep a' s' c [] []
    \<and> (\<forall>r m. holds r m \<longrightarrow>
         ramfs_lookup d r s' = Some (if m = nm \<and> nm \<notin> set ns then c else entry cs ns m))
    \<and> (\<forall>x \<in> \<Union>(used (fst a)) - span d NODE_SIZEOF. ram s' (of_nat x) = ram s (of_nat x))"
proof -
  have rep: "heap_rep a s" "length ns = length cs" using assms(1) by (simp_all add: dir_rep_def)
  obtain p s1 where k: "kmalloc (of_nat NODE_SIZEOF) s = Some (p, s1)" "p \<noteq> 0"
    using kmalloc_room [OF rep(1) _ assms(5)] by auto
  from assms(1-4) show ?thesis
  proof (cases rule: create_dir [where flags = flags])
    case (no_memory s1)
    then show ?thesis using k by simp
  next
    case (created c s' a')
    have "ramfs_lookup d r s' = Some (if m = nm \<and> nm \<notin> set ns then c else entry cs ns m)" if "holds r m" for r m
      using lookup_dir [OF created(2) that] entry_append [OF rep(2)] by simp
    moreover note kept_bytes [OF rep(1) same_outside_mono [OF created(9)], of "span d NODE_SIZEOF"]
    ultimately show ?thesis using created(1-3) slots_span [OF assms(4)] by blast
  qed
qed

text \<open>A directory takes at most 32 entries: the next creation is refused with -1 and changes nothing.\<close>

lemma ramfs_create_full:
  assumes "dir_rep a s d cs ns" and "length cs = 32"
  shows "ramfs_create d name flags s = Some (- 1, s)"
proof -
  have "d \<noteq> 0" using assms(1) owns_accessible [of a s d NODE_SIZEOF] by (simp add: dir_rep_def)
  then show ?thesis using assms by (simp add: ramfs_create_def dir_rep_def)
qed

text \<open>A defect: no caller of \<open>kmalloc\<close> here looks at its answer, and clearing the node at NULL faults.\<close>

lemma ramfs_create_no_memory:
  assumes "dir_rep a s d cs ns" and "holds name nm" and "length nm < 64" and "length cs < 32"
    and "kmalloc (of_nat NODE_SIZEOF) s = Some (0, s1)"
  shows "ramfs_create d name flags s = None"
  using assms(1-4)
proof (cases rule: create_dir [where flags = flags])
  case (created c s' a')
  have rep: "heap_rep a s" using assms(1) by (simp add: dir_rep_def)
  have d: "d \<noteq> 0" "ld32 (ram s) (d + NODE_PRIVATE) = Some d" "ld32 (ram s) (d + NODE_COUNT) = Some (of_nat (length cs))"
    using assms(1) owns_accessible [of a s d NODE_SIZEOF] by (simp_all add: dir_rep_def)
  have "unat (of_nat (length cs) :: u32) = length cs" using assms(4) by (intro unat_of_nat_small) simp
  then have "\<not> 32 \<le> (of_nat (length cs) :: u32)" using assms(4) by (simp add: word_le_nat_alt)
  moreover have "memset (mem_put 0) 0 0 NODE_SIZEOF (ram s1) = None" by (rule null_memset) simp
  ultimately show ?thesis using d assms(5) by (simp add: ramfs_create_def)
qed simp

text \<open>C30: what is written to a file is read back: a write inside or at the end of a file, with room in the
  heap, replaces exactly these bytes and extends the file as needed, and reading at the same place
  gives the bytes written; files and directories elsewhere keep their contents.\<close>

theorem ramfs_write_read:
  assumes "file_rep a s f p cap data" and "off \<le> length data" and "0 < length bs"
    and "\<forall>i < length bs. buffer i = Some (bs ! i)" and "heap_room (off + length bs) s"
  shows "\<exists>s' a' q cap'. ramfs_write f (of_nat off) (of_nat (length bs)) buffer s = Some (of_nat (length bs), s')
    \<and> file_rep a' s' f q cap' (patch off bs data)
    \<and> (\<forall>dest. length bs \<le> length dest \<longrightarrow>
         ramfs_read f (of_nat off) (of_nat (length bs)) dest s' = Some (of_nat (length bs), bs @ drop (length bs) dest))
    \<and> (\<forall>x \<in> \<Union>(used (fst a)) - data_fields f - span p cap. ram s' (of_nat x) = ram s (of_nat x))"
proof -
  have rep: "heap_rep a s" using assms(1) by (simp add: file_rep_def)
  have n: "off + length bs < 2 ^ 31" "0 < off + length bs" using assms(3,5) by (simp_all add: heap_room_def)
  obtain p0 s0 where k: "kmalloc (of_nat (off + length bs)) s = Some (p0, s0)" "p0 \<noteq> 0"
    using kmalloc_room [OF rep n(2) assms(5)] by auto
  from assms(1-3) n(1) assms(4) show ?thesis
  proof (cases rule: write_file)
    case (no_memory s1)
    then show ?thesis using k by simp
  next
    case (written s' a' q cap')
    have l: "length (patch off bs data) = max (length data) (off + length bs)"
      "take (length bs) (drop off (patch off bs data)) = bs"
      using patch_nth(1) [OF assms(2)] assms(2) by (simp_all add: patch_def)
    have m: "min (length bs) (length (patch off bs data) - off) = length bs" using l(1) by simp
    have "ramfs_read f (of_nat off) (of_nat (length bs)) dest s' = Some (of_nat (length bs), bs @ drop (length bs) dest)"
      if "length bs \<le> length dest" for dest
      using read_file [OF written(2) n(1), of dest, unfolded m l(2), OF that] .
    moreover have "ram s' (of_nat x) = ram s (of_nat x)" if "x \<in> \<Union>(used (fst a)) - data_fields f - span p cap" for x
      using kept_bytes [OF rep, of "data_fields f \<union> span p cap"] written(5) that by (simp add: Un_assoc)
    ultimately show ?thesis using written(1,2) by blast
  qed
qed

text \<open>An empty heap and no file system yet; then a root directory and a file in it.\<close>

definition empty_disk :: fs where
  "empty_disk = descriptors.extend (boot_tables\<lparr>heap_start := 0x400000, heap_end := 0x400000\<rparr>)
     (fs.fields False 0x200000 False False False False False (\<lambda>_. (0, 0)) 0 0)"

lemma empty_disk_rep: "heap_rep ([], 0x100000) empty_disk" "heap_end empty_disk = 0x400000"
  by (simp_all add: heap_rep_def heap_inv_def empty_disk_def descriptors.defs boot_tables_def heap.defs power_on_def adr_def)

lemma fresh_root:
  obtains r s a where "new_root empty_disk = Some (r, s)" "dir_rep a s r [] []" "unat (heap_end s) \<le> 0x400000 + 992"
proof -
  have "heap_room NODE_SIZEOF empty_disk" by (simp add: heap_room_def empty_disk_rep(2))
  from empty_disk_rep(1) this obtain r s a where
    "new_root empty_disk = Some (r, s)" "dir_rep a s r [] []"
    "unat (heap_end s) \<le> unat (heap_end empty_disk) + 4 * NODE_SIZEOF + 80"
    by (rule new_root_ok)
  then show ?thesis using that by (simp add: empty_disk_rep(2))
qed

lemma fresh_file:
  obtains r s1 f s2 a where "new_root empty_disk = Some (r, s1)"
    "ramfs_create r (str_at (lit ''log'')) VFS_FILE s1 = Some (0, s2)" "dir_rep a s2 r [f] [lit ''log'']"
    "file_rep a s2 f 0 0 []" "unat (heap_end s2) \<le> 0x400000 + 1984"
proof -
  obtain r s1 a1 where r: "new_root empty_disk = Some (r, s1)" "dir_rep a1 s1 r [] []" "unat (heap_end s1) \<le> 0x400000 + 992"
    by (rule fresh_root)
  have room: "heap_room NODE_SIZEOF s1" using r(3) by (simp add: heap_room_def)
  have rep: "heap_rep a1 s1" using r(2) by (simp add: dir_rep_def)
  have nm: "holds (str_at (lit ''log'')) (lit ''log'')" "length (lit ''log'') < 64" by (simp_all add: lit_simps)
  obtain p0 s0 where k: "kmalloc (of_nat NODE_SIZEOF) s1 = Some (p0, s0)" "p0 \<noteq> 0"
    "unat (heap_end s0) \<le> unat (heap_end s1) + 4 * NODE_SIZEOF + 80"
    using kmalloc_room [OF rep _ room] by auto
  have "length ([] :: u32 list) < 32" by simp
  from r(2) nm this show ?thesis
  proof (cases rule: create_dir [where flags = VFS_FILE])
    case (no_memory s1)
    then show ?thesis using k by simp
  next
    case (created c s' a')
    then show ?thesis using that [OF r(1) created(1)] k r(3) by auto
  qed
qed

lemma ramfs_lookup_finds_witness:
  "\<exists>r f s1 s2. new_root empty_disk = Some (r, s1) \<and> ramfs_create r (str_at (lit ''log'')) VFS_FILE s1 = Some (0, s2)
     \<and> ramfs_lookup r (str_at (lit ''log'')) s2 = Some f \<and> ramfs_lookup r (str_at (lit ''tmp'')) s2 = Some 0"
proof -
  obtain r s1 f s2 a where f: "new_root empty_disk = Some (r, s1)"
    "ramfs_create r (str_at (lit ''log'')) VFS_FILE s1 = Some (0, s2)" "dir_rep a s2 r [f] [lit ''log'']"
    by (rule fresh_file)
  have "ramfs_lookup r (str_at (lit ''log'')) s2 = Some f" "ramfs_lookup r (str_at (lit ''tmp'')) s2 = Some 0"
    using ramfs_lookup_finds [OF f(3), of "str_at (lit ''log'')" "lit ''log''"]
      ramfs_lookup_finds [OF f(3), of "str_at (lit ''tmp'')" "lit ''tmp''"]
    by (simp_all add: lit_simps entry_def)
  with f(1,2) show ?thesis by blast
qed

lemma ramfs_create_lookup_witness:
  "\<exists>r s1 c s2. new_root empty_disk = Some (r, s1) \<and> ramfs_create r (str_at (lit ''bin'')) VFS_DIR s1 = Some (0, s2)
     \<and> ramfs_lookup r (str_at (lit ''bin'')) s2 = Some c"
proof -
  obtain r s1 a where r: "new_root empty_disk = Some (r, s1)" "dir_rep a s1 r [] []" "unat (heap_end s1) \<le> 0x400000 + 992"
    by (rule fresh_root)
  have "heap_room NODE_SIZEOF s1" using r(3) by (simp add: heap_room_def)
  then obtain c s2 where c: "ramfs_create r (str_at (lit ''bin'')) VFS_DIR s1 = Some (0, s2)"
    "\<forall>x m. holds x m \<longrightarrow> ramfs_lookup r x s2 = Some (if m = lit ''bin'' \<and> lit ''bin'' \<notin> set [] then c else entry [] [] m)"
    using ramfs_create_lookup [OF r(2), of "str_at (lit ''bin'')" "lit ''bin''" VFS_DIR] by (auto simp: lit_simps)
  have "ramfs_lookup r (str_at (lit ''bin'')) s2 = Some c"
    using c(2) [rule_format, of "str_at (lit ''bin'')" "lit ''bin''"] by (simp add: lit_simps)
  with r(1) c(1) show ?thesis by blast
qed

theorem ramfs_write_read_witness:
  "\<exists>r s1 f s2 s3. new_root empty_disk = Some (r, s1) \<and> ramfs_create r (str_at (lit ''log'')) VFS_FILE s1 = Some (0, s2)
     \<and> ramfs_write f 0 2 (str_at (lit ''ok'')) s2 = Some (2, s3)
     \<and> ramfs_read f 0 2 [0, 0, 0] s3 = Some (2, [0x6F, 0x6B, 0])"
proof -
  obtain r s1 f s2 a where f: "new_root empty_disk = Some (r, s1)"
    "ramfs_create r (str_at (lit ''log'')) VFS_FILE s1 = Some (0, s2)" "file_rep a s2 f 0 0 []"
    "unat (heap_end s2) \<le> 0x400000 + 1984"
    by (rule fresh_file)
  have room: "heap_room (0 + length (lit ''ok'')) s2" using f(4) by (simp add: heap_room_def)
  have "\<forall>i < length (lit ''ok''). str_at (lit ''ok'') i = Some (lit ''ok'' ! i)"
    by (auto simp: str_at_def buf_at_def nth_append)
  then have *: "\<exists>s' a' q cap'. ramfs_write f (of_nat 0) (of_nat 2) (str_at (lit ''ok'')) s2 = Some (of_nat 2, s')
    \<and> file_rep a' s' f q cap' (patch 0 (lit ''ok'') [])
    \<and> (\<forall>dest. 2 \<le> length dest \<longrightarrow>
         ramfs_read f (of_nat 0) (of_nat 2) dest s' = Some (of_nat 2, lit ''ok'' @ drop 2 dest))
    \<and> (\<forall>x \<in> \<Union>(used (fst a)) - data_fields f - span 0 0. ram s' (of_nat x) = ram s2 (of_nat x))"
    using ramfs_write_read [OF f(3), of 0 "lit ''ok''" "str_at (lit ''ok'')"] room by (simp add: numeral_2_eq_2)
  then obtain s3 where w: "ramfs_write f (of_nat 0) (of_nat 2) (str_at (lit ''ok'')) s2 = Some (of_nat 2, s3)"
    "\<forall>dest. 2 \<le> length dest \<longrightarrow> ramfs_read f (of_nat 0) (of_nat 2) dest s3 = Some (of_nat 2, lit ''ok'' @ drop 2 dest)"
    by blast
  have "ramfs_write f 0 2 (str_at (lit ''ok'')) s2 = Some (2, s3)" using w(1) by simp
  moreover have "ramfs_read f 0 2 [0, 0, 0] s3 = Some (2, [0x6F, 0x6B, 0])"
    using w(2) [rule_format, of "[0, 0, 0]"] by (simp add: lit_simps)
  ultimately show ?thesis using f(1,2) by blast
qed

end
