(* ===== verification/FileTree.thy ===== *)
theory FileTree
  imports Files
begin

text \<open>
  The file system as an abstract tree: every node with its name, flags, entries and contents, and the
  representation of the whole tree in kernel memory. Creating a node and writing a file, as
  \<open>fs/ramfs/ramfs.c\<close> does them, are the corresponding updates of the tree and nothing else.
\<close>

section \<open>Trees\<close>

record fnode =
  n_name :: cstr
  n_flags :: u32
  n_children :: "u32 list"
  n_buf :: u32
  n_cap :: nat
  n_data :: "u8 list"

type_synonym tree = "u32 \<rightharpoonup> fnode"

definition empty_node :: "cstr \<Rightarrow> u32 \<Rightarrow> fnode" where
  "empty_node nm flags = \<lparr>n_name = nm, n_flags = flags, n_children = [], n_buf = 0, n_cap = 0, n_data = []\<rparr>"

definition names :: "tree \<Rightarrow> fnode \<Rightarrow> cstr list" where
  "names T nd = map (\<lambda>c. n_name (the (T c))) (n_children nd)"

text \<open>The first entry with a name; 0 when there is none.\<close>

definition find_entry :: "tree \<Rightarrow> u32 \<Rightarrow> cstr \<Rightarrow> u32" where
  "find_entry T x nm = entry (n_children (the (T x))) (names T (the (T x))) nm"

definition tree_create :: "u32 \<Rightarrow> cstr \<Rightarrow> u32 \<Rightarrow> u32 \<Rightarrow> tree \<Rightarrow> tree" where
  "tree_create d nm flags c T =
     T(d \<mapsto> the (T d)\<lparr>n_children := n_children (the (T d)) @ [c]\<rparr>, c \<mapsto> empty_node nm flags)"

definition tree_write :: "u32 \<Rightarrow> nat \<Rightarrow> u8 list \<Rightarrow> u32 \<Rightarrow> nat \<Rightarrow> tree \<Rightarrow> tree" where
  "tree_write f off bs q cap T =
     T(f \<mapsto> the (T f)\<lparr>n_buf := q, n_cap := cap, n_data := patch off bs (n_data (the (T f)))\<rparr>)"

section \<open>Trees in memory\<close>

definition node_at :: "mem \<Rightarrow> u32 \<Rightarrow> u32 \<Rightarrow> fnode \<Rightarrow> bool" where
  "node_at m ops x nd \<longleftrightarrow>
     length (n_name nd) < 64 \<and> holds (mem_at m x) (n_name nd)
     \<and> ld32 m (x + NODE_FLAGS) = Some (n_flags nd) \<and> ld32 m (x + NODE_PRIVATE) = Some x
     \<and> ld32 m (x + NODE_OPS) = Some ops \<and> ld32 m (x + NODE_DATA) = Some (n_buf nd)
     \<and> ld32 m (x + NODE_SIZE) = Some (of_nat (length (n_data nd)))
     \<and> ld32 m (x + NODE_CAPACITY) = Some (of_nat (n_cap nd))
     \<and> ld32 m (x + NODE_COUNT) = Some (of_nat (length (n_children nd)))
     \<and> length (n_children nd) \<le> 32 \<and> length (n_data nd) \<le> n_cap nd \<and> n_cap nd < 2 ^ 31
     \<and> (\<forall>i < length (n_children nd). ld32 m (x + NODE_CHILDREN + 4 * of_nat i) = Some (n_children nd ! i))
     \<and> (\<forall>i < length (n_data nd). m (n_buf nd + of_nat i) = n_data nd ! i)"

definition areas :: "u32 \<Rightarrow> fnode \<Rightarrow> nat set" where
  "areas x nd = span x NODE_SIZEOF \<union> (if n_buf nd = 0 then {} else span (n_buf nd) (n_cap nd))"

definition placed :: "block list \<times> nat \<Rightarrow> u32 \<Rightarrow> fnode \<Rightarrow> bool" where
  "placed a x nd \<longleftrightarrow> owns a x NODE_SIZEOF
     \<and> (if n_buf nd = 0 then n_cap nd = 0
        else 0 < n_cap nd \<and> owns a (n_buf nd) (n_cap nd) \<and> span (n_buf nd) (n_cap nd) \<inter> span x NODE_SIZEOF = {})"

definition tree_rep :: "block list \<times> nat \<Rightarrow> 'a fs_scheme \<Rightarrow> tree \<Rightarrow> bool" where
  "tree_rep a s T \<longleftrightarrow> heap_rep a s
     \<and> (\<forall>x nd. T x = Some nd \<longrightarrow>
          node_at (ram s) (ramfs_ops_at s) x nd \<and> placed a x nd \<and> set (n_children nd) \<subseteq> dom T - {x})
     \<and> (\<forall>x y nx ny. T x = Some nx \<longrightarrow> T y = Some ny \<longrightarrow> x \<noteq> y \<longrightarrow> areas x nx \<inter> areas y ny = {})"

lemma tree_node:
  assumes "tree_rep a s T" and "T x = Some nd"
  shows "heap_rep a s" "node_at (ram s) (ramfs_ops_at s) x nd" "placed a x nd" "set (n_children nd) \<subseteq> dom T - {x}"
    "accessible x NODE_SIZEOF" "x \<noteq> 0" "areas x nd \<subseteq> \<Union>(used (fst a))" "owns a x NODE_SIZEOF"
    "n_buf nd \<noteq> 0 \<Longrightarrow> accessible (n_buf nd) (n_cap nd)"
proof -
  show rep: "heap_rep a s" "node_at (ram s) (ramfs_ops_at s) x nd" "set (n_children nd) \<subseteq> dom T - {x}"
    and p: "placed a x nd" and o: "owns a x NODE_SIZEOF"
    using assms by (auto simp: tree_rep_def placed_def)
  show "accessible x NODE_SIZEOF" "x \<noteq> 0" using owns_accessible [OF rep(1) o] by simp_all
  show "areas x nd \<subseteq> \<Union>(used (fst a))"
    using p owns_span [OF o] owns_span [of a "n_buf nd" "n_cap nd"] by (auto simp: areas_def placed_def)
  show "accessible (n_buf nd) (n_cap nd)" if "n_buf nd \<noteq> 0"
    using that p owns_accessible(1) [OF rep(1)] by (simp add: placed_def)
qed

lemma tree_apart:
  assumes "tree_rep a s T" and "T x = Some nx" and "T y = Some ny" and "x \<noteq> y"
  shows "areas x nx \<inter> areas y ny = {}"
  using assms unfolding tree_rep_def by blast

lemma node_span: "span x NODE_SIZEOF \<subseteq> areas x nd"
  by (simp add: areas_def)

lemma tree_dir:
  assumes T: "tree_rep a s T" and x: "T x = Some nd"
  shows "dir_rep a s x (n_children nd) (names T nd)"
proof -
  note tn = tree_node [OF T x]
  have "owns a c NODE_SIZEOF \<and> span c NODE_SIZEOF \<inter> span x NODE_SIZEOF = {}
      \<and> length (n_name (the (T c))) < 64 \<and> holds (mem_at (ram s) c) (n_name (the (T c)))"
    if c: "c \<in> set (n_children nd)" for c
  proof -
    obtain nc where c: "T c = Some nc" "c \<noteq> x" using tn(4) c by blast
    show ?thesis
      using tree_node(2,8) [OF T c(1)] tree_apart [OF T c(1) x c(2)] node_span [of c nc] node_span [of x nd] c(1)
      by (auto simp: node_at_def)
  qed
  then show ?thesis using tn by (simp add: dir_rep_def node_at_def names_def)
qed

lemma tree_file:
  assumes T: "tree_rep a s T" and x: "T x = Some nd" and "n_flags nd AND VFS_DIR = 0"
  shows "file_rep a s x (n_buf nd) (n_cap nd) (n_data nd)"
  using tree_node [OF T x] assms(3) by (simp add: file_rep_def node_at_def placed_def)

lemma tree_lookup:
  assumes "tree_rep a s T" and "T x = Some nd" and "holds r nm"
  shows "ramfs_lookup x r s = Some (find_entry T x nm)"
  using lookup_dir [OF tree_dir [OF assms(1,2)] assms(3)] assms(2) by (simp add: find_entry_def)

lemma entry_cases: "length ns = length cs \<Longrightarrow> entry cs ns nm = 0 \<or> entry cs ns nm \<in> set cs"
  by (auto simp: entry_def split: option.splits dest!: map_of_SomeD set_zip_rightD)

lemma find_entry_in:
  assumes "tree_rep a s T" and "x \<in> dom T" and "find_entry T x nm \<noteq> 0"
  shows "find_entry T x nm \<in> dom T"
proof -
  obtain nd where x: "T x = Some nd" using assms(2) by blast
  then have "find_entry T x nm \<in> set (n_children nd)"
    using entry_cases [of "names T nd" "n_children nd" nm] assms(3) by (simp add: find_entry_def names_def)
  then show ?thesis using tree_node(4) [OF assms(1) x] by blast
qed

text \<open>A node stays as it is when its areas are not touched.\<close>

lemma node_at_keep:
  assumes nd: "node_at m ops x nd" and m: "same_outside X m m'" and X: "areas x nd \<inter> X = {}"
    and acc: "accessible x NODE_SIZEOF" "n_buf nd \<noteq> 0 \<Longrightarrow> accessible (n_buf nd) (n_cap nd)"
    and buf: "n_buf nd = 0 \<Longrightarrow> n_data nd = []"
  shows "node_at m' ops x nd"
proof -
  have sx: "span x NODE_SIZEOF \<inter> X = {}" using X node_span [of x nd] by blast
  have k: "ld32 m' (x + of_nat k) = ld32 m (x + of_nat k)" if "k + 4 \<le> NODE_SIZEOF" for k
    by (rule keep_inside [OF acc(1) that m sx])
  have ch: "ld32 m' (x + NODE_CHILDREN + 4 * of_nat i) = ld32 m (x + NODE_CHILDREN + 4 * of_nat i)" if "i < 32" for i
    using k [of "96 + 4 * i"] that by (simp add: add.assoc)
  have name: "holds (mem_at m' x) (n_name nd)"
  proof (rule holds_outside [OF m])
    show "holds (mem_at m x) (n_name nd)" using nd by (simp add: node_at_def)
    have l: "length (n_name nd) < 64" using nd by (simp add: node_at_def)
    then have "span x (length (n_name nd) + 1) \<subseteq> span x NODE_SIZEOF" by (auto simp: span_def)
    then show "span x (length (n_name nd) + 1) \<inter> X = {}" using sx by blast
    show "unat x + length (n_name nd) < 2 ^ 32" using l acc(1) by (simp add: accessible_def)
  qed
  have data: "m' (n_buf nd + of_nat i) = m (n_buf nd + of_nat i)" if "i < length (n_data nd)" for i
  proof -
    have b: "n_buf nd \<noteq> 0" using buf that by auto
    have i: "i < n_cap nd" using that nd by (simp add: node_at_def)
    then have "unat (n_buf nd + of_nat i) \<in> span (n_buf nd) (n_cap nd)"
      using inside(1) [OF acc(2) [OF b], of i 1] by (simp add: span_def)
    then have "unat (n_buf nd + of_nat i) \<notin> X" using X b by (auto simp: areas_def)
    then show ?thesis using m by (simp add: same_outside_def)
  qed
  show ?thesis
    using nd name ch data k [of 64] k [of 76] k [of 80] k [of 84] k [of 88] k [of 92] k [of 224]
    by (simp add: node_at_def)
qed

lemma placed_mono: "placed a x nd \<Longrightarrow> used (fst a) \<subseteq> used (fst a') \<Longrightarrow> placed a' x nd"
  by (auto simp: placed_def intro: owns_mono split: if_splits)

text \<open>A node survives a step that touches none of its areas; memory not in use does not matter.\<close>

lemma tree_others:
  assumes T: "tree_rep a s T" and m: "same_outside (- \<Union>(used (fst a)) \<union> X) (ram s) m'"
    and a: "used (fst a) \<subseteq> used (fst a')" and y: "T y = Some ny" and X: "X \<inter> areas y ny = {}"
  shows "node_at m' (ramfs_ops_at s) y ny \<and> placed a' y ny"
proof -
  note ty = tree_node [OF T y]
  have "areas y ny \<inter> (- \<Union>(used (fst a)) \<union> X) = {}" using ty(7) X by auto
  moreover have "n_data ny = []" if "n_buf ny = 0" using that ty(2,3) by (simp add: node_at_def placed_def)
  ultimately have "node_at m' (ramfs_ops_at s) y ny"
    using node_at_keep [OF ty(2) m _ ty(5,9)] by blast
  then show ?thesis using placed_mono [OF ty(3) a] by blast
qed

section \<open>Creating\<close>

lemma ramfs_create_tree:
  assumes T: "tree_rep a s T" and d: "T d = Some nd" and nm: "holds name nm" "length nm < 64"
    and room: "length (n_children nd) < 32" "heap_room NODE_SIZEOF s"
  obtains c s' a' where "ramfs_create d name flags s = Some (0, s')" "T c = None" "c \<noteq> 0"
    "tree_rep a' s' (tree_create d nm flags c T)" "heap.more s' = heap.more s"
    "unat (heap_end s') \<le> unat (heap_end s) + 4 * NODE_SIZEOF + 80"
proof -
  note td = tree_node [OF T d]
  obtain p0 s0 where k: "kmalloc (of_nat NODE_SIZEOF) s = Some (p0, s0)" "p0 \<noteq> 0"
    "unat (heap_end s0) \<le> unat (heap_end s) + 4 * NODE_SIZEOF + 80"
    using kmalloc_room [OF td(1) _ room(2)] by auto
  let ?U = "\<Union>(used (fst a))"
  from tree_dir [OF T d] nm room(1) show ?thesis
  proof (cases rule: create_dir [where flags = flags])
    case (no_memory s1)
    then show ?thesis using k by simp
  next
    case (created c s' a')
    let ?nd = "nd\<lparr>n_children := n_children nd @ [c]\<rparr>"
    let ?T = "tree_create d nm flags c T"
    have oc: "owns a' c NODE_SIZEOF" and rep: "heap_rep a' s'" using created(3) by (simp_all add: dir_rep_def)
    have acc: "accessible c NODE_SIZEOF" "c \<noteq> 0" using owns_accessible [OF rep oc] by simp_all
    have mem: "unat c \<in> span c NODE_SIZEOF" by (simp add: span_def)
    have new: "T c = None"
    proof (rule ccontr)
      assume "T c \<noteq> None"
      then obtain nc where "T c = Some nc" by blast
      then have "unat c \<in> ?U" using tree_node(7) [OF T] node_span mem by blast
      then show False using created(10) mem by blast
    qed
    have cd: "c \<noteq> d" using new d by auto
    have Tx: "?T x = (if x = c then Some (empty_node nm flags) else if x = d then Some ?nd else T x)" for x
      by (simp add: tree_create_def d cd)
    have ops: "ramfs_ops_at s' = ramfs_ops_at s" by (rule heap_more_fs(1) [OF created(13)])
    have more: "areas d ?nd = areas d nd" by (simp add: areas_def)
    have ac: "areas c (empty_node nm flags) = span c NODE_SIZEOF" by (simp add: areas_def empty_node_def)
    have slots: "slots d (length (n_children nd)) \<subseteq> span d NODE_SIZEOF" by (rule slots_span [OF room(1)])
    have nc: "node_at (ram s') (ramfs_ops_at s) c (empty_node nm flags)"
      using created(3,4,6,11) created(12) [of 84] created(12) [of 88] created(12) [of 92] nm(2) td(2)
      by (simp add: node_at_def empty_node_def dir_rep_def)
    have ndd: "node_at (ram s') (ramfs_ops_at s) d ?nd"
    proof -
      let ?X = "- ?U \<union> slots d (length (n_children nd))"
      have keep: "ld32 (ram s') (d + of_nat j) = ld32 (ram s) (d + of_nat j)" if "j + 4 \<le> 96" for j
        by (rule keep_field [OF td(5) _ created(9)])
          (use that owns_span [OF td(8)] sub_field [of j NODE_SIZEOF d] in \<open>auto simp: slots_def\<close>)
      have "holds (mem_at (ram s') d) (n_name nd)"
      proof (rule holds_outside [OF created(9)])
        show "holds (mem_at (ram s) d) (n_name nd)" using td(2) by (simp add: node_at_def)
        have l: "length (n_name nd) < 64" using td(2) by (simp add: node_at_def)
        then have "span d (length (n_name nd) + 1) \<subseteq> span d NODE_SIZEOF"
          "span d (length (n_name nd) + 1) \<inter> slots d (length (n_children nd)) = {}"
          by (auto simp: span_def slots_def)
        then show "span d (length (n_name nd) + 1) \<inter> ?X = {}" using owns_span [OF td(8)] by blast
        show "unat d + length (n_name nd) < 2 ^ 32" using l td(5) by (simp add: accessible_def)
      qed
      moreover have "ram s' (n_buf nd + of_nat i) = ram s (n_buf nd + of_nat i)" if "i < length (n_data nd)" for i
      proof -
        have b: "n_buf nd \<noteq> 0" and i: "i < n_cap nd" using that td(2,3) by (auto simp: node_at_def placed_def split: if_splits)
        then have "unat (n_buf nd + of_nat i) \<in> span (n_buf nd) (n_cap nd)"
          using inside(1) [OF td(9) [OF b], of i 1] by (simp add: span_def)
        then have "unat (n_buf nd + of_nat i) \<notin> ?X"
          using td(3,7) b slots by (auto simp: areas_def placed_def split: if_splits)
        then show ?thesis using created(9) by (simp add: same_outside_def)
      qed
      moreover have "dir_rep a' s' d (n_children nd @ [c]) (names T nd @ [nm])" by (rule created(2))
      ultimately show ?thesis
        using td(2) keep [of 64] keep [of 76] keep [of 80] keep [of 84] keep [of 88] keep [of 92]
        by (simp add: node_at_def dir_rep_def)
    qed
    have others: "node_at (ram s') (ramfs_ops_at s) y ny \<and> placed a' y ny" if "T y = Some ny" "y \<noteq> d" for y ny
      by (rule tree_others [OF T created(9) created(8) that(1)])
        (use slots node_span [of d nd] tree_apart [OF T d that(1)] that(2) in blast)
    have pd: "placed a' d ?nd" using placed_mono [OF td(3) created(8)] by (simp add: placed_def)
    have pc: "placed a' c (empty_node nm flags)" using oc by (simp add: placed_def empty_node_def)
    have old: "areas y ny \<subseteq> ?U" if "T y = Some ny" for y ny by (rule tree_node(7) [OF T that])
    have "tree_rep a' s' ?T"
      unfolding tree_rep_def ops
    proof (intro conjI allI impI)
      show "heap_rep a' s'" by (rule rep)
      fix x n assume x: "?T x = Some n"
      show "node_at (ram s') (ramfs_ops_at s) x n" "placed a' x n"
        using x nc ndd others pc pd by (auto simp: Tx split: if_splits)
      show "set (n_children n) \<subseteq> dom ?T - {x}"
        using x tree_node(4) [OF T, of x] td(4) new cd d by (auto simp: Tx empty_node_def split: if_splits)
    next
      fix x y n n' assume xy: "?T x = Some n" "?T y = Some n'" "x \<noteq> y"
      have oldT: "\<exists>n0. T z = Some n0 \<and> areas z n0 = areas z nz" if "?T z = Some nz" "z \<noteq> c" for z nz
        using that d more by (auto simp: Tx split: if_splits)
      have cU: "areas z nz \<inter> span c NODE_SIZEOF = {}" if "?T z = Some nz" "z \<noteq> c" for z nz
        using oldT [OF that] old created(10) by blast
      show "areas x n \<inter> areas y n' = {}"
      proof (cases "x = c \<or> y = c")
        case True
        then show ?thesis using xy cU [OF xy(1)] cU [OF xy(2)] ac by (auto simp: Tx)
      next
        case False
        then show ?thesis using oldT [OF xy(1)] oldT [OF xy(2)] tree_apart [OF T _ _ xy(3)] by metis
      qed
    qed
    moreover have "unat (heap_end s') \<le> unat (heap_end s) + 4 * NODE_SIZEOF + 80" using created(14) k by auto
    ultimately show ?thesis using that [OF created(1) new acc(2)] created(13) by blast
  qed
qed

section \<open>Writing\<close>

lemma ramfs_write_tree:
  assumes T: "tree_rep a s T" and f: "T f = Some nd" "n_flags nd AND VFS_DIR = 0"
    and off: "off \<le> length (n_data nd)" and n: "0 < length bs" "heap_room (off + length bs) s"
    and buf: "\<forall>i < length bs. buffer i = Some (bs ! i)"
  obtains q cap s' a' where
    "ramfs_write f (of_nat off) (of_nat (length bs)) buffer s = Some (of_nat (length bs), s')"
    "tree_rep a' s' (tree_write f off bs q cap T)" "heap.more s' = heap.more s"
    "unat (heap_end s') \<le> unat (heap_end s) + 4 * (off + length bs) + 80"
proof -
  note tf = tree_node [OF T f(1)]
  have n2: "off + length bs < 2 ^ 31" "0 < off + length bs" using n by (simp_all add: heap_room_def)
  obtain p0 s0 where k: "kmalloc (of_nat (off + length bs)) s = Some (p0, s0)" "p0 \<noteq> 0"
    "unat (heap_end s0) \<le> unat (heap_end s) + 4 * (off + length bs) + 80"
    using kmalloc_room [OF tf(1) n2(2) n(2)] by blast
  let ?U = "\<Union>(used (fst a))"
  let ?p = "n_buf nd" and ?c = "n_cap nd"
  from tree_file [OF T f] off n(1) n2(1) buf show ?thesis
  proof (cases rule: write_file)
    case (no_memory s1)
    then show ?thesis using k by simp
  next
    case (written s' a' q cap')
    let ?nd = "nd\<lparr>n_buf := q, n_cap := cap', n_data := patch off bs (n_data nd)\<rparr>"
    let ?X = "data_fields f \<union> span ?p ?c"
    let ?T = "tree_write f off bs q cap' T"
    have Tx: "?T x = (if x = f then Some ?nd else T x)" for x by (simp add: tree_write_def f)
    have ops: "ramfs_ops_at s' = ramfs_ops_at s" by (rule heap_more_fs(1) [OF written(4)])
    have rep: "heap_rep a' s'" using written(2) by (simp add: file_rep_def)
    have X: "?X \<subseteq> areas f nd"
      using data_fields_span [of f] tf(3) by (auto simp: areas_def placed_def span_def split: if_splits)
    have m: "same_outside (- ?U \<union> ?X) (ram s) (ram s')" using written(5) by (simp add: Un_assoc)
    have others: "node_at (ram s') (ramfs_ops_at s) y ny \<and> placed a' y ny" if "T y = Some ny" "y \<noteq> f" for y ny
      by (rule tree_others [OF T m written(3) that(1)])
        (use X tree_apart [OF T f(1) that(1)] that(2) in blast)
    have spf: "span f NODE_SIZEOF \<subseteq> ?U" "span f NODE_SIZEOF \<inter> span ?p ?c = {}"
      using owns_span [OF tf(8)] tf(3) by (auto simp: placed_def span_def split: if_splits)
    have nf: "node_at (ram s') (ramfs_ops_at s) f ?nd"
    proof -
      have keep: "ld32 (ram s') (f + of_nat j) = ld32 (ram s) (f + of_nat j)"
        if "j + 4 \<le> NODE_SIZEOF" "j + 4 \<le> 84 \<or> 96 \<le> j" for j
      proof (rule keep_field [OF tf(5) that(1) m])
        have "{unat f + j ..< unat f + (j + 4)} \<inter> data_fields f = {}" using that(2) by (auto simp: data_fields_def)
        then show "{unat f + j ..< unat f + (j + 4)} \<inter> (- ?U \<union> ?X) = {}"
          using sub_field [OF that(1), of f] spf by blast
      qed
      have ch: "ld32 (ram s') (f + NODE_CHILDREN + 4 * of_nat i) = ld32 (ram s) (f + NODE_CHILDREN + 4 * of_nat i)" if "i < 32" for i
        using keep [of "96 + 4 * i"] that by (simp add: add.assoc)
      have "holds (mem_at (ram s') f) (n_name nd)"
      proof (rule holds_outside [OF m])
        show "holds (mem_at (ram s) f) (n_name nd)" using tf(2) by (simp add: node_at_def)
        have l: "length (n_name nd) < 64" using tf(2) by (simp add: node_at_def)
        then have "span f (length (n_name nd) + 1) \<subseteq> span f NODE_SIZEOF"
          "span f (length (n_name nd) + 1) \<inter> data_fields f = {}"
          by (auto simp: span_def data_fields_def)
        then show "span f (length (n_name nd) + 1) \<inter> (- ?U \<union> ?X) = {}" using spf by blast
        show "unat f + length (n_name nd) < 2 ^ 32" using l tf(5) by (simp add: accessible_def)
      qed
      then show ?thesis
        using written(2) tf(2) ch keep [of 64] keep [of 76] keep [of 80] keep [of 224]
        by (simp add: node_at_def file_rep_def)
    qed
    have pf: "placed a' f ?nd" using written(2) by (auto simp: file_rep_def placed_def)
    have apart: "areas f ?nd \<inter> areas y ny = {}" if "T y = Some ny" "y \<noteq> f" for y ny
    proof -
      have y: "areas y ny \<subseteq> ?U" "areas f nd \<inter> areas y ny = {}"
        using tree_node(7) [OF T that(1)] tree_apart [OF T f(1) that(1)] that(2) by auto
      show ?thesis
        using written(6) y node_span [of f nd] by (auto simp: areas_def split: if_splits)
    qed
    have "tree_rep a' s' ?T"
      unfolding tree_rep_def ops
    proof (intro conjI allI impI)
      show "heap_rep a' s'" by (rule rep)
      fix x n assume x: "?T x = Some n"
      show "node_at (ram s') (ramfs_ops_at s) x n" "placed a' x n"
        using x nf pf others by (auto simp: Tx split: if_splits)
      show "set (n_children n) \<subseteq> dom ?T - {x}"
        using x tree_node(4) [OF T, of x] tf(4) f by (auto simp: Tx split: if_splits)
    next
      fix x y n n' assume xy: "?T x = Some n" "?T y = Some n'" "x \<noteq> y"
      show "areas x n \<inter> areas y n' = {}"
        using xy apart tree_apart [OF T _ _ xy(3)] by (auto simp: Tx Int_commute split: if_splits)
    qed
    moreover have "unat (heap_end s') \<le> unat (heap_end s) + 4 * (off + length bs) + 80"
      using written(7) k by auto
    ultimately show ?thesis using that [OF written(1)] written(4) by blast
  qed
qed

text \<open>Reading changes nothing; its answer is a piece of the contents.\<close>

lemma ramfs_read_tree:
  assumes "tree_rep a s T" and "T f = Some nd" "n_flags nd AND VFS_DIR = 0"
    and "off + n < 2 ^ 31" and "min n (length (n_data nd) - off) \<le> length buf"
  shows "ramfs_read f (of_nat off) (of_nat n) buf s =
    Some (of_nat (min n (length (n_data nd) - off)),
      take n (drop off (n_data nd)) @ drop (min n (length (n_data nd) - off)) buf)"
  by (rule read_file [OF tree_file [OF assms(1-3)] assms(4,5)])

section \<open>A fresh root\<close>

lemma new_root_tree:
  assumes T: "tree_rep a s T" and room: "heap_room NODE_SIZEOF s"
  obtains r s' a' where "new_root s = Some (r, s')" "T r = None" "r \<noteq> 0"
    "tree_rep a' s' (T(r \<mapsto> empty_node (lit ''/'') VFS_DIR))"
    "heap.more s' = heap.more s" "unat (heap_end s') \<le> unat (heap_end s) + 4 * NODE_SIZEOF + 80"
proof -
  let ?U = "\<Union>(used (fst a))" and ?e = "empty_node (lit ''/'') VFS_DIR"
  have rep: "heap_rep a s" using T by (simp add: tree_rep_def)
  obtain r s' a' where r: "new_root s = Some (r, s')" "dir_rep a' s' r [] []"
    "ld32 (ram s') (r + NODE_FLAGS) = Some VFS_DIR" "ld32 (ram s') (r + NODE_OPS) = Some (ramfs_ops_at s)"
    "holds (mem_at (ram s') r) (lit ''/'')" "heap.more s' = heap.more s"
    "unat (heap_end s') \<le> unat (heap_end s) + 4 * NODE_SIZEOF + 80"
    "\<And>k. 84 \<le> k \<Longrightarrow> k + 4 \<le> NODE_SIZEOF \<Longrightarrow> ld32 (ram s') (r + of_nat k) = Some 0"
    "same_outside (- ?U) (ram s) (ram s')" "span r NODE_SIZEOF \<inter> ?U = {}" "used (fst a) \<subseteq> used (fst a')"
    using new_root_ok [OF rep room] by metis
  have mem: "unat r \<in> span r NODE_SIZEOF" by (simp add: span_def)
  have new: "T r = None"
  proof (rule ccontr)
    assume "T r \<noteq> None"
    then obtain nr where "T r = Some nr" by blast
    then have "unat r \<in> ?U" using tree_node(7) [OF T] node_span mem by blast
    then show False using r(10) mem by blast
  qed
  have rep': "heap_rep a' s'" and own: "owns a' r NODE_SIZEOF" using r(2) by (simp_all add: dir_rep_def)
  have ops: "ramfs_ops_at s' = ramfs_ops_at s" by (rule heap_more_fs(1) [OF r(6)])
  have nr: "node_at (ram s') (ramfs_ops_at s) r ?e" "placed a' r ?e"
    using r(2-5) r(8) [of 84] r(8) [of 88] r(8) [of 92]
    by (simp_all add: node_at_def placed_def empty_node_def dir_rep_def)
  have ar: "areas r ?e = span r NODE_SIZEOF" by (simp add: areas_def empty_node_def)
  have others: "node_at (ram s') (ramfs_ops_at s) y ny \<and> placed a' y ny" if "T y = Some ny" for y ny
    by (rule tree_others [OF T _ r(11) that, of "{}"]) (use r(9) in simp_all)
  have apart: "areas r ?e \<inter> areas y ny = {}" if "T y = Some ny" for y ny
    using tree_node(7) [OF T that] r(10) ar by blast
  have "tree_rep a' s' (T(r \<mapsto> ?e))"
    unfolding tree_rep_def ops
  proof (intro conjI allI impI)
    show "heap_rep a' s'" by (rule rep')
    fix x n assume x: "(T(r \<mapsto> ?e)) x = Some n"
    show "node_at (ram s') (ramfs_ops_at s) x n" "placed a' x n"
      using x nr others by (auto split: if_splits)
    show "set (n_children n) \<subseteq> dom (T(r \<mapsto> ?e)) - {x}"
      using x tree_node(4) [OF T, of x] by (auto simp: empty_node_def split: if_splits)
  next
    fix x y n n' assume xy: "(T(r \<mapsto> ?e)) x = Some n" "(T(r \<mapsto> ?e)) y = Some n'" "x \<noteq> y"
    show "areas x n \<inter> areas y n' = {}"
      using xy apart tree_apart [OF T _ _ xy(3)] by (auto simp: Int_commute split: if_splits)
  qed
  moreover have "r \<noteq> 0" using owns_accessible(2) [OF rep' own] by simp
  ultimately show ?thesis using that [OF r(1) new] r(6,7) by blast
qed

lemma no_tree: "heap_rep a s \<Longrightarrow> tree_rep a s Map.empty"
  by (simp add: tree_rep_def)

end
