(* ===== verification/Clock.thy ===== *)
theory Clock
  imports Vga
begin

text \<open>
  \<open>core/time.c\<close>, the tick counter, and \<open>core/status.c\<close>, the boot status lines that wait on it.
  \<open>sleep\<close> halts the processor until interrupts have moved the tick counter far enough. What one
  halt brings is up to the machine: it is the argument \<open>wake\<close>, the state after the interrupts of one
  \<open>hlt\<close>. A sleep that never ends is \<open>None\<close>.
\<close>

section \<open>\<open>core/time.c\<close>\<close>

definition timer_tick :: "'a timer_scheme \<Rightarrow> 'a timer_scheme" where
  "timer_tick s =
     (let s = s\<lparr>ticks := ticks s + 1\<rparr>
      in if ticks s mod 100 = 0 then s\<lparr>seconds := seconds s + 1\<rparr> else s)"

definition timer_get_ticks :: "'a timer_scheme \<Rightarrow> u32" where
  "timer_get_ticks s = ticks s"

definition timer_get_seconds :: "'a timer_scheme \<Rightarrow> u32" where
  "timer_get_seconds s = seconds s"

definition print_seconds :: "'a timer_scheme \<Rightarrow> 'a timer_scheme" where
  "print_seconds s =
     (let current = timer_get_seconds s
      in if previousSeconds s \<noteq> current
         then let s = vga_print_dec current s;
                  s = vga_print (lit '' seconds passed since boot\<newline>'') s
              in s\<lparr>previousSeconds := current\<rparr>
         else s)"

partial_function (option) sleep_until ::
    "('a timer_scheme \<Rightarrow> 'a timer_scheme) \<Rightarrow> u32 \<Rightarrow> u32 \<Rightarrow> 'a timer_scheme \<Rightarrow> 'a timer_scheme option" where
  "sleep_until wake start wait_ticks s =
     (if ticks s - start < wait_ticks then sleep_until wake start wait_ticks (wake s) else Some s)"

definition sleep :: "('a timer_scheme \<Rightarrow> 'a timer_scheme) \<Rightarrow> u32 \<Rightarrow> 'a timer_scheme \<Rightarrow> 'a timer_scheme option" where
  "sleep wake ms s = sleep_until wake (ticks s) (ms div 10) s"

section \<open>\<open>core/status.c\<close>\<close>

abbreviation COLOR_DEFAULT :: u8 where "COLOR_DEFAULT \<equiv> 0x07"
abbreviation COLOR_GREEN :: u8 where "COLOR_GREEN \<equiv> 0x0A"
abbreviation COLOR_RED :: u8 where "COLOR_RED \<equiv> 0x0C"
abbreviation STATUS_COLUMN :: u32 where "STATUS_COLUMN \<equiv> 60"

fun loading_dots ::
    "('a timer_scheme \<Rightarrow> 'a timer_scheme) \<Rightarrow> u32 \<Rightarrow> nat \<Rightarrow> 'a timer_scheme \<Rightarrow> 'a timer_scheme option" where
  "loading_dots wake delay 0 s = Some s"
| "loading_dots wake delay (Suc n) s = do {
     s \<leftarrow> sleep wake delay (vga_print (lit ''.'') s);
     loading_dots wake delay n s }"

definition status_loading_animation ::
    "('a timer_scheme \<Rightarrow> 'a timer_scheme) \<Rightarrow> u32 \<Rightarrow> 'a timer_scheme \<Rightarrow> 'a timer_scheme option" where
  "status_loading_animation wake duration_ms s =
     (let current = vga_get_column s
      in if STATUS_COLUMN \<le> current then Some s
         else let dots = STATUS_COLUMN - current
         in if dots = 0 then Some s
         else let delay = duration_ms div dots;
                  delay = (if delay = 0 then 1 else delay)
              in loading_dots wake delay (unat dots) s)"

definition status_align :: "'a vga_scheme \<Rightarrow> 'a vga_scheme" where
  "status_align s =
     (let current = vga_get_column s
      in if STATUS_COLUMN \<le> current then s
         else for_upto (unat (STATUS_COLUMN - current)) (\<lambda>_. vga_print (lit ''.'')) s)"

definition status_begin :: "cstr \<Rightarrow> 'a vga_scheme \<Rightarrow> 'a vga_scheme" where
  "status_begin message s = vga_print message (vga_set_color COLOR_DEFAULT s)"

definition status_end_ok :: "'a vga_scheme \<Rightarrow> 'a vga_scheme" where
  "status_end_ok s =
     (let s = status_align s;
          s = vga_set_color COLOR_GREEN s;
          s = vga_print (lit '' [ OK ]\<newline>'') s
      in vga_set_color COLOR_DEFAULT s)"

definition status_end_error :: "'a vga_scheme \<Rightarrow> 'a vga_scheme" where
  "status_end_error s =
     (let s = status_align s;
          s = vga_set_color COLOR_RED s;
          s = vga_print (lit '' [ ERROR ]\<newline>'') s
      in vga_set_color COLOR_DEFAULT s)"

section \<open>Ticks and seconds\<close>

lemma timer_tick_fields [simp]:
  "ticks (timer_tick s) = ticks s + 1"
  "seconds (timer_tick s) = (if (ticks s + 1) mod 100 = 0 then seconds s + 1 else seconds s)"
  by (simp_all add: timer_tick_def Let_def)

lemma seconds_step:
  fixes t :: u32
  assumes "unat t + 1 < 2 ^ 32"
  shows "(t + 1) mod 100 = 0 \<longleftrightarrow> (unat t + 1) div 100 = unat t div 100 + 1"
    "(t + 1) mod 100 \<noteq> 0 \<longleftrightarrow> (unat t + 1) div 100 = unat t div 100"
proof -
  have "unat (t + 1) = unat t + 1" using assms by (simp add: unat_word_ariths)
  then have z: "(t + 1) mod 100 = 0 \<longleftrightarrow> (unat t + 1) mod 100 = 0"
    by (simp add: unat_mod flip: unat_eq_0)
  show "(t + 1) mod 100 = 0 \<longleftrightarrow> (unat t + 1) div 100 = unat t div 100 + 1"
    "(t + 1) mod 100 \<noteq> 0 \<longleftrightarrow> (unat t + 1) div 100 = unat t div 100"
    unfolding z by (auto simp: div_Suc)
qed

lemma ticks_n:
  assumes "seconds s = of_nat (unat (ticks s) div 100)" and "unat (ticks s) + n < 2 ^ 32"
  shows "unat (ticks ((timer_tick ^^ n) s)) = unat (ticks s) + n
    \<and> seconds ((timer_tick ^^ n) s) = of_nat ((unat (ticks s) + n) div 100)"
  using assms
proof (induction n)
  case (Suc n)
  let ?s = "(timer_tick ^^ n) s"
  have ih: "unat (ticks ?s) = unat (ticks s) + n" "seconds ?s = of_nat ((unat (ticks s) + n) div 100)"
    using Suc by auto
  have "unat (ticks ?s + 1) = unat (ticks ?s) + 1" using ih Suc.prems by (simp add: unat_word_ariths)
  then show ?case using ih seconds_step [of "ticks ?s"] Suc.prems by (auto simp: add.commute)
qed simp

section \<open>Sleeping\<close>

text \<open>One halt moves the counter by at most one tick; some later halt moves it.\<close>

definition steps_clock :: "('a timer_scheme \<Rightarrow> 'a timer_scheme) \<Rightarrow> bool" where
  "steps_clock wake \<longleftrightarrow>
     (\<forall>s. ticks (wake s) = ticks s \<or> ticks (wake s) = ticks s + 1)
     \<and> (\<forall>s. \<exists>k. ticks ((wake ^^ k) s) \<noteq> ticks s)"

lemma next_tick:
  assumes "steps_clock wake"
  obtains k where "ticks ((wake ^^ Suc k) s) = ticks s + 1" "\<forall>j \<le> k. ticks ((wake ^^ j) s) = ticks s"
proof -
  define k where "k = (LEAST k. ticks ((wake ^^ k) s) \<noteq> ticks s)"
  have ex: "\<exists>k. ticks ((wake ^^ k) s) \<noteq> ticks s" using assms by (simp add: steps_clock_def)
  have k: "ticks ((wake ^^ k) s) \<noteq> ticks s" unfolding k_def using ex by (rule LeastI_ex)
  have less: "ticks ((wake ^^ j) s) = ticks s" if "j < k" for j
    using not_less_Least [OF that [unfolded k_def]] by simp
  obtain i where i: "k = Suc i" using k by (cases k) auto
  have "ticks (wake ((wake ^^ i) s)) \<in> {ticks ((wake ^^ i) s), ticks ((wake ^^ i) s) + 1}"
    using assms by (auto simp: steps_clock_def)
  then have "ticks ((wake ^^ Suc i) s) = ticks s + 1" using less [of i] i k by auto
  then show ?thesis using that [of i] less i by auto
qed

lemma sleep_until_steps:
  assumes "\<forall>j < n. ticks ((wake ^^ j) s) - start < w"
  shows "sleep_until wake start w s = sleep_until wake start w ((wake ^^ n) s)"
  using assms
proof (induction n)
  case (Suc n)
  then have "sleep_until wake start w s = sleep_until wake start w ((wake ^^ n) s)" by simp
  also have "\<dots> = sleep_until wake start w (wake ((wake ^^ n) s))"
    using Suc.prems by (subst sleep_until.simps) simp
  finally show ?case by simp
qed simp

lemma sleep_until_ends:
  assumes wake: "steps_clock wake" and "unat (ticks s - start) + d = unat w"
  shows "\<exists>n. sleep_until wake start w s = Some ((wake ^^ n) s) \<and> ticks ((wake ^^ n) s) - start = w"
  using assms(2)
proof (induction d arbitrary: s)
  case 0
  then have "ticks s - start = w" by (simp add: word_unat_eq_iff)
  then show ?case by (intro exI [of _ 0]) (subst sleep_until.simps, simp)
next
  case (Suc d)
  obtain k where k: "ticks ((wake ^^ Suc k) s) = ticks s + 1" "\<forall>j \<le> k. ticks ((wake ^^ j) s) = ticks s"
    by (rule next_tick [OF wake, of s]) blast
  have less: "ticks s - start < w" using Suc.prems by (simp add: word_less_nat_alt)
  have "unat w < 2 ^ LENGTH(32)" by (rule unsigned_less)
  then have "unat (ticks s - start + 1) = unat (ticks s - start) + 1"
    using Suc.prems by (simp add: unat_word_ariths)
  moreover have e: "ticks s + 1 - start = ticks s - start + 1" by (simp add: algebra_simps)
  ultimately have "unat (ticks ((wake ^^ Suc k) s) - start) + d = unat w"
    using Suc.prems unfolding k(1) e by simp
  then obtain n where n: "sleep_until wake start w ((wake ^^ Suc k) s) = Some ((wake ^^ n) ((wake ^^ Suc k) s))"
    "ticks ((wake ^^ n) ((wake ^^ Suc k) s)) - start = w" using Suc.IH by blast
  have "sleep_until wake start w s = sleep_until wake start w ((wake ^^ Suc k) s)"
    by (rule sleep_until_steps) (use k(2) less in \<open>simp add: less_Suc_eq_le\<close>)
  moreover have "(wake ^^ n) ((wake ^^ Suc k) s) = (wake ^^ (n + Suc k)) s" by (simp only: funpow_add o_apply)
  ultimately show ?case using n by metis
qed


section \<open>The dots of a status line\<close>

lemma print_dots: "for_upto n (\<lambda>_. vga_print (lit ''.'')) s = vga_print (replicate n 0x2E) s"
proof (induction n)
  case (Suc n)
  have "replicate (Suc n) (0x2E :: u8) = replicate n 0x2E @ [0x2E]" by (simp add: replicate_append_same)
  then have "vga_print (replicate (Suc n) 0x2E) s = vga_print (lit ''.'') (vga_print (replicate n 0x2E) s)"
    by (simp only: vga_print_append) (simp add: vga_print_append lit_simps)
  then show ?case using Suc by (simp only: for_upto_Suc)
qed (simp add: vga_print.simps)

lemma status_align_eq:
  "status_align s = vga_print (replicate (60 - unat (terminal_column s)) 0x2E) s"
proof (cases "60 \<le> terminal_column s")
  case True
  then have "60 - unat (terminal_column s) = 0" by (simp add: word_le_nat_alt)
  with True show ?thesis by (simp add: status_align_def vga_get_column_def vga_print.simps)
next
  case False
  then have "unat (60 - terminal_column s) = 60 - unat (terminal_column s)"
    by (subst unat_diff_small) (simp_all add: word_le_nat_alt)
  with False show ?thesis by (simp add: status_align_def vga_get_column_def print_dots)
qed

section \<open>Properties\<close>

text \<open>From boot on, as long as the tick counter has not wrapped, the seconds shown are the ticks
  divided by 100: \<open>n\<close> more timer interrupts keep this so.\<close>

lemma clock_seconds:
  assumes "seconds s = of_nat (unat (ticks s) div 100)" and "unat (ticks s) + n < 2 ^ 32"
  shows "unat (ticks ((timer_tick ^^ n) s)) = unat (ticks s) + n
    \<and> seconds ((timer_tick ^^ n) s) = of_nat ((unat (ticks s) + n) div 100)"
  using assms by (rule ticks_n)

lemma clock_seconds_witness:
  "seconds ((timer_tick ^^ 250) power_on) = 2"
  using clock_seconds [of power_on 250] by (simp add: power_on_def)

text \<open>C20: \<open>sleep\<close> returns whenever halting eventually brings a timer interrupt, whatever other interrupts
  come in between, even across a wrap-around of the counter; it wakes up at exactly \<open>ms div 10\<close>
  ticks after it began.\<close>

theorem sleep_returns:
  assumes "steps_clock wake"
  shows "\<exists>n. sleep wake ms s = Some ((wake ^^ n) s) \<and> ticks ((wake ^^ n) s) - ticks s = ms div 10"
  using sleep_until_ends [OF assms, of s "ticks s" "unat (ms div 10)" "ms div 10"]
  by (simp add: sleep_def)

lemma timer_tick_steps: "steps_clock timer_tick"
proof -
  have "ticks ((timer_tick ^^ 1) s) \<noteq> ticks s" for s by simp
  then show ?thesis unfolding steps_clock_def by (metis timer_tick_fields(1))
qed

theorem sleep_returns_witness:
  "\<exists>n. sleep timer_tick 1000 power_on = Some ((timer_tick ^^ n) power_on)
     \<and> ticks ((timer_tick ^^ n) power_on) - ticks power_on = 100"
  using sleep_returns [OF timer_tick_steps, of 1000 power_on] by simp

text \<open>The result of a boot step always stands in column 60: from any column before it
  \<open>status_align\<close> fills the line with dots up to it and leaves the rest of the screen alone.\<close>

lemma status_align_column:
  assumes "on_screen s" and "unat (terminal_column s) \<le> 60"
  shows "vga_pos (status_align s) = unat (terminal_row s) * 80 + 60
    \<and> (\<forall>i. terminal_buffer (status_align s) i =
         (if vga_pos s \<le> unat i \<and> unat i < unat (terminal_row s) * 80 + 60
          then vga_entry 0x2E (terminal_color s) else terminal_buffer s i))"
proof -
  let ?n = "60 - unat (terminal_column s)"
  have pos: "vga_pos s + ?n = unat (terminal_row s) * 80 + 60" using assms(2) by (simp add: vga_pos_def)
  moreover have "unat (terminal_row s) < 25" using assms(1) by (simp add: on_screen_nat)
  ultimately have "vga_pos s + length (replicate ?n (0x2E :: u8)) < 2000" by simp
  note pp = print_plain [OF assms(1) _ this]
  have "replicate ?n (0x2E :: u8) ! (unat i - vga_pos s) = 0x2E"
    if "vga_pos s \<le> unat i" "unat i < unat (terminal_row s) * 80 + 60" for i :: u32
    using that pos by (intro nth_replicate) simp
  with pp show ?thesis by (auto simp: status_align_eq pos plain_def)
qed

lemma status_align_column_witness:
  "vga_pos (status_align power_on) = 60 \<and> terminal_buffer (status_align power_on) 59 = vga_entry 0x2E 0"
  using status_align_column [OF power_on_screen] by (simp add: vga_pos_def power_on_def)

end
