(* ===== verification/Vfs.thy ===== *)
theory Vfs
  imports FileTree Clock
begin

text \<open>
  \<open>fs/vfs/path.c\<close> and \<open>fs/vfs/vfs.c\<close>: paths, mounts and lookups. A call through the operation table
  goes to the functions of \<open>ramfs.c\<close>, the one file system there is; a node whose table pointer is
  anything else is \<open>None\<close>. \<open>None\<close> is also the panic of \<open>vfs_mount\<close>, a component that overruns the 64-byte
  array \<open>part\<close>, and a ninth mount.
\<close>

section \<open>Model\<close>

fun check_mounts :: "(nat \<Rightarrow> u32 \<times> u32) \<Rightarrow> u32 \<Rightarrow> nat \<Rightarrow> nat \<Rightarrow> u32" where
  "check_mounts ms node i 0 = node"
| "check_mounts ms node i (Suc k) = (if node = fst (ms i) then snd (ms i) else check_mounts ms node (i + 1) k)"

definition vfs_check_mount :: "u32 \<Rightarrow> 'a fs_scheme \<Rightarrow> u32" where
  "vfs_check_mount node s = check_mounts (mounts s) node 0 (mount_count s)"

text \<open>The table of operations behind \<open>node->ops\<close>.\<close>

definition ramfs_node :: "u32 \<Rightarrow> 'a fs_scheme \<Rightarrow> unit option" where
  "ramfs_node node s = do {
     ops \<leftarrow> ld32 (ram s) (node + NODE_OPS);
     if ops = ramfs_ops_at s then Some () else None }"

partial_function (option) skip_slashes :: "reader \<Rightarrow> reader option" where
  "skip_slashes path = do {
     c \<leftarrow> path 0;
     if c = 0x2F then skip_slashes (adv path) else Some path }"

partial_function (option) take_part :: "reader \<Rightarrow> nat \<Rightarrow> u8 list \<Rightarrow> (reader \<times> nat \<times> u8 list) option" where
  "take_part path j part = do {
     c \<leftarrow> path 0;
     if c \<noteq> 0 \<and> c \<noteq> 0x2F
     then do { part \<leftarrow> buf_put j c part; take_part (adv path) (j + 1) part }
     else Some (path, j, part) }"

partial_function (option) resolve_from :: "u8 list \<Rightarrow> u32 \<Rightarrow> reader \<Rightarrow> 'a fs_scheme \<Rightarrow> u32 option" where
  "resolve_from part current path s = do {
     c \<leftarrow> path 0;
     if c = 0 then Some current
     else do {
       path \<leftarrow> skip_slashes path;
       c \<leftarrow> path 0;
       if c = 0 then Some current
       else do {
         (path, j, part) \<leftarrow> take_part path 0 part;
         part \<leftarrow> buf_put j 0 part;
         _ \<leftarrow> ramfs_node current s;
         if \<not> op_lookup s then Some 0
         else do {
           current \<leftarrow> ramfs_lookup current (buf_at part 0) s;
           if current = 0 then Some 0
           else resolve_from part (vfs_check_mount current s) path s } } } }"

text \<open>The bytes of \<open>part\<close> before the first component is copied are never read.\<close>

definition path_resolve :: "u32 \<Rightarrow> reader \<Rightarrow> 'a fs_scheme \<Rightarrow> u32 option" where
  "path_resolve root path s = resolve_from (replicate 64 0) root path s"

definition vfs_lookup :: "reader \<Rightarrow> 'a fs_scheme \<Rightarrow> u32 option" where
  "vfs_lookup path s = (if vfs_root s = 0 then Some 0 else path_resolve (vfs_root s) path s)"

definition vfs_mount :: "reader \<Rightarrow> u32 \<Rightarrow> 'a fs_scheme \<Rightarrow> 'a fs_scheme option" where
  "vfs_mount path fs_root s = do {
     mp \<leftarrow> vfs_lookup path s;
     if mp = 0 then None
     else if 8 \<le> mount_count s then None
     else Some (s\<lparr>mounts := (mounts s)(mount_count s := (mp, fs_root)), mount_count := mount_count s + 1\<rparr>) }"

section \<open>Paths\<close>

lemma skip_slashes_ok:
  assumes "holds path s"
  shows "\<exists>path'. skip_slashes path = Some path' \<and> holds path' (dropWhile (\<lambda>c. c = 0x2F) s)"
  using assms
proof (induction s arbitrary: path)
  case Nil
  then show ?case by (subst skip_slashes.simps) (simp add: holds_Nil)
next
  case (Cons c s)
  then have c: "path 0 = Some c" "holds (adv path) s" by (simp_all add: holds_Cons)
  show ?case
  proof (cases "c = 0x2F")
    case True
    then show ?thesis using Cons.IH [OF c(2)] c by (subst skip_slashes.simps) simp
  next
    case False
    then show ?thesis using c Cons.prems by (subst skip_slashes.simps) simp
  qed
qed

abbreviation word_of :: "cstr \<Rightarrow> cstr" where
  "word_of s \<equiv> takeWhile (\<lambda>c. c \<noteq> 0x2F) s"

abbreviation after_word :: "cstr \<Rightarrow> cstr" where
  "after_word s \<equiv> dropWhile (\<lambda>c. c \<noteq> 0x2F) s"

lemma take_part_ok:
  assumes "holds path s" and "j + length (word_of s) \<le> length part"
  shows "\<exists>path' part'. take_part path j part = Some (path', j + length (word_of s), part') \<and> holds path' (after_word s)
    \<and> length part' = length part \<and> take (j + length (word_of s)) part' = take j part @ word_of s"
  using assms
proof (induction s arbitrary: path j part)
  case Nil
  then show ?case by (subst take_part.simps) (simp add: holds_Nil)
next
  case (Cons c s)
  then have c: "path 0 = Some c" "c \<noteq> 0" "holds (adv path) s" by (simp_all add: holds_Cons)
  show ?case
  proof (cases "c = 0x2F")
    case True
    then show ?thesis using c Cons.prems by (subst take_part.simps) simp
  next
    case False
    then have j: "j < length part" "Suc j + length (word_of s) \<le> length (part[j := c])" using Cons.prems(2) by simp_all
    obtain path' part' where p: "take_part (adv path) (Suc j) (part[j := c]) = Some (path', Suc j + length (word_of s), part')"
      "holds path' (after_word s)" "length part' = length part"
      "take (Suc j + length (word_of s)) part' = take (Suc j) (part[j := c]) @ word_of s"
      using Cons.IH [OF c(3) j(2)] by auto
    have "take (Suc j) (part[j := c]) = take j part @ [c]" using j(1) by (simp add: take_Suc_conv_app_nth)
    then show ?thesis using p c False j(1) by (subst take_part.simps) (simp add: buf_put_def)
  qed
qed

lemma part_holds:
  assumes "take (length w) part = w" and "length w < length part" and "0 \<notin> set w"
  shows "holds (buf_at (part[length w := 0]) 0) w"
proof -
  have "part ! i = w ! i" if "i < length w" for i using assms(1) that by (metis nth_take)
  then show ?thesis using assms(2,3) by (auto simp: holds_def buf_at_def)
qed

text \<open>A component of 64 bytes or more is written past the end of \<open>part\<close>.\<close>

lemma take_part_overrun:
  assumes "holds path s" and "length part < j + length (word_of s)" and "j \<le> length part"
  shows "take_part path j part = None"
  using assms
proof (induction s arbitrary: path j part)
  case Nil
  then show ?case by simp
next
  case (Cons c s)
  then have c: "path 0 = Some c" "c \<noteq> 0" "holds (adv path) s" by (simp_all add: holds_Cons)
  have f: "c \<noteq> 0x2F" using Cons.prems(2,3) by (auto split: if_splits)
  show ?case
  proof (cases "j < length part")
    case True
    then have "take_part (adv path) (Suc j) (part[j := c]) = None"
      using Cons.IH [OF c(3), of "part[j := c]" "Suc j"] Cons.prems(2) f by simp
    then show ?thesis using c f True by (subst take_part.simps) (simp add: buf_put_def)
  next
    case False
    then show ?thesis using c f by (subst take_part.simps) (simp add: buf_put_def)
  qed
qed

section \<open>Resolution is a walk down the tree\<close>

fun walk :: "tree \<Rightarrow> (u32 \<Rightarrow> u32) \<Rightarrow> u32 \<Rightarrow> cstr list \<Rightarrow> u32" where
  "walk T mnt x [] = x"
| "walk T mnt x (nm # nms) =
     (let c = find_entry T x nm in if c = 0 then 0 else walk T mnt (mnt c) nms)"

definition vfs_rep :: "block list \<times> nat \<Rightarrow> 'a fs_scheme \<Rightarrow> tree \<Rightarrow> bool" where
  "vfs_rep a s T \<longleftrightarrow> tree_rep a s T \<and> op_lookup s \<and> mount_count s \<le> 8
     \<and> (\<forall>i < mount_count s. snd (mounts s i) \<in> dom T) \<and> vfs_root s \<in> dom T"

abbreviation mnt_of :: "'a fs_scheme \<Rightarrow> u32 \<Rightarrow> u32" where
  "mnt_of s \<equiv> (\<lambda>c. vfs_check_mount c s)"

lemma check_mounts_cases: "check_mounts ms c i k = c \<or> (\<exists>j \<in> {i ..< i + k}. fst (ms j) = c \<and> check_mounts ms c i k = snd (ms j))"
proof (induction k arbitrary: i)
  case (Suc k)
  show ?case
  proof (cases "c = fst (ms i)")
    case True
    then show ?thesis by force
  next
    case False
    then show ?thesis using Suc.IH [of "Suc i"] by force
  qed
qed simp

lemma check_mount_in:
  assumes "vfs_rep a s T" and "c \<in> dom T"
  shows "vfs_check_mount c s \<in> dom T"
  using check_mounts_cases [of "mounts s" c 0 "mount_count s"] assms by (auto simp: vfs_check_mount_def vfs_rep_def)

lemma ramfs_node_ok: "tree_rep a s T \<Longrightarrow> x \<in> dom T \<Longrightarrow> ramfs_node x s = Some ()"
  using tree_node(2) [of a s T x] by (auto simp: ramfs_node_def node_at_def)

lemma resolve_from_walk:
  assumes R: "vfs_rep a s T" and "x \<in> dom T" and "holds path p" and "\<forall>w \<in> set (pieces 0x2F p). length w < 64"
    and "length part = 64"
  shows "resolve_from part x path s = Some (walk T (mnt_of s) x (pieces 0x2F p))"
  using assms(2-5)
proof (induction "length p" arbitrary: part x path p rule: less_induct)
  case less
  have T: "tree_rep a s T" and ol: "op_lookup s" using R by (simp_all add: vfs_rep_def)
  let ?q = "dropWhile (\<lambda>c. c = 0x2F) p"
  obtain path1 where p1: "skip_slashes path = Some path1" "holds path1 ?q"
    using skip_slashes_ok [OF less.prems(2)] by blast
  have pq: "pieces 0x2F p = pieces 0x2F ?q" by (simp add: pieces_skip)
  show ?case
  proof (cases "p = [] \<or> ?q = []")
    case True
    then have e: "pieces 0x2F p = []" using pq by (auto simp del: dropWhile_eq_Nil_conv)
    show ?thesis
    proof (cases "p = []")
      case True
      then show ?thesis using less.prems(2) by (subst resolve_from.simps) (simp add: holds_Nil)
    next
      case False
      then obtain c p' where c: "p = c # p'" by (cases p) auto
      then have "path 0 = Some c" using less.prems(2) by (simp add: holds_Cons)
      moreover have "?q = []" using True False by simp
      then have "path1 0 = Some 0" using p1(2) by (simp only: holds_Nil)
      ultimately show ?thesis using p1(1) e by (subst resolve_from.simps) simp
    qed
  next
    case False
    let ?w = "word_of ?q" and ?r = "after_word ?q"
    obtain c0 p' where c0: "p = c0 # p'" using False by (cases p) auto
    obtain c1 q' where c1: "?q = c1 # q'" using False by (cases ?q) auto
    have "c1 \<noteq> 0x2F" using c1 hd_dropWhile [of "\<lambda>c. c = 0x2F" p] by auto
    then have w: "?w \<noteq> []" unfolding c1 by simp
    have pw: "pieces 0x2F p = ?w # pieces 0x2F ?r" unfolding pq by (rule pieces_first [OF w])
    have lw: "length ?w < 64" using less.prems(3) pw by simp
    have "0 \<notin> set ?q" using p1(2) by (simp add: holds_def)
    then have w0: "0 \<notin> set ?w" by (meson set_takeWhileD)
    have l0: "0 + length ?w \<le> length part" using lw less.prems(4) by simp
    obtain path2 part2 where t: "take_part path1 0 part = Some (path2, length ?w, part2)" "holds path2 ?r"
      "length part2 = 64" "take (length ?w) part2 = ?w"
      using take_part_ok [OF p1(2) l0] less.prems(4) by auto
    let ?part = "part2[length ?w := 0]"
    have hp: "holds (buf_at ?part 0) ?w" by (rule part_holds [OF t(4) _ w0]) (simp add: lw t(3))
    have c: "path 0 = Some c0" "c0 \<noteq> 0" "path1 0 = Some c1" "c1 \<noteq> 0"
      using less.prems(2) [unfolded c0] p1(2) [unfolded c1] by (simp_all add: holds_Cons)
    obtain nd where nd: "T x = Some nd" using less.prems(1) by blast
    let ?c = "find_entry T x ?w"
    have lk: "ramfs_lookup x (buf_at ?part 0) s = Some ?c" by (rule tree_lookup [OF T nd hp])
    have step: "resolve_from part x path s =
      (if ?c = 0 then Some 0 else resolve_from ?part (vfs_check_mount ?c s) path2 s)"
      using c p1(1) t(1,3) lw ramfs_node_ok [OF T less.prems(1)] ol lk
      by (subst resolve_from.simps) (simp add: buf_put_def)
    show ?thesis
    proof (cases "?c = 0")
      case True
      then show ?thesis using step pw by simp
    next
      case nz: False
      have "length ?r \<le> length q'" using \<open>c1 \<noteq> 0x2F\<close> length_dropWhile_le [of "\<lambda>c. c \<noteq> 0x2F" q'] unfolding c1 by simp
      moreover have "length (c1 # q') \<le> length p" using c1 length_dropWhile_le [of "\<lambda>c. c = 0x2F" p] by simp
      ultimately have "length ?r < length p" by simp
      moreover have "vfs_check_mount ?c s \<in> dom T"
        by (rule check_mount_in [OF R find_entry_in [OF T less.prems(1) nz]])
      ultimately have "resolve_from ?part (vfs_check_mount ?c s) path2 s =
          Some (walk T (mnt_of s) (vfs_check_mount ?c s) (pieces 0x2F ?r))"
        using less.hyps [of ?r "vfs_check_mount ?c s" path2 ?part] t(2,3) less.prems(3) pw by simp
      then show ?thesis using step nz pw by (simp add: Let_def)
    qed
  qed
qed

lemma lookup_walk:
  assumes "vfs_rep a s T" and "holds path p" and "\<forall>w \<in> set (pieces 0x2F p). length w < 64"
  shows "vfs_lookup path s = Some (walk T (mnt_of s) (vfs_root s) (pieces 0x2F p))"
proof -
  have r: "vfs_root s \<in> dom T" and T: "tree_rep a s T" using assms(1) by (simp_all add: vfs_rep_def)
  then have "vfs_root s \<noteq> 0" using tree_node(6) [OF T] by blast
  then show ?thesis
    using resolve_from_walk [OF assms(1) r assms(2,3), of "replicate 64 0"]
    by (simp add: vfs_lookup_def path_resolve_def)
qed

text \<open>A defect: the first component of a path may be of any length, and \<open>part\<close> takes 64 bytes.\<close>

lemma path_component_overrun:
  assumes "holds path p" and "64 < length (word_of (dropWhile (\<lambda>c. c = 0x2F) p))"
  shows "path_resolve x path s = None"
proof -
  obtain path1 where p1: "skip_slashes path = Some path1" "holds path1 (dropWhile (\<lambda>c. c = 0x2F) p)"
    using skip_slashes_ok [OF assms(1)] by blast
  have t: "take_part path1 0 (replicate 64 0) = None"
    by (rule take_part_overrun [OF p1(2)]) (use assms(2) in simp_all)
  obtain c0 p' where c0: "p = c0 # p'" using assms(2) by (cases p) auto
  then have "path 0 = Some c0" "c0 \<noteq> 0" using assms(1) by (simp_all add: holds_Cons)
  moreover obtain c1 q' where c1: "dropWhile (\<lambda>c. c = 0x2F) p = c1 # q'"
    using assms(2) by (cases "dropWhile (\<lambda>c. c = 0x2F) p") auto
  moreover have "path1 0 = Some c1" "c1 \<noteq> 0" using p1(2) unfolding c1 by (simp_all add: holds_Cons)
  ultimately show ?thesis using p1(1) t by (simp add: path_resolve_def resolve_from.simps)
qed

section \<open>Mounting\<close>

lemma tree_rep_fields:
  assumes "ram s' = ram s" "heap_start s' = heap_start s" "heap_end s' = heap_end s" "heap_head s' = heap_head s"
    and "ramfs_ops_at s' = ramfs_ops_at s"
  shows "tree_rep a s' T \<longleftrightarrow> tree_rep a s T"
  unfolding tree_rep_def heap_rep_def heap_inv_def assms ..

lemma check_mounts_cong: "(\<And>j. j < i + k \<Longrightarrow> ms j = ms' j) \<Longrightarrow> check_mounts ms x i k = check_mounts ms' x i k"
  by (induction k arbitrary: i) auto

lemma check_mounts_last: "check_mounts ms x i (Suc k) =
    (if \<exists>j \<in> {i ..< i + k}. fst (ms j) = x then check_mounts ms x i k
     else if fst (ms (i + k)) = x then snd (ms (i + k)) else x)"
proof (induction k arbitrary: i)
  case 0
  then show ?case by simp
next
  case (Suc k)
  have e: "(\<exists>j \<in> {i ..< i + Suc k}. fst (ms j) = x) \<longleftrightarrow> fst (ms i) = x \<or> (\<exists>j \<in> {Suc i ..< Suc i + k}. fst (ms j) = x)"
  proof -
    have "{i ..< i + Suc k} = insert i {Suc i ..< Suc i + k}" by auto
    then show ?thesis by simp
  qed
  have "check_mounts ms x i (Suc (Suc k)) = (if x = fst (ms i) then snd (ms i) else check_mounts ms x (Suc i) (Suc k))"
    by simp
  then show ?case unfolding e using Suc.IH [of "Suc i"] by auto
qed

lemma check_mounts_none: "(\<And>j. j < k \<Longrightarrow> fst (ms j) \<noteq> x) \<Longrightarrow> check_mounts ms x 0 k = x"
  using check_mounts_cases [of ms x 0 k] by auto

text \<open>Mounting on a node adds one line to the table, seen for this node unless it has one already.\<close>

lemma mounted_check:
  assumes "s' = s\<lparr>mounts := (mounts s)(mount_count s := (mp, r)), mount_count := mount_count s + 1\<rparr>"
  shows "vfs_check_mount x s' =
    (if x = mp \<and> (\<forall>j < mount_count s. fst (mounts s j) \<noteq> mp) then r else vfs_check_mount x s)"
proof -
  let ?ms = "(mounts s)(mount_count s := (mp, r))"
  have "vfs_check_mount x s' = check_mounts ?ms x 0 (Suc (mount_count s))" using assms by (simp add: vfs_check_mount_def)
  also have "\<dots> = (if \<exists>j < mount_count s. fst (mounts s j) = x then check_mounts (mounts s) x 0 (mount_count s)
      else if mp = x then r else x)"
    using check_mounts_cong [of 0 "mount_count s" ?ms "mounts s" x] by (auto simp: check_mounts_last simp del: check_mounts.simps)
  finally show ?thesis using check_mounts_none [of "mount_count s" "mounts s" x] by (auto simp: vfs_check_mount_def)
qed

lemma walk_append: "walk T mnt x pre \<noteq> 0 \<Longrightarrow> walk T mnt x (pre @ ns) = walk T mnt (walk T mnt x pre) ns"
  by (induction pre arbitrary: x) (auto simp: Let_def)

text \<open>A mount on a node that is not on the way does not change the walk.\<close>

lemma walk_past:
  assumes c: "mnt c = c" and m: "\<And>x. x \<noteq> c \<Longrightarrow> mnt' x = mnt x"
    and "\<forall>k < length ns. walk T mnt x (take (Suc k) ns) \<noteq> c"
  shows "walk T mnt' x ns = walk T mnt x ns"
  using assms(3)
proof (induction ns arbitrary: x)
  case (Cons nm ns)
  let ?e = "find_entry T x nm"
  show ?case
  proof (cases "?e = 0")
    case False
    have "mnt ?e \<noteq> c" using Cons.prems False by (auto simp: Let_def dest: spec [of _ 0])
    then have e: "?e \<noteq> c" using c by auto
    have "walk T mnt (mnt ?e) (take (Suc k) ns) \<noteq> c" if "k < length ns" for k
      using Cons.prems that False by (auto simp: Let_def dest: spec [of _ "Suc k"])
    then show ?thesis using Cons.IH [of "mnt ?e"] m [OF e] by (simp add: Let_def)
  qed simp
qed simp

lemma mount_entry:
  assumes R: "vfs_rep a s T" and p: "holds path p" "pieces 0x2F p = pre @ [nm]" "\<forall>w \<in> set (pre @ [nm]). length w < 64"
    and way: "\<forall>k < length pre. walk T (mnt_of s) (vfs_root s) (take (Suc k) pre) \<noteq> c" "walk T (mnt_of s) (vfs_root s) pre \<noteq> 0"
    and c: "c = find_entry T (walk T (mnt_of s) (vfs_root s) pre) nm" "c \<noteq> 0" "\<forall>j < mount_count s. fst (mounts s j) \<noteq> c"
    and n: "mount_count s < 8" and r: "r \<in> dom T"
  shows "\<exists>s'. vfs_mount path r s = Some s' \<and> vfs_rep a s' T
    \<and> s' = s\<lparr>mounts := (mounts s)(mount_count s := (c, r)), mount_count := mount_count s + 1\<rparr>
    \<and> (\<forall>x. x \<noteq> c \<longrightarrow> vfs_check_mount x s' = vfs_check_mount x s)
    \<and> (\<forall>sub q ns. holds sub q \<longrightarrow> pieces 0x2F q = pre @ nm # ns \<longrightarrow> (\<forall>w \<in> set ns. length w < 64) \<longrightarrow>
         vfs_lookup sub s' = Some (walk T (mnt_of s') r ns))"
proof -
  define s' where "s' = s\<lparr>mounts := (mounts s)(mount_count s := (c, r)), mount_count := mount_count s + 1\<rparr>"
  have T: "tree_rep a s T" "vfs_root s \<in> dom T" using R by (simp_all add: vfs_rep_def)
  have cc: "vfs_check_mount c s = c" unfolding vfs_check_mount_def by (rule check_mounts_none) (use c(3) in simp)
  have lk: "vfs_lookup path s = Some c"
    using lookup_walk [OF R p(1)] p(2,3) cc c(1,2) by (simp add: walk_append [OF way(2)] Let_def)
  have m: "vfs_mount path r s = Some s'" using lk c(2) n by (simp add: vfs_mount_def s'_def)
  have chk: "vfs_check_mount x s' = (if x = c then r else vfs_check_mount x s)" for x
    using mounted_check [OF s'_def, of x] c(3) by simp
  have "tree_rep a s' T" using T(1) tree_rep_fields [of s' s a T] by (simp add: s'_def)
  then have R': "vfs_rep a s' T"
    using R n r by (auto simp: vfs_rep_def s'_def less_Suc_eq)
  have root: "vfs_root s' = vfs_root s" by (simp add: s'_def)
  have past: "walk T (mnt_of s') (vfs_root s) pre = walk T (mnt_of s) (vfs_root s) pre"
    by (rule walk_past [OF cc _ way(1)]) (simp add: chk)
  have "vfs_lookup sub s' = Some (walk T (mnt_of s') r ns)"
    if q: "holds sub q" "pieces 0x2F q = pre @ nm # ns" "\<forall>w \<in> set ns. length w < 64" for sub q ns
    using lookup_walk [OF R' q(1)] q(2,3) p(3) past c(1,2) chk [of c] walk_append [of T "mnt_of s'" "vfs_root s" pre "nm # ns"] way(2)
    by (simp add: root Let_def ball_Un)
  then show ?thesis using m R' chk s'_def by auto
qed

text \<open>A defect: mounting on the same directory again has no effect on any later lookup, because the path
  already resolves to the root mounted there, and lookups follow one mount only.\<close>

lemma vfs_mount_again:
  assumes "vfs_lookup path s = Some r" and "r \<noteq> 0" and "mount_count s < 8"
    and "\<forall>x nm. find_entry T x nm \<noteq> r" and "vfs_mount path r' s = Some s'"
  shows "walk T (mnt_of s') x ns = walk T (mnt_of s) x ns"
proof -
  have s': "s' = s\<lparr>mounts := (mounts s)(mount_count s := (r, r')), mount_count := mount_count s + 1\<rparr>"
    using assms(1,2,3,5) by (simp add: vfs_mount_def)
  show ?thesis
  proof (induction ns arbitrary: x)
    case (Cons nm ns)
    then show ?case using mounted_check [OF s', of "find_entry T x nm"] assms(4) by (simp add: Let_def)
  qed simp
qed

section \<open>The file systems of the running kernel\<close>

text \<open>The steps of \<open>kernel_boot\<close> that set up the root file system and mount a second one on \<open>/tmp\<close>.\<close>

definition boot_filesystems :: "'a fs_scheme \<Rightarrow> 'a fs_scheme option" where
  "boot_filesystems s = do {
     (main_root, s) \<leftarrow> ramfs_create_instance s;
     s \<leftarrow> Some (status_end_ok (s\<lparr>vfs_root := main_root\<rparr>));
     s \<leftarrow> Some (status_begin (lit ''Mounting /tmp as RAMFS'') s);
     _ \<leftarrow> ramfs_node (vfs_root s) s;
     if \<not> op_create s then None
     else do {
       (_, s) \<leftarrow> ramfs_create (vfs_root s) (str_at (lit ''tmp'')) VFS_DIR s;
       (tmp_ramfs, s) \<leftarrow> ramfs_create_instance s;
       s \<leftarrow> vfs_mount (str_at (lit ''/tmp'')) tmp_ramfs s;
       Some (status_end_ok s) } }"

text \<open>Printing touches the screen only.\<close>

lemma vga_more_status [simp]:
  "vga.more (status_begin msg s) = vga.more s" "vga.more (status_end_ok s) = vga.more s"
proof -
  have c: "vga.more (vga_set_color c s) = vga.more s" for c and s :: "'a vga_scheme" by (simp add: vga_set_color_def)
  have p: "vga.more (vga_print t s) = vga.more s" for t and s :: "'a vga_scheme"
    by (rule screen_step_fields(6) [OF screen_step_print])
  have "vga.more (status_align s) = vga.more s"
    unfolding status_align_def Let_def using for_upto_cong_result [where f = vga.more and s = s] p by simp
  then show "vga.more (status_begin msg s) = vga.more s" "vga.more (status_end_ok s) = vga.more s"
    by (simp_all add: status_begin_def status_end_ok_def Let_def c p)
qed

lemma vga_more_fs:
  fixes s t :: "'a fs_scheme"
  assumes "vga.more t = vga.more s"
  shows "ram t = ram s" "heap_start t = heap_start s" "heap_end t = heap_end s" "heap_head t = heap_head s"
    "ramfs_ops_at t = ramfs_ops_at s" "heap.more t = heap.more s"
  using assms by (cases s; cases t; simp)+

definition boot_tree :: "u32 \<Rightarrow> u32 \<Rightarrow> u32 \<Rightarrow> tree" where
  "boot_tree r c t =
     [r \<mapsto> (empty_node (lit ''/'') VFS_DIR)\<lparr>n_children := [c]\<rparr>,
      c \<mapsto> empty_node (lit ''tmp'') VFS_DIR, t \<mapsto> empty_node (lit ''/'') VFS_DIR]"

lemma heap_more_ops:
  fixes s t :: "'a fs_scheme"
  assumes "heap.more t = heap.more s"
  shows "ramfs_initialized t = ramfs_initialized s" "op_lookup t = op_lookup s" "op_create t = op_create s"
    "op_read t = op_read s" "op_write t = op_write s" "op_list t = op_list s" "mounts t = mounts s"
    "mount_count t = mount_count s" "vfs_root t = vfs_root s" "fs.more t = fs.more s"
  using assms by (cases s; cases t; simp)+

lemma create_instance_tree:
  assumes T: "tree_rep a s T" and room: "heap_room NODE_SIZEOF s"
  obtains r s' a' where "ramfs_create_instance s = Some (r, s')" "T r = None" "r \<noteq> 0"
    "tree_rep a' s' (T(r \<mapsto> empty_node (lit ''/'') VFS_DIR))"
    "heap.more s' = heap.more (ramfs_init_ops s)" "unat (heap_end s') \<le> unat (heap_end s) + 4 * NODE_SIZEOF + 80"
proof -
  have h: "heap_end (ramfs_init_ops s) = heap_end s" by (simp add: ramfs_init_ops_def)
  have "tree_rep a (ramfs_init_ops s) T"
    using T tree_rep_fields [of "ramfs_init_ops s" s a T] by (simp add: ramfs_init_ops_def)
  moreover have "heap_room NODE_SIZEOF (ramfs_init_ops s)" using room by (simp add: heap_room_def h)
  ultimately show ?thesis
    by (rule new_root_tree) (rule that, simp_all add: ramfs_create_instance_def h)
qed

lemma tmp_word: "holds (str_at (lit ''tmp'')) (lit ''tmp'')" "length (lit ''tmp'') < 64"
  and tmp_path: "holds (str_at (lit ''/tmp'')) (lit ''/tmp'')" "pieces 0x2F (lit ''/tmp'') = [lit ''tmp'']"
  by (simp_all add: lit_simps pieces_def)

lemma boot_disk:
  assumes rep: "heap_rep a s" and room: "unat (heap_end s) + 3000 < 0x800000"
    and new: "\<not> ramfs_initialized s" "mount_count s = 0"
  obtains r c t s' a' where "boot_filesystems s = Some s'" "vfs_rep a' s' (boot_tree r c t)" "vfs_root s' = r"
    "distinct [0, r, c, t]" "\<forall>x. vfs_check_mount x s' = (if x = c then t else x)"
    "op_create s'" "op_read s'" "op_write s'" "op_list s'" "fs.more s' = fs.more s" "unat (heap_end s') \<le> unat (heap_end s) + 2976"
proof -
  let ?e = "empty_node (lit ''/'') VFS_DIR"
  define s0 where "s0 = s"
  have v0: "vga.more s0 = vga.more s" by (simp add: s0_def)
  note f0 = vga_more_fs [OF v0] and o0 = heap_more_ops [OF vga_more_fs(6) [OF v0]]
  have rep0: "heap_rep a s0" using rep unfolding heap_rep_def heap_inv_def f0 .
  have r0: "heap_room NODE_SIZEOF s0" using room by (simp add: heap_room_def f0)
  obtain r s1 a1 where 1: "ramfs_create_instance s0 = Some (r, s1)" "Map.empty r = (None :: fnode option)" "r \<noteq> 0"
    "tree_rep a1 s1 [r \<mapsto> ?e]" "heap.more s1 = heap.more (ramfs_init_ops s0)"
    "unat (heap_end s1) \<le> unat (heap_end s0) + 4 * NODE_SIZEOF + 80"
    by (rule create_instance_tree [OF no_tree [OF rep0] r0])
  note ops1 = heap_more_ops [OF 1(5)]
  define s1' where "s1' = status_begin (lit ''Mounting /tmp as RAMFS'') (status_end_ok (s1\<lparr>vfs_root := r\<rparr>))"
  have v1: "vga.more s1' = vga.more (s1\<lparr>vfs_root := r\<rparr>)" by (simp only: s1'_def vga_more_status)
  note f1 = vga_more_fs [OF v1] and o1 = heap_more_ops [OF vga_more_fs(6) [OF v1]]
  have T1: "tree_rep a1 s1' [r \<mapsto> ?e]" using 1(4) tree_rep_fields [of s1' s1 a1] f1 by simp
  have room1: "heap_room NODE_SIZEOF s1'" using room 1(6) by (simp add: heap_room_def f0 f1)
  have nd: "length (n_children ?e) < 32" by (simp add: empty_node_def)
  have node: "ramfs_node r s1' = Some ()" by (rule ramfs_node_ok [OF T1]) simp
  obtain c s2 a2 where 2: "ramfs_create r (str_at (lit ''tmp'')) VFS_DIR s1' = Some (0, s2)" "[r \<mapsto> ?e] c = None" "c \<noteq> 0"
    "tree_rep a2 s2 (tree_create r (lit ''tmp'') VFS_DIR c [r \<mapsto> ?e])" "heap.more s2 = heap.more s1'"
    "unat (heap_end s2) \<le> unat (heap_end s1') + 4 * NODE_SIZEOF + 80"
    by (rule ramfs_create_tree [OF T1 fun_upd_same tmp_word nd room1])
  have cr: "c \<noteq> r" using 2(2) by (auto split: if_splits)
  note ops2 = heap_more_ops [OF 2(5)]
  have room2: "heap_room NODE_SIZEOF s2" using room 1(6) 2(6) by (simp add: heap_room_def f0 f1)
  obtain t s3 a3 where 3: "ramfs_create_instance s2 = Some (t, s3)" "tree_create r (lit ''tmp'') VFS_DIR c [r \<mapsto> ?e] t = None"
    "t \<noteq> 0" "tree_rep a3 s3 ((tree_create r (lit ''tmp'') VFS_DIR c [r \<mapsto> ?e])(t \<mapsto> ?e))"
    "heap.more s3 = heap.more (ramfs_init_ops s2)" "unat (heap_end s3) \<le> unat (heap_end s2) + 4 * NODE_SIZEOF + 80"
    by (rule create_instance_tree [OF 2(4) room2])
  note ops3 = heap_more_ops [OF 3(5)]
  have tr: "t \<noteq> r" "t \<noteq> c" using 3(2) by (auto simp: tree_create_def split: if_splits)
  let ?T = "boot_tree r c t"
  have T3: "tree_rep a3 s3 ?T"
    using 3(4) by (simp add: tree_create_def boot_tree_def empty_node_def)
  have i1: "ramfs_initialized s1" "op_lookup s1" "op_create s1" "op_read s1" "op_write s1" "op_list s1"
    "mount_count s1 = 0" "fs.more s1 = fs.more s"
    using ops1 o0 new by (simp_all add: ramfs_init_ops_def)
  have i1': "ramfs_initialized s1'" "op_lookup s1'" "op_create s1'" "op_read s1'" "op_write s1'" "op_list s1'"
    "mount_count s1' = 0" "fs.more s1' = fs.more s" "vfs_root s1' = r"
    using o1 i1 by simp_all
  have i2: "ramfs_init_ops s2 = s2" using ops2 i1' by (simp add: ramfs_init_ops_def)
  have i3: "op_lookup s3" "op_create s3" "op_read s3" "op_write s3" "op_list s3" "mount_count s3 = 0" "vfs_root s3 = r"
    "fs.more s3 = fs.more s"
    using ops3 ops2 i1' unfolding i2 by simp_all
  have V: "vfs_rep a3 s3 ?T" using T3 i3 by (simp add: vfs_rep_def boot_tree_def)
  have ent: "c = find_entry ?T (vfs_root s3) (lit ''tmp'')"
    using cr tr by (simp add: find_entry_def boot_tree_def names_def entry_def i3 empty_node_def)
  have cnt: "\<forall>j < mount_count s3. fst (mounts s3 j) \<noteq> c" "mount_count s3 < 8" "t \<in> dom ?T"
    using i3 by (simp_all add: boot_tree_def)
  obtain s4 where 4: "vfs_mount (str_at (lit ''/tmp'')) t s3 = Some s4" "vfs_rep a3 s4 ?T"
    "s4 = s3\<lparr>mounts := (mounts s3)(mount_count s3 := (c, t)), mount_count := mount_count s3 + 1\<rparr>"
    using mount_entry [OF V, where pre = "[]", OF tmp_path(1) _ _ _ _ _ 2(3) cnt] tmp_path(2) tmp_word(2) ent i3(7) 1(3) by auto
  define s5 where "s5 = status_end_ok s4"
  have v5: "vga.more s5 = vga.more s4" by (simp add: s5_def)
  note f5 = vga_more_fs [OF v5] and o5 = heap_more_ops [OF vga_more_fs(6) [OF v5]]
  have run: "boot_filesystems s = Some s5"
    using 1(1) node i1'(3,9) 2(1) 3(1) 4(1) unfolding boot_filesystems_def s0_def [symmetric]
    by (simp add: s1'_def [symmetric] s5_def)
  have V5: "vfs_rep a3 s5 ?T" using 4(2) o5 tree_rep_fields [OF f5(1-5)] by (simp add: vfs_rep_def)
  have chk: "vfs_check_mount x s5 = (if x = c then t else x)" for x
    using i3(6) o5 by (simp add: 4(3) vfs_check_mount_def)
  have "unat (heap_end s5) \<le> unat (heap_end s) + 2976"
    using 1(6) 2(6) 3(6) by (simp add: f5 f1 f0 4(3))
  then show ?thesis
    by (intro that [OF run V5]) (use i3 o5 chk 1(3) cr 2(3) 3(3) tr in \<open>simp_all add: 4(3)\<close>)
qed

section \<open>Properties\<close>

text \<open>C31: looking up a path is walking down the tree: the components between slashes, empty ones skipped,
  are looked up one after the other, each result replaced by the root mounted on it, and the first
  component that is not found makes the answer NULL.\<close>

theorem vfs_lookup_walk:
  assumes "vfs_rep a s T" and "holds path p" and "\<forall>w \<in> set (pieces 0x2F p). length w < 64"
  shows "vfs_lookup path s = Some (walk T (mnt_of s) (vfs_root s) (pieces 0x2F p))"
proof -
  have r: "vfs_root s \<in> dom T" and T: "tree_rep a s T" using assms(1) by (simp_all add: vfs_rep_def)
  then have "vfs_root s \<noteq> 0" using tree_node(6) [OF T] by blast
  then show ?thesis
    using resolve_from_walk [OF assms(1) r assms(2,3), of "replicate 64 0"]
    by (simp add: vfs_lookup_def path_resolve_def)
qed

text \<open>C32: the first mount on a node, at a path of any length whose components fit the buffer and which does not lead
  through the node itself, while fewer than eight file systems are mounted: every path that continues below the mount point
  resolves in the mounted tree, from the mounted root on, and no other node changes what it stands for. (A second mount on
  the same path is never seen: \<open>vfs_mount_again\<close>.)\<close>

theorem vfs_mount_visible:
  assumes R: "vfs_rep a s T" and p: "holds path p" "pieces 0x2F p = pre @ [nm]" "\<forall>w \<in> set (pre @ [nm]). length w < 64"
    and way: "\<forall>k < length pre. walk T (mnt_of s) (vfs_root s) (take (Suc k) pre) \<noteq> c" "walk T (mnt_of s) (vfs_root s) pre \<noteq> 0"
    and c: "c = find_entry T (walk T (mnt_of s) (vfs_root s) pre) nm" "c \<noteq> 0" "\<forall>j < mount_count s. fst (mounts s j) \<noteq> c"
    and n: "mount_count s < 8" and r: "r \<in> dom T"
  shows "\<exists>s'. vfs_mount path r s = Some s' \<and> vfs_rep a s' T
    \<and> (\<forall>x. x \<noteq> c \<longrightarrow> vfs_check_mount x s' = vfs_check_mount x s)
    \<and> (\<forall>sub q ns. holds sub q \<longrightarrow> pieces 0x2F q = pre @ nm # ns \<longrightarrow> (\<forall>w \<in> set ns. length w < 64) \<longrightarrow>
         vfs_lookup sub s' = Some (walk T (mnt_of s') r ns))"
  using mount_entry [OF assms] by blast

text \<open>On an empty heap the boot sequence succeeds and leaves a root directory whose one entry \<open>tmp\<close> is
  covered by a second, empty file system: every path resolves by walking this tree, and the operations
  create, read, write and list are installed.\<close>

lemma boot_filesystems_tree:
  assumes "heap_rep a s" and "unat (heap_end s) + 3000 < 0x800000"
    and "\<not> ramfs_initialized s" and "mount_count s = 0"
  shows "\<exists>r c t s' a'. boot_filesystems s = Some s' \<and> distinct [0, r, c, t] \<and> vfs_rep a' s' (boot_tree r c t)
    \<and> op_create s' \<and> op_read s' \<and> op_write s' \<and> op_list s'
    \<and> (\<forall>path p. holds path p \<longrightarrow> (\<forall>w \<in> set (pieces 0x2F p). length w < 64) \<longrightarrow>
         vfs_lookup path s' = Some (walk (boot_tree r c t) (\<lambda>x. if x = c then t else x) r (pieces 0x2F p)))"
proof -
  obtain r c t s' a' where b: "boot_filesystems s = Some s'" "vfs_rep a' s' (boot_tree r c t)" "vfs_root s' = r"
    "distinct [0, r, c, t]" "\<forall>x. vfs_check_mount x s' = (if x = c then t else x)"
    "op_create s'" "op_read s'" "op_write s'" "op_list s'" "fs.more s' = fs.more s"
    "unat (heap_end s') \<le> unat (heap_end s) + 2976"
    by (rule boot_disk [OF assms]) (rule that; assumption)
  have "vfs_lookup path s' = Some (walk (boot_tree r c t) (\<lambda>x. if x = c then t else x) r (pieces 0x2F p))"
    if "holds path p" "\<forall>w \<in> set (pieces 0x2F p). length w < 64" for path p
    using lookup_walk [OF b(2) that] unfolding b(3) spec [OF b(5)] .
  then show ?thesis using b(1,2,4,6-9) by blast
qed

text \<open>The file systems on the empty disk.\<close>

lemma booted:
  obtains r c t s a where "boot_filesystems empty_disk = Some s" "vfs_rep a s (boot_tree r c t)" "vfs_root s = r"
    "distinct [0, r, c, t]" "\<forall>x. vfs_check_mount x s = (if x = c then t else x)"
    "op_create s" "op_read s" "op_write s" "op_list s" "fs.more s = ()" "unat (heap_end s) \<le> 0x400000 + 2976"
proof -
  have e: "unat (heap_end empty_disk) + 3000 < 0x800000" "\<not> ramfs_initialized empty_disk" "mount_count empty_disk = 0"
    by (simp_all add: empty_disk_rep(2)) (simp_all add: empty_disk_def descriptors.defs fs.defs)
  obtain r c t s a where b: "boot_filesystems empty_disk = Some s" "vfs_rep a s (boot_tree r c t)" "vfs_root s = r"
    "distinct [0, r, c, t]" "\<forall>x. vfs_check_mount x s = (if x = c then t else x)"
    "op_create s" "op_read s" "op_write s" "op_list s" "fs.more s = fs.more empty_disk"
    "unat (heap_end s) \<le> unat (heap_end empty_disk) + 2976"
    by (rule boot_disk [OF empty_disk_rep(1) e]) (rule that; assumption)
  then show ?thesis using that by (simp add: empty_disk_rep(2))
qed

lemma boot_tree_simps:
  assumes "distinct [0, r, c, t]"
  shows "find_entry (boot_tree r c t) r nm = (if nm = lit ''tmp'' then c else 0)"
    "find_entry (boot_tree r c t) c nm = 0" "find_entry (boot_tree r c t) t nm = 0"
  using assms by (simp_all add: find_entry_def boot_tree_def names_def entry_def empty_node_def)

theorem vfs_lookup_walk_witness:
  "\<exists>r c t s a. boot_filesystems empty_disk = Some s \<and> t \<noteq> 0
     \<and> vfs_lookup (str_at (lit ''//tmp/'')) s = Some t \<and> vfs_lookup (str_at (lit ''/tmp/x'')) s = Some 0"
proof -
  obtain r c t s a where b: "boot_filesystems empty_disk = Some s" "vfs_rep a s (boot_tree r c t)" "vfs_root s = r"
    "distinct [0, r, c, t]" "\<forall>x. vfs_check_mount x s = (if x = c then t else x)"
    by (rule booted) (rule that; assumption)
  have "vfs_lookup (str_at (lit ''//tmp/'')) s = Some t" "vfs_lookup (str_at (lit ''/tmp/x'')) s = Some 0"
    using vfs_lookup_walk [OF b(2), of "str_at (lit ''//tmp/'')" "lit ''//tmp/''"]
      vfs_lookup_walk [OF b(2), of "str_at (lit ''/tmp/x'')" "lit ''/tmp/x''"] b(4)
    by (simp_all add: lit_simps pieces_def b(3) b(5) boot_tree_simps [OF b(4)] Let_def)
  then show ?thesis using b(1,4) by auto
qed

theorem vfs_mount_visible_witness:
  "\<exists>r c t s s'. boot_filesystems empty_disk = Some s \<and> vfs_mount (str_at (lit ''/tmp'')) r (s\<lparr>mount_count := 0\<rparr>) = Some s'
     \<and> vfs_lookup (str_at (lit ''/tmp'')) s' = Some r"
proof -
  obtain r c t s a where b: "boot_filesystems empty_disk = Some s" "vfs_rep a s (boot_tree r c t)" "vfs_root s = r"
    "distinct [0, r, c, t]" "\<forall>x. vfs_check_mount x s = (if x = c then t else x)"
    by (rule booted) (rule that; assumption)
  let ?s = "s\<lparr>mount_count := 0\<rparr>"
  have V: "vfs_rep a ?s (boot_tree r c t)"
    using b(2) tree_rep_fields [of ?s s a "boot_tree r c t"] by (simp add: vfs_rep_def)
  have e: "c = find_entry (boot_tree r c t) (vfs_root ?s) (lit ''tmp'')" "c \<noteq> 0" "r \<in> dom (boot_tree r c t)"
    using b(3,4) boot_tree_simps [OF b(4)] by (simp_all add: boot_tree_def)
  obtain s' where s': "vfs_mount (str_at (lit ''/tmp'')) r ?s = Some s'"
    "\<forall>sub q ns. holds sub q \<longrightarrow> pieces 0x2F q = lit ''tmp'' # ns \<longrightarrow> (\<forall>w \<in> set ns. length w < 64) \<longrightarrow>
         vfs_lookup sub s' = Some (walk (boot_tree r c t) (mnt_of s') r ns)"
    using vfs_mount_visible [OF V, where pre = "[]", OF tmp_path(1) _ _ _ _ _ e(2) _ _ e(3)] tmp_path(2) tmp_word(2) e(1) b(3,4) by auto
  have "vfs_lookup (str_at (lit ''/tmp'')) s' = Some r"
    using s'(2) tmp_path by (metis empty_iff list.set(1) walk.simps(1))
  then show ?thesis using b(1) s'(1) by blast
qed

lemma boot_filesystems_tree_witness:
  "\<exists>r c t s. boot_filesystems empty_disk = Some s \<and> distinct [0, r, c, t]
     \<and> vfs_lookup (str_at (lit ''/'')) s = Some r \<and> vfs_lookup (str_at (lit ''/tmp'')) s = Some t"
proof -
  have e: "unat (heap_end empty_disk) + 3000 < 0x800000" "\<not> ramfs_initialized empty_disk" "mount_count empty_disk = 0"
    by (simp_all add: empty_disk_rep(2)) (simp_all add: empty_disk_def descriptors.defs fs.defs)
  obtain r c t s where b: "boot_filesystems empty_disk = Some s" "distinct [0, r, c, t]"
    "\<forall>path p. holds path p \<longrightarrow> (\<forall>w \<in> set (pieces 0x2F p). length w < 64) \<longrightarrow>
         vfs_lookup path s = Some (walk (boot_tree r c t) (\<lambda>x. if x = c then t else x) r (pieces 0x2F p))"
    using boot_filesystems_tree [OF empty_disk_rep(1) e] by blast
  have "vfs_lookup (str_at (lit ''/'')) s = Some r" "vfs_lookup (str_at (lit ''/tmp'')) s = Some t"
    using b(3) [rule_format, of "str_at (lit ''/'')" "lit ''/''"] b(3) [rule_format, OF tmp_path(1)] tmp_path(2) b(2)
    by (simp_all add: lit_simps pieces_def boot_tree_simps [OF b(2)] Let_def)
  then show ?thesis using b(1,2) by blast
qed

end
