(* ===== verification/Fd.thy ===== *)
theory Fd
  imports Vfs
begin

text \<open>
  \<open>fs/fd/fd.c\<close>: the table of 32 open files and the system calls on it. A descriptor is a signed 32-bit
  number, the caller's buffers are objects outside the heap. \<open>None\<close> is a fault inside the file system.
\<close>

section \<open>Model\<close>

record file_desc =
  fd_used :: bool
  fd_node :: u32
  fd_offset :: u32

record fd = fs +
  fd_table :: "file_desc list"

abbreviation MAX_FDS :: nat where "MAX_FDS \<equiv> 32"

definition fd_init :: "'a fd_scheme \<Rightarrow> 'a fd_scheme" where
  "fd_init s = s\<lparr>fd_table := map (\<lambda>d. d\<lparr>fd_used := False\<rparr>) (fd_table s)\<rparr>"

fun fd_alloc_from :: "nat \<Rightarrow> nat \<Rightarrow> file_desc list \<Rightarrow> i32 \<times> file_desc list" where
  "fd_alloc_from i 0 t = (- 1, t)"
| "fd_alloc_from i (Suc k) t =
     (if \<not> fd_used (t ! i) then (of_nat i, t[i := (t ! i)\<lparr>fd_used := True, fd_offset := 0\<rparr>])
      else fd_alloc_from (i + 1) k t)"

definition fd_alloc :: "'a fd_scheme \<Rightarrow> i32 \<times> 'a fd_scheme" where
  "fd_alloc s = (let (fd, t) = fd_alloc_from 0 MAX_FDS (fd_table s) in (fd, s\<lparr>fd_table := t\<rparr>))"

definition set_fd :: "i32 \<Rightarrow> (file_desc \<Rightarrow> file_desc) \<Rightarrow> 'a fd_scheme \<Rightarrow> 'a fd_scheme" where
  "set_fd fd f s = s\<lparr>fd_table := (fd_table s)[unat fd := f (fd_table s ! unat fd)]\<rparr>"

definition sys_open :: "reader \<Rightarrow> 'a fd_scheme \<Rightarrow> (i32 \<times> 'a fd_scheme) option" where
  "sys_open path s = do {
     node \<leftarrow> vfs_lookup path s;
     if node = 0 then Some (- 1, s)
     else let (fd, s) = fd_alloc s
     in if sint fd < 0 then Some (- 1, s)
        else Some (fd, set_fd fd (\<lambda>d. d\<lparr>fd_node := node\<rparr>) s) }"

text \<open>The guard every call on a descriptor opens with.\<close>

definition bad_fd :: "i32 \<Rightarrow> 'a fd_scheme \<Rightarrow> bool" where
  "bad_fd fd s \<longleftrightarrow> sint fd < 0 \<or> int MAX_FDS \<le> sint fd \<or> \<not> fd_used (fd_table s ! unat fd)"

definition sys_write :: "i32 \<Rightarrow> reader \<Rightarrow> u32 \<Rightarrow> 'a fd_scheme \<Rightarrow> (i32 \<times> 'a fd_scheme) option" where
  "sys_write fd buffer sz s =
     (if bad_fd fd s then Some (- 1, s)
      else let desc = fd_table s ! unat fd
      in do {
        _ \<leftarrow> ramfs_node (fd_node desc) s;
        (written, s) \<leftarrow> (if op_write s then ramfs_write (fd_node desc) (fd_offset desc) sz buffer s else None);
        s \<leftarrow> Some (if 0 < sint written then set_fd fd (\<lambda>d. d\<lparr>fd_offset := fd_offset d + written\<rparr>) s else s);
        Some (written, s) })"

definition sys_read :: "i32 \<Rightarrow> u8 list \<Rightarrow> u32 \<Rightarrow> 'a fd_scheme \<Rightarrow> (i32 \<times> u8 list \<times> 'a fd_scheme) option" where
  "sys_read fd buffer sz s =
     (if bad_fd fd s then Some (- 1, buffer, s)
      else let desc = fd_table s ! unat fd
      in do {
        _ \<leftarrow> ramfs_node (fd_node desc) s;
        (read, buffer) \<leftarrow> (if op_read s then ramfs_read (fd_node desc) (fd_offset desc) sz buffer s else None);
        s \<leftarrow> Some (if 0 < sint read then set_fd fd (\<lambda>d. d\<lparr>fd_offset := fd_offset d + read\<rparr>) s else s);
        Some (read, buffer, s) })"

definition sys_close :: "i32 \<Rightarrow> 'a fd_scheme \<Rightarrow> 'a fd_scheme" where
  "sys_close fd s =
     (if 0 \<le> sint fd \<and> sint fd < int MAX_FDS then set_fd fd (\<lambda>d. d\<lparr>fd_used := False\<rparr>) s else s)"

definition sys_seek :: "i32 \<Rightarrow> u32 \<Rightarrow> 'a fd_scheme \<Rightarrow> i32 \<times> 'a fd_scheme" where
  "sys_seek fd offset s =
     (if bad_fd fd s then (- 1, s) else (0, set_fd fd (\<lambda>d. d\<lparr>fd_offset := offset\<rparr>) s))"

section \<open>The table\<close>

text \<open>The lowest free descriptor, if any.\<close>

definition free_fds :: "file_desc list \<Rightarrow> nat set" where
  "free_fds t = {i. i < length t \<and> \<not> fd_used (t ! i)}"

lemma fd_alloc_from_lowest:
  assumes "i + k = length t" and "\<forall>j < i. fd_used (t ! j)"
  shows "fd_alloc_from i k t =
    (if free_fds t = {} then (- 1, t)
     else (of_nat (LEAST j. j \<in> free_fds t), t[(LEAST j. j \<in> free_fds t) :=
       (t ! (LEAST j. j \<in> free_fds t))\<lparr>fd_used := True, fd_offset := 0\<rparr>]))"
  using assms
proof (induction k arbitrary: i)
  case 0
  then show ?case by (auto simp: free_fds_def)
next
  case (Suc k)
  show ?case
  proof (cases "fd_used (t ! i)")
    case True
    then have "\<forall>j < Suc i. fd_used (t ! j)" using Suc.prems(2) by (auto simp: less_Suc_eq)
    then show ?thesis using Suc.IH [of "Suc i"] Suc.prems(1) True by simp
  next
    case False
    then have "i \<in> free_fds t" "\<And>j. j \<in> free_fds t \<Longrightarrow> i \<le> j"
      using Suc.prems by (auto simp: free_fds_def not_less [symmetric])
    then have "(LEAST j. j \<in> free_fds t) = i" "free_fds t \<noteq> {}" by (auto intro: Least_equality)
    then show ?thesis using False by simp
  qed
qed

lemma small_fd:
  assumes "i < 2 ^ 31"
  shows "unat (of_nat i :: i32) = i" "sint (of_nat i :: i32) = int i"
proof -
  show "unat (of_nat i :: i32) = i" using assms by (intro unat_of_nat_small) simp
  have "sint (of_nat i :: i32) = signed_take_bit 31 (int i)" by (simp add: signed_of_nat)
  also have "\<dots> = int i" using assms by (intro signed_take_bit_int_eq_self) simp_all
  finally show "sint (of_nat i :: i32) = int i" .
qed

section \<open>Opening\<close>

definition lowest_fd :: "file_desc list \<Rightarrow> nat" where
  "lowest_fd t = (LEAST j. j \<in> free_fds t)"

lemma lowest_fd: "free_fds t \<noteq> {} \<Longrightarrow> lowest_fd t \<in> free_fds t"
  unfolding lowest_fd_def by (metis LeastI ex_in_conv)

lemma sys_open_result:
  assumes len: "length (fd_table s) = MAX_FDS" and lk: "vfs_lookup path s = Some node"
  shows "sys_open path s =
    (if node = 0 \<or> free_fds (fd_table s) = {} then Some (- 1, s)
     else Some (of_nat (lowest_fd (fd_table s)), s\<lparr>fd_table := (fd_table s)
       [lowest_fd (fd_table s) := \<lparr>fd_used = True, fd_node = node, fd_offset = 0\<rparr>]\<rparr>))"
proof -
  let ?t = "fd_table s" and ?i = "lowest_fd (fd_table s)"
  have al: "fd_alloc_from 0 MAX_FDS ?t =
      (if free_fds ?t = {} then (- 1, ?t) else (of_nat ?i, ?t[?i := (?t ! ?i)\<lparr>fd_used := True, fd_offset := 0\<rparr>]))"
    using fd_alloc_from_lowest [of 0 MAX_FDS ?t] len unfolding lowest_fd_def by simp
  show ?thesis
  proof (cases "free_fds ?t = {}")
    case True
    then show ?thesis using lk al by (simp add: sys_open_def fd_alloc_def)
  next
    case False
    then have "?i < MAX_FDS" using lowest_fd [OF False] len by (simp add: free_fds_def)
    then show ?thesis
      using lk al False small_fd [of ?i] len
      by (cases "fd_table s ! ?i") (simp add: sys_open_def fd_alloc_def set_fd_def)
  qed
qed

section \<open>Calls on an open file\<close>

definition fd_is :: "nat \<Rightarrow> u32 \<Rightarrow> nat \<Rightarrow> 'a fd_scheme \<Rightarrow> bool" where
  "fd_is i f off s \<longleftrightarrow> length (fd_table s) = MAX_FDS \<and> i < MAX_FDS \<and> fd_used (fd_table s ! i)
     \<and> fd_node (fd_table s ! i) = f \<and> fd_offset (fd_table s ! i) = of_nat off"

lemma fd_is_good: "fd_is i f off s \<Longrightarrow> \<not> bad_fd (of_nat i) s"
  using small_fd [of i] by (simp add: fd_is_def bad_fd_def)

lemma sys_seek_ok: "fd_is i f off s \<Longrightarrow> sys_seek (of_nat i) (of_nat k) s =
    (0, s\<lparr>fd_table := (fd_table s)[i := (fd_table s ! i)\<lparr>fd_offset := of_nat k\<rparr>]\<rparr>)"
  using fd_is_good [of i f off s] small_fd [of i] by (simp add: sys_seek_def set_fd_def fd_is_def)

lemma fd_is_seek: "fd_is i f off s \<Longrightarrow> fd_is i f k (snd (sys_seek (of_nat i) (of_nat k) s))"
  by (subst sys_seek_ok) (auto simp: fd_is_def)

text \<open>A write through a descriptor writes at its position, which moves on by what was written.\<close>

lemma sys_write_file:
  assumes fd: "fd_is i f off s" and T: "tree_rep a s T" and f: "T f = Some nd" "n_flags nd AND VFS_DIR = 0"
    and w: "op_write s" and off: "off \<le> length (n_data nd)" and n: "0 < length bs" "heap_room (off + length bs) s"
    and buf: "\<forall>j < length bs. buffer j = Some (bs ! j)"
  obtains q cap s' a' where "sys_write (of_nat i) buffer (of_nat (length bs)) s = Some (of_nat (length bs), s')"
    "tree_rep a' s' (tree_write f off bs q cap T)" "fd_is i f (off + length bs) s'"
    "heap.more s' = heap.more (s\<lparr>fd_table := (fd_table s)[i := (fd_table s ! i)\<lparr>fd_offset := of_nat (off + length bs)\<rparr>]\<rparr>)"
    "unat (heap_end s') \<le> unat (heap_end s) + 4 * (off + length bs) + 80"
proof -
  let ?n = "length bs"
  obtain q cap s1 a1 where w1: "ramfs_write f (of_nat off) (of_nat ?n) buffer s = Some (of_nat ?n, s1)"
    "tree_rep a1 s1 (tree_write f off bs q cap T)" "heap.more s1 = heap.more s"
    "unat (heap_end s1) \<le> unat (heap_end s) + 4 * (off + ?n) + 80"
    by (rule ramfs_write_tree [OF T f off n buf])
  let ?t = "(fd_table s)[i := (fd_table s ! i)\<lparr>fd_offset := of_nat (off + ?n)\<rparr>]"
  have same: "fd_table s1 = fd_table s" using w1(3) by (cases s; cases s1) simp
  define s' where "s' = s1\<lparr>fd_table := ?t\<rparr>"
  have i: "i < 32" "unat (of_nat i :: i32) = i" using fd small_fd [of i] by (simp_all add: fd_is_def)
  have sm: "off + ?n < 2 ^ 31" using n(2) by (simp add: heap_room_def)
  have nz: "0 < sint (of_nat ?n :: i32)" using small_fd(2) [of ?n] sm n(1) by simp
  have nd: "ramfs_node f s = Some ()" by (rule ramfs_node_ok [OF T]) (use f in blast)
  have "sys_write (of_nat i) buffer (of_nat ?n) s = Some (of_nat ?n, s')"
    using fd_is_good [OF fd] nd w w1(1) nz fd i(2)
    by (simp add: sys_write_def fd_is_def set_fd_def same s'_def)
  moreover have "tree_rep a1 s' (tree_write f off bs q cap T)"
    using w1(2) tree_rep_fields [of s' s1] by (simp add: s'_def)
  moreover have "fd_is i f (off + ?n) s'" using fd by (simp add: fd_is_def s'_def)
  moreover have "heap.more s' = heap.more (s\<lparr>fd_table := ?t\<rparr>)" using w1(3) unfolding s'_def by (cases s; cases s1) simp
  ultimately show ?thesis using that w1(4) by (simp add: s'_def)
qed

lemma sys_read_file:
  assumes fd: "fd_is i f off s" and T: "tree_rep a s T" and f: "T f = Some nd" "n_flags nd AND VFS_DIR = 0"
    and r: "op_read s" and n: "off + n < 2 ^ 31" and room: "min n (length (n_data nd) - off) \<le> length buf"
  shows "\<exists>s'. sys_read (of_nat i) buf (of_nat n) s =
      Some (of_nat (min n (length (n_data nd) - off)),
        take n (drop off (n_data nd)) @ drop (min n (length (n_data nd) - off)) buf, s')
    \<and> fd_is i f (off + min n (length (n_data nd) - off)) s'
    \<and> s' = s\<lparr>fd_table := (fd_table s)[i := (fd_table s ! i)\<lparr>fd_offset := of_nat (off + min n (length (n_data nd) - off))\<rparr>]\<rparr>"
proof -
  let ?k = "min n (length (n_data nd) - off)"
  let ?s = "s\<lparr>fd_table := (fd_table s)[i := (fd_table s ! i)\<lparr>fd_offset := of_nat (off + ?k)\<rparr>]\<rparr>"
  note rd = ramfs_read_tree [OF T f n room]
  have nd: "ramfs_node f s = Some ()" by (rule ramfs_node_ok [OF T]) (use f in blast)
  have i: "i < 32" "unat (of_nat i :: i32) = i" "length (fd_table s) = 32" "fd_offset (fd_table s ! i) = of_nat off"
    using fd small_fd [of i] by (simp_all add: fd_is_def)
  have k: "sint (of_nat ?k :: i32) = int ?k" by (rule small_fd(2)) (use n in simp)
  have same: "?s = s" if "?k = 0"
  proof -
    have "(fd_table s ! i)\<lparr>fd_offset := of_nat (off + ?k)\<rparr> = fd_table s ! i" unfolding that using i(4) by simp
    then show ?thesis by simp
  qed
  have "(if 0 < sint (of_nat ?k :: i32) then set_fd (of_nat i) (\<lambda>d. d\<lparr>fd_offset := fd_offset d + of_nat ?k\<rparr>) s else s) = ?s"
  proof (cases "?k = 0")
    case True
    then have "\<not> 0 < sint (of_nat ?k :: i32)" unfolding k by simp
    then show ?thesis by (rule trans [OF if_not_P same [OF True, symmetric]])
  next
    case False
    then show ?thesis unfolding k using i by (simp add: set_fd_def del: of_nat_min)
  qed
  then have "sys_read (of_nat i) buf (of_nat n) s = Some (of_nat ?k, take n (drop off (n_data nd)) @ drop ?k buf, ?s)"
    using fd_is_good [OF fd] nd r rd fd i(2)
    by (simp add: sys_read_def fd_is_def del: of_nat_min)
  then show ?thesis using fd by (simp add: fd_is_def del: of_nat_min)
qed

section \<open>Sessions\<close>

lemma heap_more_fd:
  fixes s t :: "'a fd_scheme"
  assumes "heap.more t = heap.more (s\<lparr>fd_table := tab\<rparr>)"
  shows "fd_table t = tab" "fd.more t = fd.more s" "op_lookup t = op_lookup s" "op_create t = op_create s"
    "op_read t = op_read s" "op_write t = op_write s" "op_list t = op_list s" "mounts t = mounts s"
    "mount_count t = mount_count s" "vfs_root t = vfs_root s"
  using assms by (cases s; cases t; simp)+

lemma tree_write_dom: "T f = Some nd \<Longrightarrow> dom (tree_write f off bs q cap T) = dom T"
  by (auto simp: tree_write_def)

lemma vfs_rep_table: "vfs_rep a (s\<lparr>fd_table := tab\<rparr>) T \<longleftrightarrow> vfs_rep a s T"
  using tree_rep_fields [of "s\<lparr>fd_table := tab\<rparr>" s a T] by (simp add: vfs_rep_def)

text \<open>Opening an existing path with a descriptor left.\<close>

lemma sys_open_ok:
  assumes R: "vfs_rep a s T" and p: "holds path p" "\<forall>w \<in> set (pieces 0x2F p). length w < 64"
    and f: "walk T (mnt_of s) (vfs_root s) (pieces 0x2F p) = f" "f \<noteq> 0"
    and tab: "length (fd_table s) = MAX_FDS" "free_fds (fd_table s) \<noteq> {}"
  obtains i s' where "sys_open path s = Some (of_nat i, s')" "fd_is i f 0 s'" "i \<in> free_fds (fd_table s)"
    "s' = s\<lparr>fd_table := (fd_table s)[i := \<lparr>fd_used = True, fd_node = f, fd_offset = 0\<rparr>]\<rparr>" "vfs_rep a s' T"
proof -
  let ?i = "lowest_fd (fd_table s)"
  let ?s = "s\<lparr>fd_table := (fd_table s)[?i := \<lparr>fd_used = True, fd_node = f, fd_offset = 0\<rparr>]\<rparr>"
  have "vfs_lookup path s = Some f" using lookup_walk [OF R p] f(1) by simp
  then have o: "sys_open path s = Some (of_nat ?i, ?s)" using sys_open_result [OF tab(1)] f(2) tab(2) by simp
  have i: "?i \<in> free_fds (fd_table s)" by (rule lowest_fd [OF tab(2)])
  then have "fd_is ?i f 0 ?s" using tab(1) by (simp add: fd_is_def free_fds_def)
  then show ?thesis using that [OF o _ i refl] R vfs_rep_table by blast
qed

lemma sys_close_free:
  assumes "length (fd_table s) = MAX_FDS" and "i < MAX_FDS"
  shows "free_fds (fd_table (sys_close (of_nat i) s)) = insert i (free_fds (fd_table s))"
proof -
  have "0 \<le> sint (of_nat i :: i32) \<and> sint (of_nat i :: i32) < int MAX_FDS" "unat (of_nat i :: i32) = i"
    using small_fd [of i] assms(2) by simp_all
  then show ?thesis using assms by (auto simp: sys_close_def set_fd_def free_fds_def nth_list_update split: if_splits)
qed

section \<open>Properties\<close>

text \<open>Opening a path that exists takes the lowest free descriptor, positioned at the start of the file,
  and changes no other descriptor; an unknown path or a full table is answered by -1 and nothing changes.\<close>

lemma sys_open_lowest:
  assumes "length (fd_table s) = MAX_FDS" and "vfs_lookup path s = Some node"
  shows "sys_open path s =
    (if node = 0 \<or> (\<forall>i < MAX_FDS. fd_used (fd_table s ! i)) then Some (- 1, s)
     else let i = LEAST i. i < MAX_FDS \<and> \<not> fd_used (fd_table s ! i)
          in Some (of_nat i, s\<lparr>fd_table := (fd_table s)[i := \<lparr>fd_used = True, fd_node = node, fd_offset = 0\<rparr>]\<rparr>))"
proof -
  have "free_fds (fd_table s) = {} \<longleftrightarrow> (\<forall>i < MAX_FDS. fd_used (fd_table s ! i))"
    "lowest_fd (fd_table s) = (LEAST i. i < MAX_FDS \<and> \<not> fd_used (fd_table s ! i))"
    using assms(1) by (auto simp: free_fds_def lowest_fd_def)
  then show ?thesis using sys_open_result [OF assms] by (simp only: Let_def)
qed

text \<open>Reading, writing or seeking on a descriptor that is negative, at least 32 or not open answers -1,
  touches no buffer and changes nothing; closing one that is out of range does nothing.\<close>

lemma fd_calls_guarded:
  assumes "sint fd < 0 \<or> 32 \<le> sint fd \<or> \<not> fd_used (fd_table s ! unat fd)"
  shows "sys_write fd buffer sz s = Some (- 1, s) \<and> sys_read fd buf sz s = Some (- 1, buf, s)
    \<and> sys_seek fd off s = (- 1, s) \<and> (0 \<le> sint fd \<and> sint fd < 32 \<or> sys_close fd s = s)"
  using assms by (auto simp: sys_write_def sys_read_def sys_seek_def sys_close_def bad_fd_def)

text \<open>C40: a session on a file: open, write, seek to the start, read and close. The read returns the bytes
  written, the tree has the new contents in this file and is otherwise the same, and after closing
  the same descriptors are free as before.\<close>

theorem file_session:
  assumes R: "vfs_rep a s T" and p: "holds path p" "\<forall>w \<in> set (pieces 0x2F p). length w < 64"
    and f: "walk T (mnt_of s) (vfs_root s) (pieces 0x2F p) = f" "T f = Some nd" "n_flags nd AND VFS_DIR = 0"
    and ops: "op_write s" "op_read s" and tab: "length (fd_table s) = MAX_FDS" "free_fds (fd_table s) \<noteq> {}"
    and n: "0 < length bs" "heap_room (length bs) s" and buf: "\<forall>j < length bs. buffer j = Some (bs ! j)"
    and dest: "length bs \<le> length dest"
  shows "\<exists>fd s1 s2 s3 s4 a' q cap. sys_open path s = Some (fd, s1)
    \<and> sys_write fd buffer (of_nat (length bs)) s1 = Some (of_nat (length bs), s2)
    \<and> sys_seek fd 0 s2 = (0, s3)
    \<and> sys_read fd dest (of_nat (length bs)) s3 = Some (of_nat (length bs), bs @ drop (length bs) dest, s4)
    \<and> vfs_rep a' (sys_close fd s4) (tree_write f 0 bs q cap T)
    \<and> free_fds (fd_table (sys_close fd s4)) = free_fds (fd_table s)"
proof -
  have T: "tree_rep a s T" using R by (simp add: vfs_rep_def)
  have f0: "f \<noteq> 0" using tree_node(6) [OF T f(2)] .
  let ?n = "length bs"
  obtain i s1 where o: "sys_open path s = Some (of_nat i, s1)" "fd_is i f 0 s1" "i \<in> free_fds (fd_table s)"
    "s1 = s\<lparr>fd_table := (fd_table s)[i := \<lparr>fd_used = True, fd_node = f, fd_offset = 0\<rparr>]\<rparr>" "vfs_rep a s1 T"
    by (rule sys_open_ok [OF R p f(1) f0 tab])
  have T1: "tree_rep a s1 T" using o(5) by (simp add: vfs_rep_def)
  have w1: "op_write s1" "heap_room (0 + ?n) s1" using ops n(2) by (simp_all add: o(4) heap_room_def)
  have "0 \<le> length (n_data nd)" by simp
  from sys_write_file [OF o(2) T1 f(2,3) w1(1) this n(1) w1(2) buf]
  obtain q cap s2 a2 where w: "sys_write (of_nat i) buffer (of_nat ?n) s1 = Some (of_nat ?n, s2)"
    "tree_rep a2 s2 (tree_write f 0 bs q cap T)" "fd_is i f (0 + ?n) s2"
    "heap.more s2 = heap.more (s1\<lparr>fd_table := (fd_table s1)[i := (fd_table s1 ! i)\<lparr>fd_offset := of_nat (0 + ?n)\<rparr>]\<rparr>)"
    by metis
  let ?T = "tree_write f 0 bs q cap T"
  note m2 = heap_more_fd [OF w(4)]
  let ?s3 = "s2\<lparr>fd_table := (fd_table s2)[i := (fd_table s2 ! i)\<lparr>fd_offset := of_nat 0\<rparr>]\<rparr>"
  have k: "sys_seek (of_nat i) 0 s2 = (0, ?s3)" using sys_seek_ok [OF w(3), of 0] by simp
  have fd3: "fd_is i f 0 ?s3" using w(3) by (simp add: fd_is_def)
  have T3: "tree_rep a2 ?s3 ?T" using w(2) tree_rep_fields [of ?s3 s2] by simp
  let ?nd = "nd\<lparr>n_buf := q, n_cap := cap, n_data := patch 0 bs (n_data nd)\<rparr>"
  have f3: "?T f = Some ?nd" "n_flags ?nd AND VFS_DIR = 0" using f by (simp_all add: tree_write_def)
  have r3: "op_read ?s3" using m2 ops by (simp add: o(4))
  have pl: "length (patch 0 bs (n_data nd)) = max (length (n_data nd)) ?n" "take ?n (patch 0 bs (n_data nd)) = bs"
    using patch_nth(1) [of 0 "n_data nd" bs] by (simp_all add: patch_def)
  have kk: "min ?n (length (n_data ?nd) - 0) = ?n" using pl(1) by simp
  have n31: "0 + ?n < 2 ^ 31" using n(2) by (simp add: heap_room_def)
  have room: "min ?n (length (n_data ?nd) - 0) \<le> length dest" unfolding kk by (rule dest)
  obtain s4 where r: "sys_read (of_nat i) dest (of_nat ?n) ?s3 = Some (of_nat ?n, bs @ drop ?n dest, s4)"
    "s4 = ?s3\<lparr>fd_table := (fd_table ?s3)[i := (fd_table ?s3 ! i)\<lparr>fd_offset := of_nat (0 + ?n)\<rparr>]\<rparr>"
    using sys_read_file [OF fd3 T3 f3 r3 n31 room] unfolding kk using pl(2) by auto
  have i: "i < MAX_FDS" "\<not> fd_used (fd_table s ! i)" using o(3) tab(1) by (simp_all add: free_fds_def)
  have tab4: "fd_table s4 = (fd_table s)[i := fd_table s4 ! i]" "length (fd_table s4) = MAX_FDS" "fd_used (fd_table s4 ! i)"
    using i tab(1) by (simp_all add: r(2) m2(1) o(4))
  have "free_fds (fd_table (sys_close (of_nat i) s4)) = insert i (free_fds (fd_table s4))"
    by (rule sys_close_free [OF tab4(2) i(1)])
  also have "\<dots> = free_fds (fd_table s)"
    using i tab(1) tab4(2,3) unfolding free_fds_def
    by (subst tab4(1)) (auto simp: nth_list_update split: if_splits)
  finally have fr: "free_fds (fd_table (sys_close (of_nat i) s4)) = free_fds (fd_table s)" .
  have "vfs_rep a2 s2 ?T"
    using w(2) m2 o(5) tree_write_dom [where T = T and f = f, OF f(2)] by (simp add: vfs_rep_def o(4))
  then have "vfs_rep a2 (sys_close (of_nat i) s4) ?T"
    by (simp add: r(2) sys_close_def set_fd_def vfs_rep_table)
  then show ?thesis using o(1) w(1) k r(1) fr by blast
qed

text \<open>The kernel after boot with one file, \<open>/log\<close>, and an empty table of open files.\<close>

lemma pieces_log: "holds (str_at (lit ''/log'')) (lit ''/log'')" "pieces 0x2F (lit ''/log'') = [lit ''log'']"
    "holds (str_at (lit ''log'')) (lit ''log'')"
  by (simp_all add: lit_simps pieces_def)

lemma log_file:
  obtains f nd a T and s :: fd where "vfs_rep a s T" "walk T (mnt_of s) (vfs_root s) (pieces 0x2F (lit ''/log'')) = f"
    "T f = Some nd" "n_flags nd AND VFS_DIR = 0" "op_write s" "op_read s"
    "fd_table s = replicate 32 \<lparr>fd_used = False, fd_node = 0, fd_offset = 0\<rparr>"
    "heap_room 100 s" "vfs_lookup (str_at (lit ''/log'')) s = Some f" "f \<noteq> 0" "n_data nd = []"
proof -
  obtain r c t s a where b: "boot_filesystems empty_disk = Some s" "vfs_rep a s (boot_tree r c t)" "vfs_root s = r"
    "distinct [0, r, c, t]" "\<forall>x. vfs_check_mount x s = (if x = c then t else x)"
    "op_create s" "op_read s" "op_write s" "op_list s" "fs.more s = ()" "unat (heap_end s) \<le> 0x400000 + 2976"
    by (rule booted) (rule that; assumption)
  let ?s = "fs.extend s (fd.fields (replicate 32 \<lparr>fd_used = False, fd_node = 0, fd_offset = 0\<rparr>))"
  have h: "ram ?s = ram s" "heap_start ?s = heap_start s" "heap_end ?s = heap_end s" "heap_head ?s = heap_head s"
    "ramfs_ops_at ?s = ramfs_ops_at s" "mounts ?s = mounts s" "mount_count ?s = mount_count s" "vfs_root ?s = vfs_root s"
    "op_lookup ?s = op_lookup s" "op_read ?s = op_read s" "op_write ?s = op_write s"
    "fd_table ?s = replicate 32 \<lparr>fd_used = False, fd_node = 0, fd_offset = 0\<rparr>"
    by (simp_all add: fs.defs fd.defs)
  have T: "tree_rep a ?s (boot_tree r c t)"
    using b(2) tree_rep_fields [OF h(1-5)] by (simp add: vfs_rep_def)
  have room: "heap_room NODE_SIZEOF ?s" using b(11) by (simp add: heap_room_def h(3))
  have d: "boot_tree r c t r = Some ((empty_node (lit ''/'') VFS_DIR)\<lparr>n_children := [c]\<rparr>)"
    using b(4) by (simp add: boot_tree_def)
  have nm: "length (lit ''log'') < 64" "length (n_children ((empty_node (lit ''/'') VFS_DIR)\<lparr>n_children := [c]\<rparr>)) < 32"
    by simp_all
  obtain f s1 a1 where f: "ramfs_create r (str_at (lit ''log'')) VFS_FILE ?s = Some (0, s1)" "boot_tree r c t f = None" "f \<noteq> 0"
    "tree_rep a1 s1 (tree_create r (lit ''log'') VFS_FILE f (boot_tree r c t))" "heap.more s1 = heap.more ?s"
    "unat (heap_end s1) \<le> unat (heap_end ?s) + 4 * NODE_SIZEOF + 80"
    by (rule ramfs_create_tree [OF T d pieces_log(3) nm room])
  let ?T = "tree_create r (lit ''log'') VFS_FILE f (boot_tree r c t)"
  have m: "heap.more s1 = heap.more (?s\<lparr>fd_table := fd_table ?s\<rparr>)" using f(5) by simp
  note m1 = heap_more_fd [OF m]
  have dm: "r \<in> dom (boot_tree r c t)" "t \<in> dom (boot_tree r c t)" using b(4) by (simp_all add: boot_tree_def)
  have V: "vfs_rep a1 s1 ?T"
    using b(2) f(4) m1 by (auto simp: vfs_rep_def h tree_create_def)
  have nf: "f \<noteq> r" "f \<noteq> c" "f \<noteq> t" using f(2) b(4) by (auto simp: boot_tree_def split: if_splits)
  have chk: "vfs_check_mount f s1 = f"
    using b(5) nf m1 by (simp add: vfs_check_mount_def h)
  have en: "find_entry ?T r (lit ''log'') = f"
    using nf b(4) by (simp add: find_entry_def tree_create_def names_def entry_def empty_node_def boot_tree_def lit_simps)
  have w: "walk ?T (mnt_of s1) (vfs_root s1) (pieces 0x2F (lit ''/log'')) = f"
    using en f(3) chk m1 by (simp add: pieces_log(2) h b(3))
  have lk: "vfs_lookup (str_at (lit ''/log'')) s1 = Some f"
    using lookup_walk [OF V pieces_log(1)] w unfolding pieces_log(2) by simp
  have "heap_room 100 s1" using f(6) b(11) by (simp add: heap_room_def h(3))
  then show ?thesis
    using that [OF V w _ _ _ _ _ _ lk f(3)] m1 b by (simp add: tree_create_def empty_node_def h)
qed

lemma sys_open_lowest_witness:
  "\<exists>s :: fd. \<exists>f s'. vfs_lookup (str_at (lit ''/log'')) s = Some f \<and> f \<noteq> 0 \<and> sys_open (str_at (lit ''/log'')) s = Some (0, s')
     \<and> fd_table s' ! 0 = \<lparr>fd_used = True, fd_node = f, fd_offset = 0\<rparr>"
proof -
  obtain f and s :: fd where f: "fd_table s = replicate 32 \<lparr>fd_used = False, fd_node = 0, fd_offset = 0\<rparr>"
    "vfs_lookup (str_at (lit ''/log'')) s = Some f" "f \<noteq> 0"
    by (rule log_file) (rule that; assumption)
  have l: "(LEAST i. i < 32 \<and> \<not> fd_used (replicate 32 \<lparr>fd_used = False, fd_node = 0, fd_offset = 0\<rparr> ! i)) = 0"
    by (rule Least_equality) simp_all
  define s' where "s' = s\<lparr>fd_table := (fd_table s)[0 := \<lparr>fd_used = True, fd_node = f, fd_offset = 0\<rparr>]\<rparr>"
  have "\<not> (\<forall>i < 32. fd_used (replicate 32 \<lparr>fd_used = False, fd_node = 0, fd_offset = 0\<rparr> ! i))"
    by (auto intro!: exI [of _ 0])
  then have "sys_open (str_at (lit ''/log'')) s = Some (0, s')"
    using sys_open_lowest [OF _ f(2)] f(1,3) l by (simp add: Let_def s'_def)
  moreover have "fd_table s' ! 0 = \<lparr>fd_used = True, fd_node = f, fd_offset = 0\<rparr>" using f(1) by (simp add: s'_def)
  ultimately show ?thesis using f(2,3) by blast
qed

lemma fd_calls_guarded_witness:
  "\<forall>s :: fd. sys_write (- 1) (str_at []) 0 s = Some (- 1, s) \<and> sys_read (- 1) [] 0 s = Some (- 1, [], s) \<and> sys_seek 32 0 s = (- 1, s)"
proof
  fix s :: fd
  show "sys_write (- 1) (str_at []) 0 s = Some (- 1, s) \<and> sys_read (- 1) [] 0 s = Some (- 1, [], s) \<and> sys_seek 32 0 s = (- 1, s)"
    using fd_calls_guarded [of "- 1" s "str_at []" 0 "[]"] fd_calls_guarded [of 32 s "str_at []" 0 "[]" 0] by simp
qed

theorem file_session_witness:
  "\<exists>s :: fd. \<exists>fd s1 s2 s3 s4. sys_open (str_at (lit ''/log'')) s = Some (fd, s1) \<and> sys_write fd (str_at (lit ''ok'')) 2 s1 = Some (2, s2)
     \<and> sys_seek fd 0 s2 = (0, s3) \<and> sys_read fd [0, 0, 0] 2 s3 = Some (2, [0x6F, 0x6B, 0], s4)"
proof -
  obtain f nd a T and s :: fd where f: "vfs_rep a s T" "walk T (mnt_of s) (vfs_root s) (pieces 0x2F (lit ''/log'')) = f"
    "T f = Some nd" "n_flags nd AND VFS_DIR = 0" "op_write s" "op_read s"
    "fd_table s = replicate 32 \<lparr>fd_used = False, fd_node = 0, fd_offset = 0\<rparr>" "heap_room 100 s"
    by (rule log_file) (rule that; assumption)
  have tab: "length (fd_table s) = MAX_FDS" "free_fds (fd_table s) \<noteq> {}"
    using f(7) by (auto simp: free_fds_def intro!: exI [of _ 0])
  have n: "0 < length (lit ''ok'')" "heap_room (length (lit ''ok'')) s" using f(8) by (simp_all add: heap_room_def)
  have buf: "\<forall>j < length (lit ''ok''). str_at (lit ''ok'') j = Some (lit ''ok'' ! j)"
    by (auto simp: str_at_def buf_at_def nth_append)
  have d: "length (lit ''ok'') \<le> length [0, 0, 0 :: u8]" by simp
  have sm: "\<forall>w \<in> set (pieces 0x2F (lit ''/log'')). length w < 64" by (simp add: pieces_log(2))
  show ?thesis
    using file_session [OF f(1) pieces_log(1) sm f(2-6) tab n buf d]
    by (simp add: lit_simps) blast
qed

end
