(* ===== verification/Parse.thy ===== *)
theory Parse
  imports CString
begin

text \<open>
  \<open>parse_arguments\<close> of \<open>shell/shell.c\<close>: the command line is cut into words in place. An argument is the
  position of its first byte in the buffer; the space after it becomes its NUL. \<open>None\<close> is a read
  past the end of the buffer.
\<close>

section \<open>Model\<close>

abbreviation MAX_ARGS :: nat where "MAX_ARGS \<equiv> 8"

partial_function (option) skip_spaces :: "u8 list \<Rightarrow> nat \<Rightarrow> nat option" where
  "skip_spaces buf input = do {
     c \<leftarrow> buf_at buf input 0;
     if c = 0x20 then skip_spaces buf (input + 1) else Some input }"

partial_function (option) skip_word :: "u8 list \<Rightarrow> nat \<Rightarrow> nat option" where
  "skip_word buf input = do {
     c \<leftarrow> buf_at buf input 0;
     if c \<noteq> 0 \<and> c \<noteq> 0x20 then skip_word buf (input + 1) else Some input }"

partial_function (option) parse_from :: "nat \<Rightarrow> nat list \<Rightarrow> u8 list \<Rightarrow> (nat list \<times> u8 list) option" where
  "parse_from input argv buf = do {
     c \<leftarrow> buf_at buf input 0;
     if c \<noteq> 0 \<and> length argv < MAX_ARGS
     then do {
       input \<leftarrow> skip_spaces buf input;
       c \<leftarrow> buf_at buf input 0;
       if c = 0 then Some (argv, buf)
       else do {
         argv \<leftarrow> Some (argv @ [input]);
         input \<leftarrow> skip_word buf input;
         c \<leftarrow> buf_at buf input 0;
         if c \<noteq> 0
         then do { buf \<leftarrow> buf_put input 0 buf; parse_from (input + 1) argv buf }
         else parse_from input argv buf } }
     else Some (argv, buf) }"

definition parse_arguments :: "u8 list \<Rightarrow> (nat list \<times> u8 list) option" where
  "parse_arguments buf = parse_from 0 [] buf"

section \<open>Scanning\<close>

lemma holds_at_Cons: "holds (buf_at buf k) (c # r) \<longleftrightarrow> c \<noteq> 0 \<and> buf_at buf k 0 = Some c \<and> holds (buf_at buf (Suc k)) r"
proof -
  have "adv (buf_at buf k) = buf_at buf (Suc k)" by (rule ext) (auto simp: adv_def buf_at_def)
  then show ?thesis by (simp add: holds_Cons)
qed

lemma holds_at_Nil: "holds (buf_at buf k) [] \<longleftrightarrow> buf_at buf k 0 = Some 0"
  by (simp add: holds_Nil)

lemma skip_spaces_ok:
  assumes "holds (buf_at buf k) r"
  shows "\<exists>j. skip_spaces buf k = Some j \<and> k \<le> j \<and> j + length (dropWhile (\<lambda>c. c = 0x20) r) = k + length r
    \<and> holds (buf_at buf j) (dropWhile (\<lambda>c. c = 0x20) r)"
  using assms
proof (induction r arbitrary: k)
  case Nil
  then show ?case by (subst skip_spaces.simps) (simp add: holds_at_Nil)
next
  case (Cons c r)
  then have c: "buf_at buf k 0 = Some c" "holds (buf_at buf (Suc k)) r" by (simp_all add: holds_at_Cons)
  show ?case
  proof (cases "c = 0x20")
    case True
    then show ?thesis using Cons.IH [OF c(2)] c by (subst skip_spaces.simps) auto
  next
    case False
    then show ?thesis using c Cons.prems by (subst skip_spaces.simps) simp
  qed
qed

lemma skip_word_ok:
  assumes "holds (buf_at buf k) r"
  shows "skip_word buf k = Some (k + length (takeWhile (\<lambda>c. c \<noteq> 0x20) r))
    \<and> holds (buf_at buf (k + length (takeWhile (\<lambda>c. c \<noteq> 0x20) r))) (dropWhile (\<lambda>c. c \<noteq> 0x20) r)"
  using assms
proof (induction r arbitrary: k)
  case Nil
  then show ?case by (subst skip_word.simps) (simp add: holds_at_Nil)
next
  case (Cons c r)
  then have c: "c \<noteq> 0" "buf_at buf k 0 = Some c" "holds (buf_at buf (Suc k)) r" by (simp_all add: holds_at_Cons)
  show ?case
  proof (cases "c = 0x20")
    case True
    then show ?thesis using c Cons.prems by (subst skip_word.simps) simp
  next
    case False
    then show ?thesis using Cons.IH [OF c(3)] c by (subst skip_word.simps) simp
  qed
qed

section \<open>Cutting\<close>

text \<open>A string in the buffer depends only on the bytes up to its NUL.\<close>

lemma holds_agree:
  assumes "holds (buf_at buf p) w" and "p + length w < k" and "take k buf' = take k buf"
  shows "holds (buf_at buf' p) w"
proof -
  have "buf_at buf' p i = buf_at buf p i" if "i \<le> length w" for i
  proof -
    have i: "p + i < k" using that assms(2) by simp
    then have "p + i < length buf \<longleftrightarrow> p + i < length buf'"
      using arg_cong [OF assms(3), of length] by (auto simp: min_def split: if_splits)
    moreover have "p + i < length buf' \<Longrightarrow> buf' ! (p + i) = buf ! (p + i)" using assms(3) i by (metis nth_take)
    ultimately show ?thesis by (simp add: buf_at_def)
  qed
  then show ?thesis using assms(1) by (simp add: holds_def)
qed

lemma cut_word:
  assumes "holds (buf_at buf p) r" and "length (takeWhile (\<lambda>c. c \<noteq> 0x20) r) < length r"
    and "k = p + length (takeWhile (\<lambda>c. c \<noteq> 0x20) r)"
  shows "holds (buf_at (buf[k := 0]) p) (takeWhile (\<lambda>c. c \<noteq> 0x20) r)" "k < length buf"
    "holds (buf_at (buf[k := 0]) (Suc k)) (tl (dropWhile (\<lambda>c. c \<noteq> 0x20) r))"
proof -
  let ?w = "takeWhile (\<lambda>c. c \<noteq> 0x20) r" and ?t = "dropWhile (\<lambda>c. c \<noteq> 0x20) r"
  have r: "r = ?w @ ?t" by simp
  have z: "0 \<notin> set r" and b: "\<And>i. i < length r \<Longrightarrow> buf_at buf p i = Some (r ! i)" "buf_at buf p (length r) = Some 0"
    using assms(1) by (simp_all add: holds_def)
  have "buf_at buf p (length ?w) \<noteq> None" using b(1) [OF assms(2)] by simp
  then show k: "k < length buf" using assms(3) by (simp add: buf_at_def split: if_splits)
  have "0 \<notin> set ?w" using z by (meson set_takeWhileD)
  moreover have "buf_at (buf[k := 0]) p i = Some (?w ! i)" if "i < length ?w" for i
    using b(1) [of i] that assms(2,3) by (simp add: buf_at_def takeWhile_nth split: if_splits)
  ultimately show "holds (buf_at (buf[k := 0]) p) ?w" using k assms(3) by (simp add: holds_def buf_at_def)
  have len: "length ?w + length ?t = length r" by (simp flip: length_append)
  have t: "?t \<noteq> []"
  proof
    assume "?t = []"
    then have "length ?t = 0" by (simp only: list.size)
    then show False using len assms(2) by linarith
  qed
  have "holds (buf_at buf k) ?t" using skip_word_ok [OF assms(1)] assms(3) by simp
  moreover obtain x t' where xt: "?t = x # t'" using t unfolding neq_Nil_conv by blast
  ultimately have "holds (buf_at buf (Suc k)) (tl ?t)" unfolding xt by (simp only: holds_at_Cons list.sel)
  moreover have "buf_at (buf[k := 0]) (Suc k) = buf_at buf (Suc k)" by (rule ext) (simp add: buf_at_def)
  ultimately show "holds (buf_at (buf[k := 0]) (Suc k)) (tl ?t)" by simp
qed

lemma parse_from_ok:
  assumes "holds (buf_at buf k) r" and "length argv \<le> MAX_ARGS"
  shows "\<exists>ps buf'. parse_from k argv buf = Some (argv @ ps, buf') \<and> take k buf' = take k buf \<and> length buf' = length buf
    \<and> list_all2 (\<lambda>p w. holds (buf_at buf' p) w) ps (take (MAX_ARGS - length argv) (pieces 0x20 r))"
  using assms
proof (induction "length r" arbitrary: r k argv buf rule: less_induct)
  case less
  show ?case
  proof (cases "r = [] \<or> length argv = MAX_ARGS")
    case True
    then obtain c where "buf_at buf k 0 = Some c" "c = 0 \<or> length argv = MAX_ARGS"
      using less.prems(1) by (cases r) (auto simp: holds_at_Nil holds_at_Cons)
    then show ?thesis using True by (subst parse_from.simps) auto
  next
    case False
    then obtain c r' where r: "r = c # r'" and room: "length argv < MAX_ARGS" using less.prems(2) by (cases r) auto
    have c: "buf_at buf k 0 = Some c" "c \<noteq> 0" using less.prems(1) r by (simp_all add: holds_at_Cons)
    let ?q = "dropWhile (\<lambda>c. c = 0x20) r"
    obtain j where j: "skip_spaces buf k = Some j" "k \<le> j" "holds (buf_at buf j) ?q"
      using skip_spaces_ok [OF less.prems(1)] by blast
    have pq: "pieces 0x20 r = pieces 0x20 ?q" by (simp only: pieces_skip)
    show ?thesis
    proof (cases ?q)
      case Nil
      then have "buf_at buf j 0 = Some 0" using j(3) by (simp only: holds_at_Nil)
      then have "parse_from k argv buf = Some (argv, buf)" using c room j(1) by (simp add: parse_from.simps [of k])
      moreover have "pieces 0x20 r = []" unfolding pq Nil by simp
      ultimately show ?thesis by simp
    next
      case (Cons d q')
      have d: "buf_at buf j 0 = Some d" "d \<noteq> 0" using j(3) unfolding Cons by (simp_all add: holds_at_Cons)
      have d20: "d \<noteq> 0x20" using hd_dropWhile [of "\<lambda>c. c = 0x20" r] Cons by simp
      let ?w = "takeWhile (\<lambda>c. c \<noteq> 0x20) ?q" and ?t = "dropWhile (\<lambda>c. c \<noteq> 0x20) ?q"
      let ?e = "j + length ?w"
      have w: "?w \<noteq> []" unfolding Cons using d20 by simp
      have pw: "pieces 0x20 r = ?w # pieces 0x20 ?t" unfolding pq by (rule pieces_first [OF w])
      have sk: "skip_word buf j = Some ?e" "holds (buf_at buf ?e) ?t" using skip_word_ok [OF j(3)] by simp_all
      have lq: "length ?q \<le> length r" by (rule length_dropWhile_le)
      have wt: "length ?w + length ?t = length ?q" by (simp flip: length_append)
      have tk: "take (MAX_ARGS - length argv) (pieces 0x20 r) =
          ?w # take (MAX_ARGS - length (argv @ [j])) (pieces 0x20 ?t)"
        unfolding pw using room by (simp add: take_Cons')
      have room': "length (argv @ [j]) \<le> MAX_ARGS" using room by simp
      show ?thesis
      proof (cases ?t)
        case Nil
        then have z: "buf_at buf ?e 0 = Some 0" using sk(2) by (simp only: holds_at_Nil)
        have "?w @ ?t = ?q" by (rule takeWhile_dropWhile_id)
        then have "?w = ?q" unfolding Nil by (rule trans [OF append_Nil2 [symmetric]])
        then have "holds (buf_at buf j) ?w" using j(3) by (simp only:)
        have pe: "parse_from ?e (argv @ [j]) buf = Some (argv @ [j], buf)"
          using z by (simp add: parse_from.simps [of ?e])
        have "parse_from k argv buf = Some (argv @ [j], buf)"
          using c room j(1) d sk(1) z pe by (simp add: parse_from.simps [of k])
        moreover have "take (MAX_ARGS - length argv) (pieces 0x20 r) = [?w]" unfolding tk Nil by simp
        ultimately show ?thesis using \<open>holds (buf_at buf j) ?w\<close> by simp
      next
        case t: (Cons x t')
        have lw: "length ?w < length ?q" using wt unfolding t by simp
        have x: "buf_at buf ?e 0 = Some x" "x \<noteq> 0" using sk(2) unfolding t by (simp_all add: holds_at_Cons)
        note cw = cut_word [OF j(3) lw refl, unfolded t list.sel]
        have x20: "x = 0x20" using hd_dropWhile [of "\<lambda>c. c \<noteq> 0x20" ?q] t by simp
        have pt: "pieces 0x20 ?t = pieces 0x20 t'" unfolding t x20 by (simp add: pieces_def)
        have "length t' < length r" using wt lq unfolding t by simp
        from less.hyps [OF this cw(3) room'] obtain ps buf' where
          p: "parse_from (Suc ?e) (argv @ [j]) (buf[?e := 0]) = Some ((argv @ [j]) @ ps, buf')"
          "take (Suc ?e) buf' = take (Suc ?e) (buf[?e := 0])" "length buf' = length (buf[?e := 0])"
          "list_all2 (\<lambda>p w. holds (buf_at buf' p) w) ps (take (MAX_ARGS - length (argv @ [j])) (pieces 0x20 t'))"
          by blast
        have "holds (buf_at buf' j) ?w" by (rule holds_agree [OF cw(1) _ p(2)]) simp
        moreover have "take k buf' = take k buf"
        proof -
          have "take k buf' = take k (take (Suc ?e) buf')" using j(2) by (simp add: min_def)
          also have "\<dots> = take k buf" unfolding p(2) using j(2) by (simp add: min_def)
          finally show ?thesis .
        qed
        moreover have "parse_from k argv buf = parse_from (Suc ?e) (argv @ [j]) (buf[?e := 0])"
          using c room j(1) d sk(1) x cw(2) by (simp add: parse_from.simps [of k] buf_put_def)
        ultimately show ?thesis using p(1,3,4) tk pt by simp
      qed
    qed
  qed
qed

lemma parse_line:
  assumes "0 \<in> set buf"
  obtains ps buf' where "parse_arguments buf = Some (ps, buf')" "length buf' = length buf"
    "list_all2 (\<lambda>p w. holds (buf_at buf' p) w) ps (take MAX_ARGS (pieces 0x20 (upto_nul buf)))"
proof -
  have "holds (buf_at buf 0) (upto_nul buf)" using holds_buf [of 0 buf] assms by simp
  then show ?thesis using parse_from_ok [of buf 0 "upto_nul buf" "[]"] that by (auto simp: parse_arguments_def)
qed

section \<open>Properties\<close>

text \<open>Parsing a line always returns, and the arguments are exactly the words of the line between
  spaces, each a terminated string inside the buffer, in order; only the first eight count.\<close>

lemma parse_arguments_words:
  assumes "0 \<in> set buf"
  shows "\<exists>argv buf'. parse_arguments buf = Some (argv, buf') \<and> length buf' = length buf
    \<and> length argv = min 8 (length (pieces 0x20 (upto_nul buf)))
    \<and> (\<forall>i < length argv. holds (buf_at buf' (argv ! i)) (pieces 0x20 (upto_nul buf) ! i))"
proof -
  obtain ps buf' where p: "parse_arguments buf = Some (ps, buf')" "length buf' = length buf"
    "list_all2 (\<lambda>p w. holds (buf_at buf' p) w) ps (take MAX_ARGS (pieces 0x20 (upto_nul buf)))"
    by (rule parse_line [OF assms])
  then show ?thesis by (auto simp: list_all2_conv_all_nth)
qed

lemma parse_arguments_words_witness:
  "\<exists>argv buf'. parse_arguments (lit '' rd  /log '' @ [0]) = Some (argv, buf') \<and> length argv = 2
     \<and> holds (buf_at buf' (argv ! 0)) (lit ''rd'') \<and> holds (buf_at buf' (argv ! 1)) (lit ''/log'')"
proof -
  let ?b = "lit '' rd  /log '' @ [0]"
  have z: "0 \<in> set ?b" by simp
  have p: "pieces 0x20 (upto_nul ?b) = [lit ''rd'', lit ''/log'']" by (simp add: lit_simps pieces_def)
  obtain argv buf' where a: "parse_arguments ?b = Some (argv, buf')" "length argv = min 8 (length [lit ''rd'', lit ''/log''])"
    "\<forall>i < length argv. holds (buf_at buf' (argv ! i)) ([lit ''rd'', lit ''/log''] ! i)"
    using parse_arguments_words [OF z] unfolding p by blast
  have "length argv = 2" using a(2) by simp
  then show ?thesis using a(1,3) by (metis nth_Cons_0 nth_Cons_Suc One_nat_def less_2_cases_iff)
qed

end
