(* ===== verification/Pmm.thy ===== *)
theory Pmm
  imports Memory
begin

text \<open>
  \<open>mm/pmm.c\<close>: the physical frames, one bit each in an array of 32-bit words (set: in use). The
  bitmap is placed right behind the kernel image; \<open>kernel_start\<close> and \<open>kernel_end\<close> are symbols of
  the linker script and therefore arguments. The memory map of the boot loader is read from
  \<open>ram\<close> without a check: paging is still off. The bitmap is its own field: no theorem speaks about
  a boot loader that leaves its memory map where the bitmap goes.
\<close>

section \<open>Operations\<close>

abbreviation FRAME_SIZE :: u32 where "FRAME_SIZE \<equiv> 4096"

definition set_frame :: "u32 \<Rightarrow> 'a pmm_scheme \<Rightarrow> 'a pmm_scheme" where
  "set_frame frame s = s\<lparr>bitmap := (bitmap s)(frame div 32 :=
     bitmap s (frame div 32) OR push_bit (unat (frame mod 32)) 1)\<rparr>"

definition clear_frame :: "u32 \<Rightarrow> 'a pmm_scheme \<Rightarrow> 'a pmm_scheme" where
  "clear_frame frame s = s\<lparr>bitmap := (bitmap s)(frame div 32 :=
     bitmap s (frame div 32) AND NOT (push_bit (unat (frame mod 32)) 1))\<rparr>"

text \<open>The inner loop over the bits of word \<open>i\<close>, then the outer loop over the words. The result
  is an \<open>int\<close>: \<open>-1\<close> when every scanned frame is in use.\<close>

definition free_bit :: "u32 \<Rightarrow> nat option" where
  "free_bit w = List.find (\<lambda>j. w AND push_bit j 1 = 0) [0..<32]"

fun scan_words :: "(u32 \<Rightarrow> u32) \<Rightarrow> nat list \<Rightarrow> u32" where
  "scan_words b [] = - 1"
| "scan_words b (i # is) =
     (if b (of_nat i) \<noteq> 0xFFFFFFFF
      then case free_bit (b (of_nat i)) of
             Some j \<Rightarrow> of_nat i * 32 + of_nat j
           | None \<Rightarrow> scan_words b is
      else scan_words b is)"

definition first_free_frame :: "'a pmm_scheme \<Rightarrow> u32" where
  "first_free_frame s = scan_words (bitmap s) [0..<unat (total_frames s div 32)]"

definition pmm_alloc_frame :: "'a pmm_scheme \<Rightarrow> u32 \<times> 'a pmm_scheme" where
  "pmm_alloc_frame s =
     (let frame = first_free_frame s
      in if frame = - 1 then (0, s) else (frame * FRAME_SIZE, set_frame frame s))"

definition pmm_free_frame :: "u32 \<Rightarrow> 'a pmm_scheme \<Rightarrow> 'a pmm_scheme" where
  "pmm_free_frame frame s = clear_frame (frame div FRAME_SIZE) s"

definition pmm_get_total_frames :: "'a pmm_scheme \<Rightarrow> u32" where
  "pmm_get_total_frames s = total_frames s"

definition pmm_get_free_frames :: "'a pmm_scheme \<Rightarrow> u32" where
  "pmm_get_free_frames s =
     for_upto (unat (total_frames s))
       (\<lambda>i free. if bitmap s (of_nat i div 32) AND push_bit (i mod 32) 1 = 0 then free + 1 else free) 0"

section \<open>The memory map of the boot loader\<close>

definition get64 :: "mem \<Rightarrow> u32 \<Rightarrow> u64" where
  "get64 m a = ucast (get32 m a) OR push_bit 32 (ucast (get32 m (a + 4)))"

record mmap_entry =
  mm_size :: u32
  mm_addr :: u64
  mm_len :: u64
  mm_type :: u32

text \<open>The packed entry at an address.\<close>

definition mmap_entry_at :: "mem \<Rightarrow> u32 \<Rightarrow> mmap_entry" where
  "mmap_entry_at m a = \<lparr>mm_size = get32 m a, mm_addr = get64 m (a + 4), mm_len = get64 m (a + 12),
     mm_type = get32 m (a + 20)\<rparr>"

text \<open>The walk \<open>while (mmap < stop)\<close>, with the body as an argument. A map whose sizes wrap around
  makes it go on forever.\<close>

partial_function (option) mmap_walk ::
    "mem \<Rightarrow> u32 \<Rightarrow> (mmap_entry \<Rightarrow> 's \<Rightarrow> 's) \<Rightarrow> u32 \<Rightarrow> 's \<Rightarrow> 's option" where
  "mmap_walk m stop body a st =
     (if a < stop
      then mmap_walk m stop body (a + mm_size (mmap_entry_at m a) + 4) (body (mmap_entry_at m a) st)
      else Some st)"

definition highest_step :: "mmap_entry \<Rightarrow> u32 \<Rightarrow> u32" where
  "highest_step r highest =
     (let region_end = ucast (mm_addr r + mm_len r) in if highest < region_end then region_end else highest)"

text \<open>A loop \<open>for (f = a; f < b; f++)\<close> over frame numbers.\<close>

definition for_frames :: "u32 \<Rightarrow> u32 \<Rightarrow> (u32 \<Rightarrow> 's \<Rightarrow> 's) \<Rightarrow> 's \<Rightarrow> 's" where
  "for_frames a b body s = for_upto (unat b - unat a) (\<lambda>i. body (a + of_nat i)) s"

definition free_region :: "mmap_entry \<Rightarrow> 'a pmm_scheme \<Rightarrow> 'a pmm_scheme" where
  "free_region r s =
     (if mm_type r = 1
      then let start_frame = ucast (mm_addr r div 4096);
               end_frame = ucast ((mm_addr r + mm_len r) div 4096)
           in for_frames start_frame end_frame
                (\<lambda>f s. if f < total_frames s then clear_frame f s else s) s
      else s)"

definition MISSING_MEMORY_MAP :: u32 where "MISSING_MEMORY_MAP = 1"

definition pmm_init :: "u32 \<Rightarrow> u32 \<Rightarrow> u32 \<Rightarrow> 'a heap_scheme \<Rightarrow> (u32 \<times> 'a heap_scheme) option" where
  "pmm_init kernel_start kernel_end multiboot_addr s =
     (let m = ram s in
      if get32 m multiboot_addr AND push_bit 6 1 = 0 then Some (MISSING_MEMORY_MAP, s)
      else let mmap_length = get32 m (multiboot_addr + 44);
               mmap_addr = get32 m (multiboot_addr + 48);
               stop = mmap_addr + mmap_length
      in do {
        highest_addr \<leftarrow> mmap_walk m stop highest_step mmap_addr 0;
        let s = s\<lparr>total_frames := highest_addr div FRAME_SIZE\<rparr>;
        let bitmap_entries = (total_frames s + 31) div 32;
        let bitmap_size = bitmap_entries * 4;
        let bitmap_end = (kernel_end + bitmap_size + FRAME_SIZE - 1) AND NOT (FRAME_SIZE - 1);
        let s = for_upto (unat (total_frames s div 32))
                  (\<lambda>i s. s\<lparr>bitmap := (bitmap s)(of_nat i := 0xFFFFFFFF)\<rparr>) s;
        s \<leftarrow> mmap_walk m stop free_region mmap_addr s;
        let s = for_frames (kernel_start div FRAME_SIZE) ((kernel_end + FRAME_SIZE - 1) div FRAME_SIZE)
                  set_frame s;
        let s = for_frames (kernel_end div FRAME_SIZE) (bitmap_end div FRAME_SIZE) set_frame s;
        Some (0, s) })"

section \<open>Frames as bits\<close>

definition frame_used :: "'a pmm_scheme \<Rightarrow> u32 \<Rightarrow> bool" where
  "frame_used s f = bit (bitmap s (f div 32)) (unat f mod 32)"

lemma and_push_bit_1: "(w AND push_bit j 1 = 0) = (\<not> bit w j)" for w :: u32
  by (simp add: and_exp_eq_0_iff_not_bit)

lemma unat_mod_32: "unat (f mod 32) = unat f mod 32" for f :: u32
  by (simp add: unat_mod)

lemma same_bit: "f div 32 = g div 32 \<Longrightarrow> unat f mod 32 = unat g mod 32 \<Longrightarrow> f = g" for f g :: u32
proof -
  assume "f div 32 = g div 32" and m: "unat f mod 32 = unat g mod 32"
  then have "unat (f div 32) = unat (g div 32)" by simp
  then have "unat f div 32 = unat g div 32" by (simp add: unat_div)
  with m have "unat f = unat g" by (metis div_mult_mod_eq)
  then show "f = g" by (simp add: word_unat_eq_iff)
qed

lemma frame_used_set: "frame_used (set_frame f s) g \<longleftrightarrow> g = f \<or> frame_used s g"
  using same_bit [of g f]
  by (auto simp: frame_used_def set_frame_def bit_simps unat_mod_32 dest: bit_imp_le_length)

lemma frame_used_clear: "frame_used (clear_frame f s) g \<longleftrightarrow> g \<noteq> f \<and> frame_used s g"
  using same_bit [of g f]
  by (auto simp: frame_used_def clear_frame_def bit_simps unat_mod_32 dest: bit_imp_le_length)

lemma total_frames_set [simp]: "total_frames (set_frame f s) = total_frames s"
  "total_frames (clear_frame f s) = total_frames s"
  by (simp_all add: set_frame_def clear_frame_def)

lemma free_bit_Some:
  "free_bit w = Some j \<longleftrightarrow> j < 32 \<and> \<not> bit w j \<and> (\<forall>i < j. bit w i)"
  unfolding free_bit_def and_push_bit_1 find_Some_iff
  by (auto simp: intro!: exI [of _ j])

lemma unat_minus_1: "unat (- 1 :: u32) = 0xFFFFFFFF"
  by (simp add: unsigned_minus_1_eq_mask mask_eq_exp_minus_1)

lemma free_bit_None: "free_bit w = None \<longleftrightarrow> w = 0xFFFFFFFF"
proof -
  have "free_bit w = None \<longleftrightarrow> (\<forall>j < 32. bit w j)"
    by (auto simp: free_bit_def and_exp_eq_0_iff_not_bit find_None_iff)
  also have "\<dots> \<longleftrightarrow> w = - 1"
    by (auto simp: bit_eq_iff bit_simps dest: bit_imp_le_length)
  also have "- 1 = (0xFFFFFFFF :: u32)" by (simp add: word_unat_eq_iff unat_minus_1)
  finally show ?thesis .
qed

section \<open>Allocating\<close>

text \<open>The frames the scan looks at: those of the complete words of the bitmap.\<close>

definition scanned :: "'a pmm_scheme \<Rightarrow> nat" where
  "scanned s = 32 * (unat (total_frames s) div 32)"

lemma scanned_bound: "scanned s < 2 ^ 32" "scanned s \<le> unat (total_frames s)"
proof -
  show "scanned s \<le> unat (total_frames s)" by (simp add: scanned_def)
  moreover have "unat (total_frames s) < 2 ^ LENGTH(32)" by (rule unsigned_less)
  ultimately show "scanned s < 2 ^ 32" by simp
qed

lemma frame_used_of_nat:
  assumes "n < 2 ^ 32"
  shows "frame_used s (of_nat n) = bit (bitmap s (of_nat (n div 32))) (n mod 32)"
proof -
  have "unat (of_nat n div 32 :: u32) = n div 32" using assms by (simp add: unat_div)
  moreover have "unat (of_nat (n div 32) :: u32) = n div 32" using assms by simp
  ultimately have "of_nat n div 32 = (of_nat (n div 32) :: u32)" by (metis word_unat_eq_iff)
  then show ?thesis using assms by (simp add: frame_used_def)
qed

definition free_from :: "(u32 \<Rightarrow> u32) \<Rightarrow> nat \<Rightarrow> nat \<Rightarrow> nat \<Rightarrow> bool" where
  "free_from b n k f \<longleftrightarrow> 32 * k \<le> f \<and> f < 32 * n \<and> \<not> bit (b (of_nat (f div 32))) (f mod 32)"

lemma scan_words_find:
  assumes "k \<le> n"
  shows "scan_words b [k..<n] =
    (if Ex (free_from b n k) then of_nat (Least (free_from b n k)) else - 1)"
  using assms
proof (induction "n - k" arbitrary: k)
  case 0
  then show ?case by (auto simp: free_from_def)
next
  case (Suc d)
  then have k: "k < n" by simp
  have up: "[k..<n] = k # [Suc k..<n]" using k by (simp add: upt_conv_Cons)
  have ih: "scan_words b [Suc k..<n] =
      (if Ex (free_from b n (Suc k)) then of_nat (Least (free_from b n (Suc k))) else - 1)"
    using Suc k by (intro Suc.hyps(1)) auto
  show ?case
  proof (cases "free_bit (b (of_nat k))")
    case None
    then have full: "b (of_nat k) = 0xFFFFFFFF" by (simp add: free_bit_None)
    then have all: "bit (b (of_nat k)) j" if "j < 32" for j
      using None that by (auto simp: free_bit_def find_None_iff and_exp_eq_0_iff_not_bit)
    have "free_from b n k = free_from b n (Suc k)"
    proof (intro ext iffI)
      fix f assume f: "free_from b n k f"
      then have "f div 32 \<noteq> k" using all [of "f mod 32"] by (auto simp: free_from_def)
      moreover have "k \<le> f div 32"
        using f by (simp add: free_from_def less_eq_div_iff_mult_less_eq mult.commute)
      ultimately have "Suc k \<le> f div 32" by simp
      then have "32 * Suc k \<le> f" by (simp add: less_eq_div_iff_mult_less_eq mult.commute)
      then show "free_from b n (Suc k) f" using f by (simp add: free_from_def)
    qed (auto simp: free_from_def)
    moreover have "scan_words b [k..<n] = scan_words b [Suc k..<n]" by (simp add: up full)
    ultimately show ?thesis using ih by (simp only:)
  next
    case (Some j)
    then have j: "j < 32" "\<not> bit (b (of_nat k)) j" "\<forall>i < j. bit (b (of_nat k)) i"
      by (auto simp: free_bit_Some)
    have "b (of_nat k) \<noteq> 0xFFFFFFFF" using Some free_bit_None [of "b (of_nat k)"] by auto
    then have s: "scan_words b [k..<n] = of_nat k * 32 + of_nat j" using Some by (simp add: up)
    have P: "free_from b n k (32 * k + j)" using j(1,2) k by (simp add: free_from_def)
    have "Least (free_from b n k) = 32 * k + j"
    proof (rule Least_equality [where P = "free_from b n k" and x = "32 * k + j", OF P])
      fix f assume f: "free_from b n k f"
      show "32 * k + j \<le> f"
      proof (rule ccontr)
        assume "\<not> 32 * k + j \<le> f"
        then have k: "f div 32 = k" using f j(1) by (auto simp: free_from_def)
        then have "f = 32 * k + f mod 32" by (metis mult_div_mod_eq)
        then have "f mod 32 < j" using \<open>\<not> 32 * k + j \<le> f\<close> by linarith
        then show False using f j(3) k by (auto simp: free_from_def)
      qed
    qed
    moreover have "Ex (free_from b n k)" using P by blast
    ultimately show ?thesis by (simp only: s if_True) (simp add: mult.commute)
  qed
qed

text \<open>The result of the scan: the lowest free frame among those scanned.\<close>

lemma free_from_used:
  "free_from (bitmap s) (unat (total_frames s) div 32) 0 f \<longleftrightarrow> f < scanned s \<and> \<not> frame_used s (of_nat f)"
  using scanned_bound(1) [of s] frame_used_of_nat [of f s] by (auto simp: free_from_def scanned_def)

lemma first_free_frame_eq:
  "first_free_frame s =
    (if \<exists>f < scanned s. \<not> frame_used s (of_nat f)
     then of_nat (LEAST f. f < scanned s \<and> \<not> frame_used s (of_nat f)) else - 1)"
proof -
  have "free_from (bitmap s) (unat (total_frames s) div 32) 0
      = (\<lambda>f. f < scanned s \<and> \<not> frame_used s (of_nat f))"
    by (rule ext) (rule free_from_used)
  moreover have "unat (total_frames s div 32) = unat (total_frames s) div 32" by (simp add: unat_div)
  ultimately show ?thesis
    unfolding first_free_frame_def using scan_words_find [of 0 "unat (total_frames s) div 32" "bitmap s"]
    by (simp only: le0 simp_thms)
qed

lemma first_free_frame_found:
  assumes "first_free_frame s = f" and "f \<noteq> - 1"
  shows "unat f < scanned s" "\<not> frame_used s f" "\<And>g. unat g < unat f \<Longrightarrow> frame_used s g"
proof -
  let ?P = "\<lambda>f. f < scanned s \<and> \<not> frame_used s (of_nat f)"
  define l where "l = (LEAST f. ?P f)"
  have ex: "\<exists>f. ?P f" and fl: "f = of_nat l"
    using assms by (auto simp: first_free_frame_eq l_def split: if_splits)
  have P: "?P l" unfolding l_def using ex by (rule LeastI_ex)
  have uf: "unat f = l" unfolding fl using P scanned_bound(1) [of s] by (intro unat_of_nat_small) simp
  show "unat f < scanned s" "\<not> frame_used s f" using P uf fl by auto
  show "frame_used s g" if "unat g < unat f" for g
  proof -
    have "\<not> ?P (unat g)" using not_less_Least [of "unat g" ?P] that uf by (simp add: l_def)
    then show ?thesis using that P uf by simp
  qed
qed

lemma first_free_frame_none:
  assumes "first_free_frame s = - 1" and "unat f < scanned s"
  shows "frame_used s f"
proof (rule ccontr)
  let ?P = "\<lambda>f. f < scanned s \<and> \<not> frame_used s (of_nat f)"
  define l where "l = (LEAST f. ?P f)"
  assume "\<not> frame_used s f"
  then have P: "?P (unat f)" using assms(2) by simp
  then have L: "?P l" unfolding l_def by (rule LeastI)
  have "of_nat l = (- 1 :: u32)" using P assms(1) by (auto simp: first_free_frame_eq l_def split: if_splits)
  moreover have "unat (of_nat l :: u32) = l" using L scanned_bound(1) [of s] by (intro unat_of_nat_small) simp
  ultimately have "l = 0xFFFFFFFF" by (simp add: unat_minus_1)
  then have "0xFFFFFFFF < 32 * (unat (total_frames s) div 32)" using L by (simp add: scanned_def)
  moreover have "unat (total_frames s) < 2 ^ LENGTH(32)" by (rule unsigned_less)
  then have "unat (total_frames s) div 32 < 2 ^ 27" by simp
  ultimately show False by simp
qed


section \<open>The interface of the frame allocator\<close>

text \<open>Frame addresses that can still be handed out; address 0 means failure and is not one.\<close>

definition available :: "'a pmm_scheme \<Rightarrow> u32 set" where
  "available s = {of_nat f * FRAME_SIZE | f. 0 < f \<and> f < scanned s \<and> \<not> frame_used s (of_nat f)}"

definition pmm_ok :: "'a pmm_scheme \<Rightarrow> bool" where
  "pmm_ok s \<longleftrightarrow> unat (total_frames s) < 2 ^ 20"

locale frame_source =
  fixes alloc :: "'s \<Rightarrow> u32 \<times> 's" and avail :: "'s \<Rightarrow> u32 set" and ok :: "'s \<Rightarrow> bool"
  assumes alloc_ok: "ok s \<Longrightarrow> alloc s = (p, s') \<Longrightarrow> ok s'"
    and alloc_some: "ok s \<Longrightarrow> alloc s = (p, s') \<Longrightarrow> p \<noteq> 0 \<Longrightarrow> p \<in> avail s \<and> avail s' = avail s - {p}"
    and alloc_none: "ok s \<Longrightarrow> alloc s = (p, s') \<Longrightarrow> p = 0 \<Longrightarrow> avail s' = avail s"

fun alloc_frames :: "('s \<Rightarrow> u32 \<times> 's) \<Rightarrow> nat \<Rightarrow> 's \<Rightarrow> u32 list \<times> 's" where
  "alloc_frames alloc 0 s = ([], s)"
| "alloc_frames alloc (Suc n) s =
     (let (p, s) = alloc s; (ps, s) = alloc_frames alloc n s in (p # ps, s))"

context frame_source
begin

lemma alloc_frames_distinct:
  assumes "ok s" and "alloc_frames alloc n s = (ps, s')"
  shows "ok s' \<and> distinct (filter (\<lambda>p. p \<noteq> 0) ps) \<and> set ps - {0} \<subseteq> avail s
    \<and> avail s' = avail s - set ps \<union> (avail s \<inter> {0})"
  using assms
proof (induction n arbitrary: s ps)
  case (Suc n)
  obtain p s1 where 1: "alloc s = (p, s1)" by fastforce
  obtain qs where 2: "alloc_frames alloc n s1 = (qs, s')" "ps = p # qs"
    using Suc.prems(2) 1 by (auto split: prod.splits)
  have ih: "ok s' \<and> distinct (filter (\<lambda>p. p \<noteq> 0) qs) \<and> set qs - {0} \<subseteq> avail s1
    \<and> avail s' = avail s1 - set qs \<union> (avail s1 \<inter> {0})"
    using Suc.IH [OF alloc_ok [OF Suc.prems(1) 1] 2(1)] .
  show ?case
  proof (cases "p = 0")
    case True
    then show ?thesis using ih alloc_none [OF Suc.prems(1) 1] 2(2) by auto
  next
    case False
    then show ?thesis using ih alloc_some [OF Suc.prems(1) 1 False] 2(2) by auto
  qed
qed auto

end

lemma pmm_alloc_cases:
  assumes "pmm_alloc_frame s = (p, s')"
  obtains "p = 0" "s' = s" "\<forall>f. unat f < scanned s \<longrightarrow> frame_used s f"
  | f where "p = f * FRAME_SIZE" "s' = set_frame f s" "unat f < scanned s" "\<not> frame_used s f"
    "\<forall>g. unat g < unat f \<longrightarrow> frame_used s g"
proof (cases "first_free_frame s = - 1")
  case True
  then show ?thesis using that(1) assms first_free_frame_none by (auto simp: pmm_alloc_frame_def Let_def)
next
  case False
  then show ?thesis
    using that(2) [of "first_free_frame s"] assms first_free_frame_found [OF refl False]
    by (auto simp: pmm_alloc_frame_def Let_def)
qed

lemma scanned_set [simp]: "scanned (set_frame f s) = scanned s"
  by (simp add: scanned_def)

lemma unat_frame_addr:
  assumes "pmm_ok s" and "f < scanned s"
  shows "unat (of_nat f * FRAME_SIZE :: u32) = f * 4096"
proof -
  have "f * 4096 < 2 ^ 32" using assms scanned_bound(2) [of s] by (simp add: pmm_ok_def)
  then show ?thesis by (simp add: unat_word_ariths)
qed

lemma available_set_frame:
  assumes ok: "pmm_ok s" and f: "unat f < scanned s"
  shows "available (set_frame f s) = available s - {f * FRAME_SIZE}"
proof -
  have eq: "of_nat g * FRAME_SIZE = f * FRAME_SIZE \<longleftrightarrow> g = unat f" if "g < scanned s" for g
  proof
    assume "of_nat g * FRAME_SIZE = f * FRAME_SIZE"
    then have "unat (of_nat g * FRAME_SIZE :: u32) = unat (of_nat (unat f) * FRAME_SIZE :: u32)" by simp
    then show "g = unat f" using unat_frame_addr [OF ok that] unat_frame_addr [OF ok f] by simp
  qed simp
  have fu: "frame_used (set_frame f s) (of_nat g) \<longleftrightarrow> g = unat f \<or> frame_used s (of_nat g)" if "g < scanned s" for g
  proof -
    have "unat (of_nat g :: u32) = g" using that scanned_bound(1) [of s] by (intro unat_of_nat_small) simp
    then have "of_nat g = f \<longleftrightarrow> g = unat f" by (auto simp: word_unat_eq_iff)
    then show ?thesis by (simp add: frame_used_set)
  qed
  show ?thesis
    by (auto simp: available_def fu eq)
qed

lemma pmm_alloc_available:
  assumes ok: "pmm_ok s" and a: "pmm_alloc_frame s = (p, s')"
  shows "pmm_ok s'" "p \<noteq> 0 \<Longrightarrow> p \<in> available s \<and> available s' = available s - {p}"
    "p = 0 \<Longrightarrow> available s' = available s"
proof -
  from a have "pmm_ok s' \<and> (p \<noteq> 0 \<longrightarrow> p \<in> available s \<and> available s' = available s - {p})
      \<and> (p = 0 \<longrightarrow> available s' = available s)"
  proof (cases rule: pmm_alloc_cases)
    case 1
    then show ?thesis using ok by simp
  next
    case (2 f)
    have "p = of_nat (unat f) * FRAME_SIZE" using 2(1) by simp
    moreover have "p \<noteq> 0 \<Longrightarrow> 0 < unat f" using 2(1) by (cases "f = 0") (auto simp: unat_gt_0)
    ultimately have "p \<noteq> 0 \<Longrightarrow> p \<in> available s" using 2(3,4) by (force simp: available_def)
    moreover have "0 \<notin> available s"
    proof
      assume "0 \<in> available s"
      then obtain g where g: "(0 :: u32) = of_nat g * FRAME_SIZE" "0 < g" "g < scanned s"
        by (auto simp: available_def)
      from arg_cong [OF g(1), of unat] show False
        using unat_frame_addr [OF ok g(3)] g(2) by simp
    qed
    moreover have "pmm_ok s'" using ok 2(2) by (simp add: pmm_ok_def)
    ultimately show ?thesis using available_set_frame [OF ok 2(3)] 2(1,2) by auto
  qed
  then show "pmm_ok s'" "p \<noteq> 0 \<Longrightarrow> p \<in> available s \<and> available s' = available s - {p}"
    "p = 0 \<Longrightarrow> available s' = available s" by auto
qed

interpretation frames: frame_source pmm_alloc_frame available pmm_ok
  by unfold_locales (use pmm_alloc_available in blast)+


section \<open>Initialisation\<close>

fun mmap_is :: "mem \<Rightarrow> u32 \<Rightarrow> u32 \<Rightarrow> mmap_entry list \<Rightarrow> bool" where
  "mmap_is m stop a [] \<longleftrightarrow> \<not> a < stop"
| "mmap_is m stop a (r # rs) \<longleftrightarrow>
     a < stop \<and> mmap_entry_at m a = r \<and> mmap_is m stop (a + mm_size r + 4) rs"

lemma mmap_walk_fold: "mmap_is m stop a rs \<Longrightarrow> mmap_walk m stop body a st = Some (fold body rs st)"
  by (induction rs arbitrary: a st) (subst mmap_walk.simps, auto)+

text \<open>Entries of the usual size, without wrap-around, always form such a list.\<close>

lemma mmap_regular:
  assumes "\<forall>i < n. mm_size (mmap_entry_at m (a + of_nat (24 * i))) = 20"
    and "unat a + 24 * n < 2 ^ 32" and "stop = a + of_nat (24 * n)"
  shows "\<exists>rs. length rs = n \<and> mmap_is m stop a rs"
  using assms
proof (induction n arbitrary: a)
  case 0
  then show ?case by (intro exI [of _ "[]"]) simp
next
  case (Suc n)
  have "unat stop = unat a + 24 * Suc n"
    using Suc.prems(2) unfolding Suc.prems(3) by (simp add: unat_word_ariths)
  then have less: "a < stop" by (simp add: word_less_nat_alt)
  have size: "mm_size (mmap_entry_at m a) = 20" using Suc.prems(1) by auto
  have ua: "unat (a + 24) = unat a + 24" using Suc.prems(2) by (simp add: unat_word_ariths)
  have "\<exists>rs. length rs = n \<and> mmap_is m stop (a + 24) rs"
  proof (rule Suc.IH)
    show "\<forall>i < n. mm_size (mmap_entry_at m (a + 24 + of_nat (24 * i))) = 20"
    proof (intro allI impI)
      fix i assume "i < n"
      then show "mm_size (mmap_entry_at m (a + 24 + of_nat (24 * i))) = 20"
        using Suc.prems(1) [rule_format, of "Suc i"] by (simp add: add.assoc)
    qed
    show "unat (a + 24) + 24 * n < 2 ^ 32" using Suc.prems(2) ua by simp
    show "stop = a + 24 + of_nat (24 * n)" using Suc.prems(3) by (simp add: add.assoc)
  qed
  then obtain rs where "length rs = n" "mmap_is m stop (a + 24) rs" by blast
  with less size show ?case by (intro exI [of _ "mmap_entry_at m a # rs"]) (simp add: add.assoc)
qed

lemma for_frames_invariant:
  assumes "P 0 s" and "\<And>i t. i < unat b - unat a \<Longrightarrow> unat (a + of_nat i) = unat a + i
      \<Longrightarrow> P i t \<Longrightarrow> P (Suc i) (body (a + of_nat i) t)"
  shows "P (unat b - unat a) (for_frames a b body s)"
  unfolding for_frames_def
proof (rule for_upto_invariant [where P = P])
  fix i t assume i: "i < unat b - unat a" and P: "P i t"
  have "unat b < 2 ^ LENGTH(32)" by (rule unsigned_less)
  then have "unat (a + of_nat i) = unat a + i" using i by (simp add: unat_word_ariths)
  then show "P (Suc i) (body (a + of_nat i) t)" using assms(2) i P by blast
qed (rule assms(1))

lemma frame_range: "unat a \<le> unat g \<and> unat g < unat a + (unat b - unat a) \<longleftrightarrow> a \<le> g \<and> g < b"
  for a b g :: u32
  by (auto simp: word_le_nat_alt word_less_nat_alt)

definition same_frames :: "'a heap_scheme \<Rightarrow> 'a heap_scheme \<Rightarrow> bool" where
  "same_frames s t \<longleftrightarrow> total_frames t = total_frames s \<and> ram t = ram s"

lemma for_frames_set:
  fixes s :: "'a heap_scheme" and a b :: u32
  defines "t \<equiv> for_frames a b set_frame s"
  shows "same_frames s t" "frame_used t g \<longleftrightarrow> frame_used s g \<or> a \<le> g \<and> g < b"
proof -
  have 1: "same_frames s t \<and> (\<forall>g. frame_used t g \<longleftrightarrow>
      frame_used s g \<or> unat a \<le> unat g \<and> unat g < unat a + (unat b - unat a))"
    unfolding t_def
  proof (rule for_frames_invariant, goal_cases)
    case (2 i t)
    have "g = a + of_nat i \<longleftrightarrow> unat g = unat a + i" for g
      by (simp add: word_unat_eq_iff 2(2))
    with 2(3) show ?case
      by (auto simp: frame_used_set same_frames_def) (simp_all add: set_frame_def)
  qed (auto simp: same_frames_def)
  then show "same_frames s t" "frame_used t g \<longleftrightarrow> frame_used s g \<or> a \<le> g \<and> g < b"
    unfolding frame_range by blast+
qed

lemma free_region_frames:
  fixes s :: "'a heap_scheme"
  shows "same_frames s (free_region r s)"
    "frame_used (free_region r s) g \<longleftrightarrow> frame_used s g
       \<and> \<not> (mm_type r = 1 \<and> g < total_frames s
            \<and> ucast (mm_addr r div 4096) \<le> g \<and> g < ucast ((mm_addr r + mm_len r) div 4096))"
proof -
  let ?body = "\<lambda>f s. if f < total_frames s then clear_frame f s else s"
  have 1: "same_frames s (for_frames a b ?body s) \<and> (\<forall>g. frame_used (for_frames a b ?body s) g \<longleftrightarrow>
      frame_used s g \<and> \<not> (g < total_frames s \<and> unat a \<le> unat g \<and> unat g < unat a + (unat b - unat a)))"
    for a b
  proof (rule for_frames_invariant, goal_cases)
    case (2 i t)
    have "g = a + of_nat i \<longleftrightarrow> unat g = unat a + i" for g
      by (simp add: word_unat_eq_iff 2(2))
    with 2(3) show ?case
      by (auto simp: frame_used_clear same_frames_def word_less_nat_alt 2(2)) (simp_all add: clear_frame_def)
  qed (auto simp: same_frames_def)
  show "same_frames s (free_region r s)"
    using 1 by (simp add: free_region_def Let_def same_frames_def)
  show "frame_used (free_region r s) g \<longleftrightarrow> frame_used s g
       \<and> \<not> (mm_type r = 1 \<and> g < total_frames s
            \<and> ucast (mm_addr r div 4096) \<le> g \<and> g < ucast ((mm_addr r + mm_len r) div 4096))"
    using 1 by (auto simp: free_region_def Let_def word_le_nat_alt word_less_nat_alt)
qed

definition usable :: "mmap_entry list \<Rightarrow> u32 \<Rightarrow> bool" where
  "usable rs g \<longleftrightarrow> (\<exists>r \<in> set rs. mm_type r = 1
     \<and> ucast (mm_addr r div 4096) \<le> g \<and> g < ucast ((mm_addr r + mm_len r) div 4096))"

lemma free_regions_frames:
  fixes s :: "'a heap_scheme"
  shows "same_frames s (fold free_region rs s)
    \<and> (\<forall>g. frame_used (fold free_region rs s) g \<longleftrightarrow>
       frame_used s g \<and> \<not> (g < total_frames s \<and> usable rs g))"
proof (induction rs arbitrary: s)
  case (Cons r rs)
  then show ?case using Cons [of "free_region r s"] free_region_frames [where r = r and s = s]
    by (auto simp: same_frames_def usable_def)
qed (simp add: same_frames_def usable_def)

lemma all_used:
  fixes s :: "'a heap_scheme"
  defines "t \<equiv> for_upto (unat (total_frames s div 32))
                  (\<lambda>i s. s\<lparr>bitmap := (bitmap s)(of_nat i := 0xFFFFFFFF)\<rparr>) s"
  shows "same_frames s t" "unat g < scanned s \<Longrightarrow> frame_used t g"
proof -
  have "same_frames s t \<and> (\<forall>j < unat (total_frames s div 32). bitmap t (of_nat j) = 0xFFFFFFFF)"
    unfolding t_def by (rule for_upto_invariant) (auto simp: same_frames_def less_Suc_eq)
  then have t: "same_frames s t" "\<And>j. j < unat (total_frames s) div 32 \<Longrightarrow> bitmap t (of_nat j) = 0xFFFFFFFF"
    by (auto simp: unat_div)
  show "same_frames s t" by (rule t(1))
  show "frame_used t g" if "unat g < scanned s"
  proof -
    have "unat g div 32 < unat (total_frames s) div 32" using that by (simp add: scanned_def div_less_iff_less_mult mult.commute)
    moreover have "of_nat (unat (g div 32)) = g div 32" by simp
    then have "of_nat (unat g div 32) = g div 32" unfolding unat_div by simp
    ultimately have "bitmap t (g div 32) = 0xFFFFFFFF" using t(2) by metis
    then show ?thesis using free_bit_None [of "bitmap t (g div 32)"]
      by (auto simp: frame_used_def free_bit_def find_None_iff and_exp_eq_0_iff_not_bit)
  qed
qed


section \<open>Counting free frames\<close>

lemma count_loop:
  "for_upto n (\<lambda>i c. if P i then c + 1 else c) (c :: u32) = c + of_nat (card {i. i < n \<and> P i})"
proof (induction n)
  case (Suc n)
  have "{i. i < Suc n \<and> P i} = (if P n then insert n {i. i < n \<and> P i} else {i. i < n \<and> P i})"
    by (auto simp: less_Suc_eq)
  with Suc show ?case by (simp add: for_upto_Suc)
qed simp

lemma for_upto_cong:
  assumes "\<And>i c. i < n \<Longrightarrow> f i c = g i c"
  shows "for_upto n f s = for_upto n g s"
  using assms by (induction n) (simp_all add: for_upto_Suc)

section \<open>Concrete states\<close>

text \<open>64 frames, of which frame 0 and frame 32 are in use.\<close>

definition small_pmm :: heap where
  "small_pmm = power_on\<lparr>total_frames := 64, bitmap := (\<lambda>_. 1)\<rparr>"

lemma small_pmm_alloc: "pmm_alloc_frame small_pmm = (0x1000, set_frame 1 small_pmm)"
proof -
  have "first_free_frame small_pmm = 1"
    by (simp add: first_free_frame_def small_pmm_def upt_rec free_bit_def)
  then show ?thesis by (simp add: pmm_alloc_frame_def)
qed

text \<open>A boot loader record at \<open>0x2000\<close> with one usable region of 1 MB, listed at \<open>0x3000\<close>.\<close>

definition loader_mem :: mem where
  "loader_mem = put32 0x2000 0x40 (put32 0x202C 24 (put32 0x2030 0x3000
     (put32 0x3000 20 (put32 0x300C 0x100000 (put32 0x3014 1 (\<lambda>_. 0))))))"

lemma loader_mem_words:
  "get32 loader_mem 0x2000 = 0x40" "get32 loader_mem 0x202C = 24" "get32 loader_mem 0x2030 = 0x3000"
  "mmap_entry_at loader_mem 0x3000 = \<lparr>mm_size = 20, mm_addr = 0, mm_len = 0x100000, mm_type = 1\<rparr>"
  by (simp_all add: loader_mem_def mmap_entry_at_def get64_def get32_put32_apart apart_def)
    (simp_all add: get32_def)

section \<open>Properties\<close>

text \<open>C13: \<open>pmm_alloc_frame\<close> hands out the lowest free frame of the scanned words of the bitmap, marks
  exactly that frame and nothing else. It answers NULL in two cases: with the state unchanged when every scanned frame is in
  use, and, since that is its address, for frame 0 when this is free (\<open>pmm_frame_zero\<close>).\<close>

theorem pmm_alloc_lowest:
  assumes "pmm_alloc_frame s = (p, s')"
  shows "(p = 0 \<and> s' = s \<and> (\<forall>f. unat f < scanned s \<longrightarrow> frame_used s f))
    \<or> (\<exists>f. p = f * FRAME_SIZE \<and> unat f < scanned s \<and> \<not> frame_used s f
           \<and> (\<forall>g. unat g < unat f \<longrightarrow> frame_used s g)
           \<and> (\<forall>g. frame_used s' g \<longleftrightarrow> g = f \<or> frame_used s g) \<and> total_frames s' = total_frames s)"
  using assms by (cases rule: pmm_alloc_cases) (auto simp: frame_used_set)

theorem pmm_alloc_lowest_witness:
  "\<exists>f. (0x1000 :: u32) = f * FRAME_SIZE \<and> \<not> frame_used small_pmm f
     \<and> (\<forall>g. frame_used (set_frame 1 small_pmm) g \<longleftrightarrow> g = f \<or> frame_used small_pmm g)"
  using pmm_alloc_lowest [OF small_pmm_alloc] by auto

text \<open>Frames handed out by any number of calls in a row are distinct, were free before, and are
  the only ones that are no longer available afterwards.\<close>

lemma pmm_alloc_distinct:
  assumes "pmm_ok s" and "alloc_frames pmm_alloc_frame n s = (ps, s')"
  shows "pmm_ok s' \<and> distinct (filter (\<lambda>p. p \<noteq> 0) ps) \<and> set ps - {0} \<subseteq> available s
    \<and> available s' = available s - set ps \<union> (available s \<inter> {0})"
  using assms by (rule frames.alloc_frames_distinct)

lemma pmm_alloc_distinct_witness:
  "distinct (filter (\<lambda>p. p \<noteq> 0) (fst (alloc_frames pmm_alloc_frame 3 small_pmm)))"
  using pmm_alloc_distinct [of small_pmm 3 "fst (alloc_frames pmm_alloc_frame 3 small_pmm)"
      "snd (alloc_frames pmm_alloc_frame 3 small_pmm)"]
  by (simp add: pmm_ok_def small_pmm_def)

text \<open>C14: freeing a frame that was handed out (not as NULL) makes exactly that frame free again: after an allocation
  and the matching free every frame has the state it had before.\<close>

theorem pmm_alloc_free:
  assumes "pmm_ok s" and "pmm_alloc_frame s = (p, s')" and "p \<noteq> 0"
  shows "frame_used (pmm_free_frame p s') g = frame_used s g"
  using assms(2)
proof (cases rule: pmm_alloc_cases)
  case 1
  with assms(3) show ?thesis by simp
next
  case (2 f)
  have "p = of_nat (unat f) * FRAME_SIZE" using 2(1) by simp
  then have "unat p = unat f * 4096" using unat_frame_addr [OF assms(1) 2(3)] by simp
  then have "unat (p div FRAME_SIZE) = unat f" by (simp add: unat_div)
  then have "p div FRAME_SIZE = f" by (simp add: word_unat_eq_iff)
  then show ?thesis using 2 by (auto simp: pmm_free_frame_def frame_used_clear frame_used_set)
qed

theorem pmm_alloc_free_witness:
  "frame_used (pmm_free_frame 0x1000 (set_frame 1 small_pmm)) 1 = frame_used small_pmm 1"
  by (rule pmm_alloc_free [OF _ small_pmm_alloc]) (simp_all add: pmm_ok_def small_pmm_def)

text \<open>\<open>pmm_get_free_frames\<close> is the number of frames below \<open>total_frames\<close> whose bit is clear.\<close>

lemma pmm_free_frames_count:
  "unat (pmm_get_free_frames s) = card {i. i < unat (total_frames s) \<and> \<not> frame_used s (of_nat i)}"
proof -
  let ?n = "unat (total_frames s)" and ?P = "\<lambda>i. \<not> frame_used s (of_nat i)"
  have n: "?n < 2 ^ LENGTH(32)" by (rule unsigned_less)
  have "pmm_get_free_frames s = for_upto ?n (\<lambda>i c. if ?P i then c + 1 else c) 0"
    unfolding pmm_get_free_frames_def
  proof (rule for_upto_cong)
    fix i and c :: u32 assume "i < ?n"
    then have "unat (of_nat i :: u32) = i" using n by (intro unat_of_nat_small) simp
    then show "(if bitmap s (of_nat i div 32) AND push_bit (i mod 32) 1 = 0 then c + 1 else c)
        = (if ?P i then c + 1 else c)"
      by (simp add: frame_used_def and_exp_eq_0_iff_not_bit)
  qed
  also have "\<dots> = of_nat (card {i. i < ?n \<and> ?P i})" by (simp add: count_loop)
  finally have "pmm_get_free_frames s = of_nat (card {i. i < ?n \<and> ?P i})" .
  moreover have "card {i. i < ?n \<and> ?P i} \<le> card {..<?n}" by (intro card_mono) auto
  ultimately show ?thesis using n by (simp add: unat_of_nat_small)
qed

lemma pmm_init_ok:
  fixes s :: "'a heap_scheme" and mb ks ke :: u32
  assumes "bit (get32 (ram s) mb) 6"
    and "mmap_is (ram s) (get32 (ram s) (mb + 48) + get32 (ram s) (mb + 44)) (get32 (ram s) (mb + 48)) rs"
  shows "\<exists>s'. pmm_init ks ke mb s = Some (0, s')
    \<and> total_frames s' = fold highest_step rs 0 div FRAME_SIZE
    \<and> (\<forall>g. unat g < scanned s' \<longrightarrow>
         (\<not> frame_used s' g \<longleftrightarrow> usable rs g
            \<and> \<not> (ks div FRAME_SIZE \<le> g \<and> g < (ke + FRAME_SIZE - 1) div FRAME_SIZE)
            \<and> \<not> (ke div FRAME_SIZE \<le> g
                 \<and> g < ((ke + (total_frames s' + 31) div 32 * 4 + FRAME_SIZE - 1) AND NOT (FRAME_SIZE - 1))
                        div FRAME_SIZE)))"
proof -
  define s1 where "s1 = s\<lparr>total_frames := fold highest_step rs 0 div FRAME_SIZE\<rparr>"
  define s2 where "s2 = for_upto (unat (total_frames s1 div 32))
                  (\<lambda>i s. s\<lparr>bitmap := (bitmap s)(of_nat i := 0xFFFFFFFF)\<rparr>) s1"
  define s3 where "s3 = fold free_region rs s2"
  define s4 where "s4 = for_frames (ks div FRAME_SIZE) ((ke + FRAME_SIZE - 1) div FRAME_SIZE) set_frame s3"
  define e where "e = (ke + (total_frames s1 + 31) div 32 * 4 + FRAME_SIZE - 1) AND NOT (FRAME_SIZE - 1)"
  define s5 where "s5 = for_frames (ke div FRAME_SIZE) (e div FRAME_SIZE) set_frame s4"
  have flag: "get32 (ram s) mb AND push_bit 6 1 \<noteq> 0"
    using assms(1) by (simp only: and_push_bit_1 not_not)
  have run: "pmm_init ks ke mb s = Some (0, s5)"
    using flag unfolding pmm_init_def Let_def
    by (simp only: if_False mmap_walk_fold [OF assms(2)] Option.bind.simps
        s1_def [symmetric] s2_def [symmetric] s3_def [symmetric] e_def [symmetric] s4_def [symmetric]
        s5_def [symmetric])
  have same: "same_frames s1 s2" "same_frames s2 s3" "same_frames s3 s4" "same_frames s4 s5"
    using all_used(1) free_regions_frames [THEN conjunct1] for_frames_set(1) by (simp_all add: s2_def s3_def s4_def s5_def)
  then have tot: "total_frames s2 = total_frames s1" "total_frames s5 = total_frames s1"
    by (simp_all add: same_frames_def)
  have fr: "\<not> frame_used s5 g \<longleftrightarrow> usable rs g
      \<and> \<not> (ks div FRAME_SIZE \<le> g \<and> g < (ke + FRAME_SIZE - 1) div FRAME_SIZE)
      \<and> \<not> (ke div FRAME_SIZE \<le> g \<and> g < e div FRAME_SIZE)" if g: "unat g < scanned s5" for g
  proof -
    have "unat g < scanned s1" using g tot by (simp add: scanned_def)
    then have "frame_used s2 g" unfolding s2_def by (rule all_used(2))
    moreover have "g < total_frames s2"
      using \<open>unat g < scanned s1\<close> scanned_bound(2) [of s1] tot(1) by (simp add: word_less_nat_alt)
    ultimately have "frame_used s3 g \<longleftrightarrow> \<not> usable rs g"
      using free_regions_frames [THEN conjunct2, rule_format, of rs s2 g] by (simp add: s3_def)
    then show ?thesis
      by (auto simp: s5_def s4_def for_frames_set(2))
  qed
  have t5: "total_frames s5 = fold highest_step rs 0 div FRAME_SIZE" by (simp add: tot s1_def)
  have "(ke + (total_frames s5 + 31) div 32 * 4 + FRAME_SIZE - 1) AND NOT (FRAME_SIZE - 1) = e"
    by (simp only: tot(2) e_def)
  then show ?thesis using run t5 fr by (intro exI [of _ s5] conjI allI impI) (simp_all only:)
qed

text \<open>C6: for a boot loader map \<open>rs\<close>, \<open>pmm_init\<close> returns 0, and among the scanned frames (those of the complete words of
  the bitmap) exactly those are free that lie in a usable region and neither in the kernel image nor in the bitmap behind it.\<close>

theorem pmm_init_frames:
  fixes s :: "'a heap_scheme" and mb ks ke :: u32
  assumes "bit (get32 (ram s) mb) 6"
    and "mmap_is (ram s) (get32 (ram s) (mb + 48) + get32 (ram s) (mb + 44)) (get32 (ram s) (mb + 48)) rs"
  shows "\<exists>s'. pmm_init ks ke mb s = Some (0, s')
    \<and> total_frames s' = fold highest_step rs 0 div FRAME_SIZE
    \<and> (\<forall>g. unat g < scanned s' \<longrightarrow>
         (\<not> frame_used s' g \<longleftrightarrow> usable rs g
            \<and> \<not> (ks div FRAME_SIZE \<le> g \<and> g < (ke + FRAME_SIZE - 1) div FRAME_SIZE)
            \<and> \<not> (ke div FRAME_SIZE \<le> g
                 \<and> g < ((ke + (total_frames s' + 31) div 32 * 4 + FRAME_SIZE - 1) AND NOT (FRAME_SIZE - 1))
                        div FRAME_SIZE)))"
  using assms by (rule pmm_init_ok)

theorem pmm_init_frames_witness:
  "\<exists>s'. pmm_init 0x10000 0x20000 0x2000 (power_on\<lparr>ram := loader_mem\<rparr>) = Some (0, s')
     \<and> total_frames s' = 0x100 \<and> \<not> frame_used s' 0x30 \<and> frame_used s' 0x10 \<and> frame_used s' 0x20"
proof -
  let ?r = "\<lparr>mm_size = 20, mm_addr = 0, mm_len = 0x100000, mm_type = 1\<rparr>"
  have "\<exists>s'. pmm_init 0x10000 0x20000 0x2000 (power_on\<lparr>ram := loader_mem\<rparr>) = Some (0, s')
    \<and> total_frames s' = fold highest_step [?r] 0 div FRAME_SIZE
    \<and> (\<forall>g. unat g < scanned s' \<longrightarrow>
         (\<not> frame_used s' g \<longleftrightarrow> usable [?r] g
            \<and> \<not> (0x10000 div FRAME_SIZE \<le> g \<and> g < (0x20000 + FRAME_SIZE - 1) div FRAME_SIZE)
            \<and> \<not> (0x20000 div FRAME_SIZE \<le> g
                 \<and> g < ((0x20000 + (total_frames s' + 31) div 32 * 4 + FRAME_SIZE - 1) AND NOT (FRAME_SIZE - 1))
                        div FRAME_SIZE)))"
    by (rule pmm_init_frames) (simp_all add: loader_mem_words)
  then obtain s' where s': "pmm_init 0x10000 0x20000 0x2000 (power_on\<lparr>ram := loader_mem\<rparr>) = Some (0, s')"
    "total_frames s' = 0x100"
    "\<And>g. unat g < scanned s' \<Longrightarrow> (\<not> frame_used s' g \<longleftrightarrow> usable [?r] g
            \<and> \<not> (0x10000 div FRAME_SIZE \<le> g \<and> g < (0x20000 + FRAME_SIZE - 1) div FRAME_SIZE)
            \<and> \<not> (0x20000 div FRAME_SIZE \<le> g
                 \<and> g < ((0x20000 + (total_frames s' + 31) div 32 * 4 + FRAME_SIZE - 1) AND NOT (FRAME_SIZE - 1))
                        div FRAME_SIZE))"
    by (auto simp: highest_step_def)
  show ?thesis using s'(1,2) s'(3) [of "0x30"] s'(3) [of "0x10"] s'(3) [of "0x20"]
    by (intro exI [of _ s']) (simp add: scanned_def usable_def)
qed

text \<open>A defect at the edge of memory: when frame 0 is the lowest free frame, as on a machine whose
  usable memory starts at address 0, it is marked as in use but its address is NULL, which every
  caller takes for "out of memory".\<close>

lemma pmm_frame_zero:
  assumes "\<not> frame_used s 0" and "0 < scanned s"
  shows "pmm_alloc_frame s = (0, set_frame 0 s)"
proof -
  obtain p s' where a: "pmm_alloc_frame s = (p, s')" by fastforce
  from a show ?thesis
  proof (cases rule: pmm_alloc_cases)
    case 1
    then show ?thesis using assms by auto
  next
    case (2 f)
    then have "f = 0" using assms(1) by (metis unat_0 unat_gt_0)
    with 2 a show ?thesis by simp
  qed
qed

lemma pmm_frame_zero_witness:
  "pmm_alloc_frame (power_on\<lparr>total_frames := 64\<rparr>) = (0, set_frame 0 (power_on\<lparr>total_frames := 64\<rparr>))"
  by (rule pmm_frame_zero) (simp_all add: frame_used_def scanned_def power_on_def)

end
