(* ===== verification/Paging.thy ===== *)
theory Paging
  imports Pmm
begin

text \<open>
  \<open>mm/paging.c\<close>: one page directory and page tables in physical frames, entry \<open>i\<close> of the table at
  \<open>t\<close> being \<open>table_mem t i\<close>. The kernel reaches a table through its physical address, so once
  paging is on only tables below 4 MB (the identity map, page 0 excluded) can be written: a store to
  any other is \<open>None\<close>. The address of \<open>page_directory\<close> is an argument. \<open>translate\<close> is what the
  processor does with the tables; it is the specification the operations are measured against.
\<close>

section \<open>Operations\<close>

abbreviation PRESENT :: u32 where "PRESENT \<equiv> 1"
abbreviation WRITABLE :: u32 where "WRITABLE \<equiv> 2"

definition table_set :: "u32 \<Rightarrow> u32 \<Rightarrow> u32 \<Rightarrow> 'a paging_scheme \<Rightarrow> 'a paging_scheme" where
  "table_set t i v s = s\<lparr>table_mem := (table_mem s)(t := (table_mem s t)(i := v))\<rparr>"

definition load_page_directory :: "u32 \<Rightarrow> 'a hw_scheme \<Rightarrow> 'a hw_scheme" where
  "load_page_directory pd s = s\<lparr>regs := (regs s)\<lparr>r_cr3 := pd\<rparr>\<rparr>"

definition enable_paging :: "'a hw_scheme \<Rightarrow> 'a hw_scheme" where
  "enable_paging s = s\<lparr>regs := (regs s)\<lparr>r_cr0 := r_cr0 (regs s) OR 0x80000000\<rparr>\<rparr>"

definition paging_init :: "u32 \<Rightarrow> 'a paging_scheme \<Rightarrow> 'a paging_scheme" where
  "paging_init pd s =
     (let s = for_upto 1024 (\<lambda>i s. s\<lparr>page_directory := (page_directory s)(of_nat i := 0),
                                   page_tables := (page_tables s)(of_nat i := 0)\<rparr>) s;
          (first_table, s) = pmm_alloc_frame s;
          s = for_upto 1024 (\<lambda>i. table_set first_table (of_nat i) 0) s;
          s = for_upto 1023 (\<lambda>i. table_set first_table (of_nat (i + 1))
                               ((of_nat (i + 1) * 4096) OR PRESENT OR WRITABLE)) s;
          s = s\<lparr>page_directory := (page_directory s)(0 := first_table OR PRESENT OR WRITABLE),
                page_tables := (page_tables s)(0 := first_table)\<rparr>
      in enable_paging (load_page_directory pd s))"

text \<open>A table the kernel can write to while paging is on.\<close>

definition reachable_table :: "u32 \<Rightarrow> bool" where
  "reachable_table t \<longleftrightarrow> 0x1000 \<le> t \<and> t \<le> 0x3FF000"

definition new_table :: "u32 \<Rightarrow> 'a paging_scheme \<Rightarrow> (u32 \<times> 'a paging_scheme) option" where
  "new_table dir_index s =
     (let (table, s) = pmm_alloc_frame s
      in if reachable_table table
         then let s = for_upto 1024 (\<lambda>i. table_set table (of_nat i) 0) s
              in Some (table, s\<lparr>page_directory := (page_directory s)(dir_index := table OR PRESENT OR WRITABLE),
                               page_tables := (page_tables s)(dir_index := table)\<rparr>)
         else None)"

definition map_page :: "u32 \<Rightarrow> u32 \<Rightarrow> 'a paging_scheme \<Rightarrow> 'a paging_scheme option" where
  "map_page virtual_addr physical_addr s =
     (let dir_index = drop_bit 22 virtual_addr;
          table_index = drop_bit 12 virtual_addr AND 0x03FF;
          table = page_tables s dir_index
      in do {
        (table, s) \<leftarrow> (if table = 0 then new_table dir_index s else Some (table, s));
        if reachable_table table
        then Some (table_set table table_index
                     ((physical_addr AND 0xFFFFF000) OR PRESENT OR WRITABLE) s)
        else None })"

section \<open>Address translation\<close>

definition translate :: "'a paging_scheme \<Rightarrow> u32 \<Rightarrow> u32 option" where
  "translate s v =
     (let pde = page_directory s (drop_bit 22 v)
      in if bit pde 0
         then let pte = table_mem s (pde AND 0xFFFFF000) (drop_bit 12 v AND 0x3FF)
              in if bit pte 0 then Some ((pte AND 0xFFFFF000) OR (v AND 0xFFF)) else None
         else None)"

text \<open>The tables are distinct aligned frames that the frame allocator no longer hands out, and the
  directory agrees with the list of tables.\<close>

definition paging_ok :: "'a paging_scheme \<Rightarrow> bool" where
  "paging_ok s \<longleftrightarrow> pmm_ok s
     \<and> (\<forall>d. if page_tables s d = 0 then \<not> bit (page_directory s d) 0
             else page_directory s d = page_tables s d OR PRESENT OR WRITABLE
                  \<and> page_tables s d AND 0xFFF = 0 \<and> page_tables s d \<notin> available s)
     \<and> (\<forall>d e. page_tables s d = page_tables s e \<longrightarrow> page_tables s d \<noteq> 0 \<longrightarrow> d = e)"

section \<open>Bits of entries\<close>

lemma page_mask: "(0xFFFFF000 :: u32) = NOT (mask 12)" "(0xFFF :: u32) = mask 12"
  "(0x3FF :: u32) = mask 10" "(3 :: u32) = mask 2"
  by (simp_all add: mask_eq_exp_minus_1)

lemma entry_bits:
  fixes p :: u32
  shows "((p AND 0xFFFFF000) OR PRESENT OR WRITABLE) AND 0xFFFFF000 = p AND 0xFFFFF000"
    "bit ((p AND 0xFFFFF000) OR PRESENT OR WRITABLE) 0"
proof -
  have 3: "w OR PRESENT OR WRITABLE = w OR mask 2" for w :: u32
    by (simp add: mask_eq_exp_minus_1 or.assoc)
  show "((p AND 0xFFFFF000) OR PRESENT OR WRITABLE) AND 0xFFFFF000 = p AND 0xFFFFF000"
    unfolding 3 page_mask by (rule bit_word_eqI) (auto simp: bit_simps)
  show "bit ((p AND 0xFFFFF000) OR PRESENT OR WRITABLE) 0" by (simp add: bit_simps)
qed

lemma page_aligned:
  fixes p :: u32
  assumes "p AND 0xFFF = 0"
  shows "p AND 0xFFFFF000 = p"
proof -
  have "p = (p AND mask 12) OR (p AND NOT (mask 12))"
    by (rule bit_word_eqI) (auto simp: bit_simps)
  with assms show ?thesis unfolding page_mask by simp
qed

lemma aligned_entry:
  fixes p :: u32
  assumes "p AND 0xFFF = 0"
  shows "(p OR PRESENT OR WRITABLE) AND 0xFFFFF000 = p" "bit (p OR PRESENT OR WRITABLE) 0"
  using entry_bits [of p] page_aligned [OF assms] by simp_all

lemma frame_aligned: "(f * FRAME_SIZE) AND 0xFFF = 0" for f :: u32
proof -
  have "f * 4096 = push_bit 12 f" by (simp add: push_bit_eq_mult)
  then show ?thesis unfolding page_mask by (auto simp: bit_eq_iff bit_simps)
qed

lemma available_aligned: "p \<in> available s \<Longrightarrow> p AND 0xFFF = 0"
  using frame_aligned by (auto simp: available_def)

lemma table_index_less: "unat (v AND 0x3FF) < 1024" for v :: u32
  unfolding page_mask by (simp add: and_mask_less_size word_size flip: take_bit_eq_mask) (simp add: unat_take_bit_mod)

lemma dir_index_less: "unat (drop_bit 22 v) < 1024" for v :: u32
proof -
  have "unat v < 2 ^ LENGTH(32)" by (rule unsigned_less)
  then show ?thesis by (simp add: unat_drop_bit_div less_mult_imp_div_less)
qed

text \<open>A virtual address is its two indices and its offset.\<close>

lemma page_eq:
  fixes v w :: u32
  shows "drop_bit 22 v = drop_bit 22 w \<and> drop_bit 12 v AND 0x3FF = drop_bit 12 w AND 0x3FF
     \<longleftrightarrow> v AND 0xFFFFF000 = w AND 0xFFFFF000" (is "?l \<longleftrightarrow> ?r")
proof
  assume ?l
  then have "\<And>n. bit (drop_bit 22 v) n = bit (drop_bit 22 w) n"
    "\<And>n. bit (drop_bit 12 v AND mask 10) n = bit (drop_bit 12 w AND mask 10) n"
    unfolding page_mask by simp_all
  note b = this
  show ?r unfolding page_mask
  proof (rule bit_word_eqI)
    fix n assume n: "n < LENGTH(32)"
    show "bit (v AND NOT (mask 12)) n = bit (w AND NOT (mask 12)) n"
      using b(1) [of "n - 22"] b(2) [of "n - 12"] n
      by (cases "22 \<le> n") (auto simp: bit_simps)
  qed
next
  assume ?r
  then have r: "\<And>n. bit (v AND NOT (mask 12)) n = bit (w AND NOT (mask 12)) n" unfolding page_mask by simp
  have b: "bit v n = bit w n" if "12 \<le> n" "n < 32" for n using r [of n] that by (simp add: bit_simps)
  have "drop_bit 22 v = drop_bit 22 w"
  proof (rule bit_word_eqI)
    fix n assume "n < LENGTH(32)"
    then show "bit (drop_bit 22 v) n = bit (drop_bit 22 w) n"
      using b [of "22 + n"] by (cases "22 + n < 32") (auto simp: bit_simps dest: bit_imp_le_length)
  qed
  moreover have "drop_bit 12 v AND mask 10 = drop_bit 12 w AND mask 10"
  proof (rule bit_word_eqI)
    fix n assume "n < LENGTH(32)"
    then show "bit (drop_bit 12 v AND mask 10) n = bit (drop_bit 12 w AND mask 10) n"
      using b [of "12 + n"] by (auto simp: bit_simps)
  qed
  ultimately show ?l unfolding page_mask by simp
qed


section \<open>Mapping pages\<close>

lemma translate_eq:
  assumes "paging_ok s"
  shows "translate s v =
    (let t = page_tables s (drop_bit 22 v); pte = table_mem s t (drop_bit 12 v AND 0x3FF)
     in if t \<noteq> 0 \<and> bit pte 0 then Some ((pte AND 0xFFFFF000) OR (v AND 0xFFF)) else None)"
proof (cases "page_tables s (drop_bit 22 v) = 0")
  case True
  then have "\<not> bit (page_directory s (drop_bit 22 v)) 0" using assms by (auto simp: paging_ok_def)
  with True show ?thesis by (simp add: translate_def)
next
  case False
  then have "page_directory s (drop_bit 22 v) = page_tables s (drop_bit 22 v) OR PRESENT OR WRITABLE"
    "page_tables s (drop_bit 22 v) AND 0xFFF = 0"
    using assms by (auto simp: paging_ok_def)
  with False show ?thesis using aligned_entry [of "page_tables s (drop_bit 22 v)"]
    by (simp add: translate_def Let_def)
qed

text \<open>A loop that stores to consecutive entries of one table.\<close>

lemma table_loop:
  fixes s :: "'a paging_scheme" and t u :: u32 and g :: "nat \<Rightarrow> u32"
  assumes "k + n < 2 ^ 32"
  defines "st \<equiv> for_upto n (\<lambda>i. table_set t (of_nat (i + k)) (g i)) s"
  shows "st = s\<lparr>table_mem := table_mem st\<rparr>" "u \<noteq> t \<Longrightarrow> table_mem st u = table_mem s u"
    "table_mem st t j = (if k \<le> unat j \<and> unat j < k + n then g (unat j - k) else table_mem s t j)"
proof -
  let ?P = "\<lambda>i r. r = s\<lparr>table_mem := table_mem r\<rparr> \<and> (\<forall>u. u \<noteq> t \<longrightarrow> table_mem r u = table_mem s u)
      \<and> (\<forall>j. table_mem r t j = (if k \<le> unat j \<and> unat j < k + i then g (unat j - k) else table_mem s t j))"
  have "?P n st"
    unfolding st_def
  proof (rule for_upto_invariant [where P = ?P])
    fix i r assume i: "i < n" and r: "r = s\<lparr>table_mem := table_mem r\<rparr> \<and> (\<forall>u. u \<noteq> t \<longrightarrow> table_mem r u = table_mem s u)
      \<and> (\<forall>j. table_mem r t j = (if k \<le> unat j \<and> unat j < k + i then g (unat j - k) else table_mem s t j))"
    let ?r = "table_set t (of_nat (i + k)) (g i) r"
    have "unat (of_nat (i + k) :: u32) = i + k" using i assms(1) by (intro unat_of_nat_small) simp
    then have eq: "j = of_nat (i + k) \<longleftrightarrow> unat j = i + k" for j :: u32 by (metis word_unat_eq_iff)
    have "?r = s\<lparr>table_mem := table_mem ?r\<rparr>"
    proof -
      obtain m where m: "r = s\<lparr>table_mem := m\<rparr>" using r by blast
      show ?thesis unfolding table_set_def m by simp
    qed
    moreover have "table_mem ?r t j = (if k \<le> unat j \<and> unat j < k + Suc i then g (unat j - k) else table_mem s t j)" for j
      using r eq [of j] by (auto simp: table_set_def)
    moreover have "u \<noteq> t \<Longrightarrow> table_mem ?r u = table_mem s u" for u
      using r by (simp add: table_set_def)
    ultimately show "?r = s\<lparr>table_mem := table_mem ?r\<rparr> \<and> (\<forall>u. u \<noteq> t \<longrightarrow> table_mem ?r u = table_mem s u)
      \<and> (\<forall>j. table_mem ?r t j = (if k \<le> unat j \<and> unat j < k + Suc i then g (unat j - k) else table_mem s t j))"
      by blast
  next
    show "?P 0 s" by auto
  qed
  then show "st = s\<lparr>table_mem := table_mem st\<rparr>" "u \<noteq> t \<Longrightarrow> table_mem st u = table_mem s u"
    "table_mem st t j = (if k \<le> unat j \<and> unat j < k + n then g (unat j - k) else table_mem s t j)"
    by blast+
qed

lemmas clear_table = table_loop [where k = 0 and n = 1024 and g = "\<lambda>_. 0", unfolded add_0_right, simplified]

lemma available_paging [simp]:
  "available (s\<lparr>page_directory := a, page_tables := b, table_mem := c\<rparr>) = available s"
  "available (s\<lparr>page_directory := a, page_tables := b\<rparr>) = available s"
  "pmm_ok (s\<lparr>page_directory := a, page_tables := b\<rparr>) = pmm_ok s"
  "available (s\<lparr>table_mem := c\<rparr>) = available s"
  "pmm_ok (s\<lparr>table_mem := c\<rparr>) = pmm_ok s"
  "pmm_ok (s\<lparr>page_directory := a, page_tables := b, table_mem := c\<rparr>) = pmm_ok s"
  by (simp_all add: available_def scanned_def frame_used_def pmm_ok_def)

lemma pmm_alloc_paging:
  assumes "pmm_alloc_frame s = (p, s')"
  shows "page_directory s' = page_directory s" "page_tables s' = page_tables s" "table_mem s' = table_mem s"
  using assms by (auto simp: pmm_alloc_frame_def set_frame_def Let_def split: if_splits)

lemma new_table_ok:
  assumes ok: "paging_ok s" and t0: "page_tables s d = 0" and r: "new_table d s = Some (t, s')"
  shows "paging_ok s'" "page_tables s' d = t" "t \<noteq> 0" "reachable_table t"
    "\<And>e. e \<noteq> d \<Longrightarrow> page_tables s' e = page_tables s e"
    "\<And>u. u \<noteq> t \<Longrightarrow> table_mem s' u = table_mem s u"
    "\<And>j. unat j < 1024 \<Longrightarrow> table_mem s' t j = 0"
    "\<And>e. page_tables s e \<noteq> t"
proof -
  obtain p s1 where a: "pmm_alloc_frame s = (p, s1)" by fastforce
  define s2 where "s2 = for_upto 1024 (\<lambda>i. table_set p (of_nat i) 0) s1"
  note s2 = clear_table [where t = p and s = s1, folded s2_def] and al = pmm_alloc_paging [OF a]
  have s': "t = p" "reachable_table p"
    "s' = s2\<lparr>page_directory := (page_directory s2)(d := p OR PRESENT OR WRITABLE),
       page_tables := (page_tables s2)(d := p)\<rparr>"
    using r by (auto simp: new_table_def a Let_def s2_def split: if_splits)
  have same: "page_directory s2 = page_directory s" "page_tables s2 = page_tables s"
    "available s2 = available s1" "pmm_ok s2 = pmm_ok s1"
    by (subst s2(1); simp add: al)+
  have p0: "p \<noteq> 0" using s'(2) by (auto simp: reachable_table_def)
  have pok: "pmm_ok s" using ok by (simp add: paging_ok_def)
  note av = pmm_alloc_available [OF pok a]
  have fresh: "page_tables s e \<noteq> p" for e
    using ok av(2) [OF p0] p0 by (auto simp: paging_ok_def)
  then show "\<And>e. page_tables s e \<noteq> t" by (simp add: s'(1))
  have pd: "page_directory s' = (page_directory s)(d := p OR PRESENT OR WRITABLE)"
    "page_tables s' = (page_tables s)(d := p)" "available s' = available s - {p}" "pmm_ok s'"
    "table_mem s' = table_mem s2"
    using same av(1) av(2) [OF p0] by (simp_all add: s'(3))
  have al0: "p AND 0xFFF = 0" using available_aligned av(2) [OF p0] by blast
  show "paging_ok s'"
    unfolding paging_ok_def
  proof (intro conjI allI impI)
    fix e
    show "if page_tables s' e = 0 then \<not> bit (page_directory s' e) 0
      else page_directory s' e = page_tables s' e OR PRESENT OR WRITABLE
        \<and> page_tables s' e AND 0xFFF = 0 \<and> page_tables s' e \<notin> available s'"
      using ok p0 al0 by (cases "e = d") (auto simp: pd(1-3) paging_ok_def split: if_splits)
  next
    fix e f assume "page_tables s' e = page_tables s' f" "page_tables s' e \<noteq> 0"
    then show "e = f"
      using ok fresh [of e] fresh [of f] unfolding pd(2) paging_ok_def
      by (cases "e = d"; cases "f = d") auto
  qed (rule pd(4))
  show "page_tables s' d = t" "t \<noteq> 0" "reachable_table t"
    "\<And>e. e \<noteq> d \<Longrightarrow> page_tables s' e = page_tables s e"
    using pd s' p0 by auto
  show "table_mem s' u = table_mem s u" if "u \<noteq> t" for u using that s2(2) al(3) by (simp add: pd(5) s'(1))
  show "table_mem s' t j = 0" if "unat j < 1024" for j using that s2(3) by (simp add: pd(5) s'(1))
qed

lemma map_table_ok:
  assumes ok: "paging_ok s" and t: "page_tables s (drop_bit 22 v) \<noteq> 0" and e: "bit pte 0"
  defines "r \<equiv> table_set (page_tables s (drop_bit 22 v)) (drop_bit 12 v AND 0x3FF) pte s"
  shows "paging_ok r"
    and "translate r w = (if w AND 0xFFFFF000 = v AND 0xFFFFF000
      then Some ((pte AND 0xFFFFF000) OR (w AND 0xFFF)) else translate s w)"
proof -
  show okr: "paging_ok r" using ok by (simp add: paging_ok_def table_set_def r_def)
  let ?t = "page_tables s (drop_bit 22 v)"
  have pt: "page_tables r = page_tables s"
    "table_mem r = (table_mem s)(?t := (table_mem s ?t)(drop_bit 12 v AND 0x3FF := pte))"
    by (simp_all add: r_def table_set_def)
  have same: "page_tables s (drop_bit 22 w) = ?t \<longleftrightarrow> drop_bit 22 w = drop_bit 22 v"
    using ok t by (metis (no_types) paging_ok_def)
  show "translate r w = (if w AND 0xFFFFF000 = v AND 0xFFFFF000
      then Some ((pte AND 0xFFFFF000) OR (w AND 0xFFF)) else translate s w)"
  proof (cases "w AND 0xFFFFF000 = v AND 0xFFFFF000")
    case True
    then have "drop_bit 22 w = drop_bit 22 v" "drop_bit 12 w AND 0x3FF = drop_bit 12 v AND 0x3FF"
      using page_eq [of w v] by simp_all
    with t e True show ?thesis by (simp add: translate_eq [OF okr] Let_def pt)
  next
    case False
    then have "drop_bit 22 w \<noteq> drop_bit 22 v \<or> drop_bit 12 w AND 0x3FF \<noteq> drop_bit 12 v AND 0x3FF"
      using page_eq [of w v] by blast
    with same have "table_mem r (page_tables s (drop_bit 22 w)) (drop_bit 12 w AND 0x3FF)
        = table_mem s (page_tables s (drop_bit 22 w)) (drop_bit 12 w AND 0x3FF)"
      by (auto simp: pt)
    with False show ?thesis by (simp add: translate_eq [OF okr] translate_eq [OF ok] Let_def pt(1))
  qed
qed

text \<open>When \<open>map_page\<close> can go on: the table is there, or a frame for it below 4 MB is.\<close>

definition can_map :: "u32 \<Rightarrow> 'a paging_scheme \<Rightarrow> bool" where
  "can_map v s \<longleftrightarrow>
     (let t = page_tables s (drop_bit 22 v)
      in reachable_table (if t = 0 then fst (pmm_alloc_frame s) else t))"

lemma map_page_ok:
  assumes ok: "paging_ok s" and can: "can_map v s"
  shows "\<exists>s'. map_page v p s = Some s' \<and> paging_ok s'
    \<and> (\<forall>w. translate s' w = (if w AND 0xFFFFF000 = v AND 0xFFFFF000
             then Some ((p AND 0xFFFFF000) OR (w AND 0xFFF)) else translate s w))"
proof (cases "page_tables s (drop_bit 22 v) = 0")
  case False
  with can have "reachable_table (page_tables s (drop_bit 22 v))" by (simp add: can_map_def Let_def)
  with False have "map_page v p s = Some (table_set (page_tables s (drop_bit 22 v)) (drop_bit 12 v AND 0x3FF)
      ((p AND 0xFFFFF000) OR PRESENT OR WRITABLE) s)" by (simp add: map_page_def Let_def)
  with map_table_ok [OF ok False entry_bits(2), of p, unfolded entry_bits(1)] show ?thesis by blast
next
  case True
  let ?d = "drop_bit 22 v"
  obtain t s1 where n: "new_table ?d s = Some (t, s1)"
    using can True by (cases "new_table ?d s")
      (auto simp: new_table_def can_map_def Let_def split: prod.splits if_splits)
  note f = new_table_ok [OF ok True n]
  have same: "translate s1 w = translate s w" for w
  proof (cases "drop_bit 22 w = ?d")
    case e: True
    have "table_mem s1 t (drop_bit 12 w AND 0x3FF) = 0" by (rule f(7)) (rule table_index_less)
    then show ?thesis using e f(2) True
      by (simp add: translate_eq [OF f(1)] translate_eq [OF ok] Let_def)
  next
    case False
    then show ?thesis using f(5) f(6) f(8)
      by (simp add: translate_eq [OF f(1)] translate_eq [OF ok] Let_def)
  qed
  have t0: "page_tables s1 ?d \<noteq> 0" using f(2,3) by simp
  have "map_page v p s = Some (table_set (page_tables s1 ?d) (drop_bit 12 v AND 0x3FF)
      ((p AND 0xFFFFF000) OR PRESENT OR WRITABLE) s1)"
    using True n f(2,4) by (simp add: map_page_def Let_def)
  with map_table_ok [OF f(1) t0 entry_bits(2), of p, unfolded entry_bits(1)] same show ?thesis by simp
qed


section \<open>The initial mapping\<close>

lemma paging_init_fields:
  fixes s :: "'a paging_scheme"
  assumes "pmm_alloc_frame s = (t, s1)"
  shows "page_tables (paging_init pd s) e = (if e = 0 then t else if unat e < 1024 then 0 else page_tables s e)"
    "page_directory (paging_init pd s) e =
      (if e = 0 then t OR PRESENT OR WRITABLE else if unat e < 1024 then 0 else page_directory s e)"
    "unat j < 1024 \<Longrightarrow> table_mem (paging_init pd s) t j =
      (if j = 0 then 0 else (j * 4096) OR PRESENT OR WRITABLE)"
    "available (paging_init pd s) = available s1" "pmm_ok (paging_init pd s) = pmm_ok s1"
    "bit (r_cr0 (regs (paging_init pd s))) 31" "r_cr3 (regs (paging_init pd s)) = pd"
proof -
  define s0 where "s0 = for_upto 1024 (\<lambda>i s. s\<lparr>page_directory := (page_directory s)(of_nat i := 0),
                                   page_tables := (page_tables s)(of_nat i := 0)\<rparr>) s"
  let ?P = "\<lambda>i r. (\<exists>a b. r = s\<lparr>page_directory := a, page_tables := b\<rparr>)
    \<and> (\<forall>e. page_directory r e = (if unat e < i then 0 else page_directory s e)
         \<and> page_tables r e = (if unat e < i then 0 else page_tables s e))"
  have "?P 1024 s0"
    unfolding s0_def
  proof (rule for_upto_invariant [where P = ?P], goal_cases)
    case (2 i r)
    have "unat (of_nat i :: u32) = i" using 2(1) by (intro unat_of_nat_small) simp
    then have eq: "e = of_nat i \<longleftrightarrow> unat e = i" for e :: u32 by (metis word_unat_eq_iff)
    from 2 show ?case by (auto simp: eq less_Suc_eq) blast
  next
    case 1
    have "s = s\<lparr>page_directory := page_directory s, page_tables := page_tables s\<rparr>" by simp
    then have "\<exists>a b. s = s\<lparr>page_directory := a, page_tables := b\<rparr>" by (intro exI)
    then show ?case by (intro conjI) simp_all
  qed
  then obtain a b where s0: "s0 = s\<lparr>page_directory := a, page_tables := b\<rparr>"
    "\<And>e. page_directory s0 e = (if unat e < 1024 then 0 else page_directory s e)"
    "\<And>e. page_tables s0 e = (if unat e < 1024 then 0 else page_tables s e)" by blast
  let ?s1 = "s1\<lparr>page_directory := a, page_tables := b\<rparr>"
  have al: "pmm_alloc_frame s0 = (t, ?s1)"
    using assms unfolding s0(1)
    by (auto simp: pmm_alloc_frame_def first_free_frame_def set_frame_def Let_def split: if_splits)
  define s2 where "s2 = for_upto 1024 (\<lambda>i. table_set t (of_nat i) 0) ?s1"
  define s3 where "s3 = for_upto 1023 (\<lambda>i. table_set t (of_nat (i + 1))
                               ((of_nat (i + 1) * 4096) OR PRESENT OR WRITABLE)) s2"
  note s2 = clear_table [where t = t and s = ?s1, folded s2_def]
  note s3 = table_loop [where t = t and s = s2 and k = 1 and n = 1023
      and g = "\<lambda>i. (of_nat (i + 1) * 4096) OR PRESENT OR WRITABLE", folded s3_def]
  have run: "paging_init pd s = enable_paging (load_page_directory pd
      (s3\<lparr>page_directory := (page_directory s3)(0 := t OR PRESENT OR WRITABLE),
          page_tables := (page_tables s3)(0 := t)\<rparr>))"
    unfolding paging_init_def by (simp only: s0_def [symmetric] al Let_def split s2_def [symmetric] s3_def [symmetric])
  obtain m where m: "s3 = ?s1\<lparr>table_mem := m\<rparr>"
  proof -
    obtain m2 where m2: "s2 = ?s1\<lparr>table_mem := m2\<rparr>" using s2(1) by blast
    obtain m3 where "s3 = s2\<lparr>table_mem := m3\<rparr>" using s3(1) by auto
    then show thesis using that [of m3] by (simp add: m2)
  qed
  have tab: "page_directory s3 = page_directory s0" "page_tables s3 = page_tables s0"
    by (simp_all add: m s0(1))
  show "page_tables (paging_init pd s) e = (if e = 0 then t else if unat e < 1024 then 0 else page_tables s e)"
    "page_directory (paging_init pd s) e =
      (if e = 0 then t OR PRESENT OR WRITABLE else if unat e < 1024 then 0 else page_directory s e)"
    by (simp_all add: run enable_paging_def load_page_directory_def tab s0(2,3))
  show "available (paging_init pd s) = available s1" "pmm_ok (paging_init pd s) = pmm_ok s1"
    by (simp_all add: run enable_paging_def load_page_directory_def m available_def scanned_def
        frame_used_def pmm_ok_def)
  show "bit (r_cr0 (regs (paging_init pd s))) 31" "r_cr3 (regs (paging_init pd s)) = pd"
    using bit_exp_iff [where 'a = "32 word", of 31 31]
    by (simp_all add: run enable_paging_def load_page_directory_def bit_simps)
  show "table_mem (paging_init pd s) t j = (if j = 0 then 0 else (j * 4096) OR PRESENT OR WRITABLE)"
    if j: "unat j < 1024"
  proof -
    have "table_mem (paging_init pd s) t j = table_mem s3 t j"
      by (simp add: run enable_paging_def load_page_directory_def)
    also have "\<dots> = (if 1 \<le> unat j then (of_nat (unat j - 1 + 1) * 4096) OR PRESENT OR WRITABLE
        else table_mem s2 t j)" using s3(3) j by simp
    also have "table_mem s2 t j = 0" using s2(3) j by simp
    finally show ?thesis
      by (cases "j = 0") (simp_all add: Suc_le_eq unat_gt_0 del: of_nat_Suc of_nat_add)
  qed
qed

text \<open>The shape of the tables before \<open>paging_init\<close>: nothing beyond the 1024 entries.\<close>

definition fresh_tables :: "'a paging_scheme \<Rightarrow> bool" where
  "fresh_tables s \<longleftrightarrow> (\<forall>e. 1024 \<le> unat e \<longrightarrow> page_tables s e = 0 \<and> page_directory s e = 0)"

lemma paging_init_ok:
  assumes "pmm_ok s" and "fst (pmm_alloc_frame s) \<noteq> 0" and "fresh_tables s"
  shows "paging_ok (paging_init pd s)"
proof -
  obtain t s1 where a: "pmm_alloc_frame s = (t, s1)" by fastforce
  note f = paging_init_fields [OF a]
  have t0: "t \<noteq> 0" using assms(2) a by simp
  note av = pmm_alloc_available [OF assms(1) a]
  have pt: "page_tables (paging_init pd s) e = (if e = 0 then t else 0)"
    "page_directory (paging_init pd s) e = (if e = 0 then t OR PRESENT OR WRITABLE else 0)" for e
    using f(1,2) [of pd e] assms(3) by (auto simp: fresh_tables_def not_less)
  show ?thesis
    using av(1) av(2) [OF t0] t0 available_aligned [of t s] unfolding paging_ok_def
    by (simp add: f(4,5) pt)
qed

lemma page_parts: "v AND 0xFFFFF000 OR v AND 0xFFF = v" for v :: u32
  unfolding page_mask by (rule bit_word_eqI) (auto simp: bit_simps)

text \<open>An address below 4 MB: its directory index is 0 and its table index the page number.\<close>

lemma low_index:
  fixes v :: u32
  assumes "v < 0x400000"
  shows "drop_bit 22 v = 0" "(drop_bit 12 v AND 0x3FF) * 4096 = v AND 0xFFFFF000"
    "drop_bit 12 v AND 0x3FF = 0 \<longleftrightarrow> v < 0x1000"
proof -
  have u: "unat v < 0x400000" using assms by (simp add: word_less_nat_alt)
  have "unat (drop_bit 22 v) = 0" using u by (simp add: unat_drop_bit_div)
  then show "drop_bit 22 v = 0" by (simp add: unat_eq_0)
  have i: "drop_bit 12 v AND 0x3FF = drop_bit 12 v"
  proof -
    have "unat (drop_bit 12 v AND 0x3FF) = unat (drop_bit 12 v)"
      unfolding page_mask using u
      by (simp add: unat_take_bit_mod unat_drop_bit_div less_mult_imp_div_less flip: take_bit_eq_mask)
    then show ?thesis by (simp add: word_unat_eq_iff)
  qed
  have "push_bit 12 (drop_bit 12 v) = v AND NOT (mask 12)"
    by (rule bit_word_eqI) (auto simp: bit_simps)
  then show "(drop_bit 12 v AND 0x3FF) * 4096 = v AND 0xFFFFF000"
    unfolding i page_mask(1) by (simp add: push_bit_eq_mult)
  have "unat (drop_bit 12 v) = 0 \<longleftrightarrow> unat v < 0x1000" by (simp add: unat_drop_bit_div div_eq_0_iff)
  then show "drop_bit 12 v AND 0x3FF = 0 \<longleftrightarrow> v < 0x1000"
    unfolding i by (simp add: unat_eq_0 word_less_nat_alt)
qed


lemma paging_init_map:
  assumes "pmm_ok s" and "fst (pmm_alloc_frame s) \<noteq> 0" and "fresh_tables s"
  shows "translate (paging_init pd s) v = (if 0x1000 \<le> v \<and> v < 0x400000 then Some v else None)
    \<and> bit (r_cr0 (regs (paging_init pd s))) 31 \<and> r_cr3 (regs (paging_init pd s)) = pd
    \<and> paging_ok (paging_init pd s)"
proof -
  obtain t s1 where a: "pmm_alloc_frame s = (t, s1)" by fastforce
  note f = paging_init_fields [OF a] and ok = paging_init_ok [OF assms]
  have t0: "t \<noteq> 0" using assms(2) a by simp
  have "translate (paging_init pd s) v = (if 0x1000 \<le> v \<and> v < 0x400000 then Some v else None)"
  proof (cases "v < 0x400000")
    case True
    note l = low_index [OF True]
    let ?i = "drop_bit 12 v AND 0x3FF"
    have "table_mem (paging_init pd s) t ?i = (if ?i = 0 then 0 else (?i * 4096) OR PRESENT OR WRITABLE)"
      by (rule f(3)) (rule table_index_less)
    moreover have "page_tables (paging_init pd s) (drop_bit 22 v) = t" by (simp add: f(1) l(1))
    ultimately show ?thesis
      using t0 True l entry_bits [of v] page_parts [of v]
      by (simp add: translate_eq [OF ok] Let_def not_less [symmetric])
  next
    case False
    have "1 \<le> unat v div 2 ^ 22" using False by (simp add: word_less_nat_alt)
    then have "drop_bit 22 v \<noteq> 0" by (auto simp: unat_drop_bit_div simp flip: unat_eq_0)
    then have "page_tables (paging_init pd s) (drop_bit 22 v) = 0"
      using dir_index_less [of v] by (simp add: f(1))
    then show ?thesis using False by (simp add: translate_eq [OF ok])
  qed
  then show ?thesis using f(6,7) ok by simp
qed

section \<open>Properties\<close>

text \<open>C15: after \<open>paging_init\<close> the processor maps exactly the addresses \<open>0x1000 .. 0x3FFFFF\<close>, each onto
  itself (page 0, the NULL page, is left out), paging is switched on with the directory loaded, and
  the tables are well formed.\<close>

theorem paging_init_identity:
  assumes "pmm_ok s" and "fst (pmm_alloc_frame s) \<noteq> 0" and "fresh_tables s"
  shows "translate (paging_init pd s) v = (if 0x1000 \<le> v \<and> v < 0x400000 then Some v else None)
    \<and> bit (r_cr0 (regs (paging_init pd s))) 31 \<and> r_cr3 (regs (paging_init pd s)) = pd
    \<and> paging_ok (paging_init pd s)"
  using assms by (rule paging_init_map)

theorem paging_init_identity_witness:
  "translate (paging_init 0x5000 small_pmm) 0x1234 = Some 0x1234
   \<and> translate (paging_init 0x5000 small_pmm) 0x10 = None"
  using paging_init_identity [of small_pmm "0x5000" "0x1234"] paging_init_identity [of small_pmm "0x5000" "0x10"]
  by (simp add: small_pmm_alloc) (simp add: small_pmm_def pmm_ok_def fresh_tables_def power_on_def)

text \<open>C16: \<open>map_page\<close> returns whenever the table exists or a frame for it is at hand below 4 MB; then
  the processor maps the page of \<open>v\<close> to the frame of \<open>p\<close>, the translation of every address of
  every other page is unchanged, and the tables stay well formed.\<close>

theorem map_page_maps:
  assumes "paging_ok s" and "can_map v s"
  shows "\<exists>s'. map_page v p s = Some s' \<and> paging_ok s'
    \<and> (\<forall>w. translate s' w = (if w AND 0xFFFFF000 = v AND 0xFFFFF000
             then Some ((p AND 0xFFFFF000) OR (w AND 0xFFF)) else translate s w))"
  using assms by (rule map_page_ok)

lemma small_paging:
  "paging_ok (paging_init 0x5000 small_pmm)" "can_map 0x1000 (paging_init 0x5000 small_pmm)"
proof -
  show "paging_ok (paging_init 0x5000 small_pmm)"
    by (rule paging_init_ok)
      (simp_all add: small_pmm_alloc, simp_all add: small_pmm_def pmm_ok_def fresh_tables_def power_on_def)
  show "can_map 0x1000 (paging_init 0x5000 small_pmm)"
    using paging_init_fields(1) [OF small_pmm_alloc, of "0x5000" 0]
    by (simp add: can_map_def reachable_table_def)
qed

theorem map_page_maps_witness:
  "\<exists>s'. map_page 0x1000 0x9000 (paging_init 0x5000 small_pmm) = Some s' \<and> translate s' 0x1004 = Some 0x9004"
proof -
  obtain s' where "map_page 0x1000 0x9000 (paging_init 0x5000 small_pmm) = Some s'"
    "\<forall>w. translate s' w = (if w AND 0xFFFFF000 = 0x1000 AND 0xFFFFF000
       then Some ((0x9000 AND 0xFFFFF000) OR (w AND 0xFFF)) else translate (paging_init 0x5000 small_pmm) w)"
    using map_page_maps [OF small_paging, of "0x9000"] by blast
  then show ?thesis by (intro exI [of _ s']) simp
qed

end
