(* ===== verification/Input.thy ===== *)
theory Input
  imports Vga
begin

text \<open>
  \<open>drivers/keyboard.c\<close>, the interrupt handler that fills a ring buffer of 256 characters and the
  reader that empties it, and \<open>core/console.c\<close>, the line the shell edits.
\<close>

section \<open>\<open>drivers/keyboard.c\<close>\<close>

abbreviation KEYBOARD_DATA_PORT :: u16 where "KEYBOARD_DATA_PORT \<equiv> 0x60"
abbreviation KEYBOARD_BUFFER_SIZE :: u32 where "KEYBOARD_BUFFER_SIZE \<equiv> 256"

definition keymap :: "u8 list" where
  "keymap = [0, 27] @ lit ''1234567890-='' @ [8, 9] @ lit ''qwertyuiop[]'' @ [10, 0]
     @ lit ''asdfghjkl;'' @ [39, 96, 0, 92] @ lit ''zxcvbnm,./'' @ [0] @ lit ''*'' @ [0] @ lit '' ''
     @ replicate 70 0"

definition keyboard_init :: "'a keyboard_scheme \<Rightarrow> 'a keyboard_scheme" where
  "keyboard_init s = s"

definition keyboard_read_scancode :: "'a keyboard_scheme \<Rightarrow> u8 \<times> 'a keyboard_scheme" where
  "keyboard_read_scancode s = inb KEYBOARD_DATA_PORT s"

definition keyboard_scancode_to_ascii :: "u8 \<Rightarrow> u8" where
  "keyboard_scancode_to_ascii scancode = (if scancode < 128 then keymap ! unat scancode else 0)"

definition keyboard_store :: "u8 \<Rightarrow> 'a keyboard_scheme \<Rightarrow> 'a keyboard_scheme" where
  "keyboard_store c s =
     s\<lparr>keyboard_buffer := (keyboard_buffer s)(buffer_head s := c),
       buffer_head := (buffer_head s + 1) mod KEYBOARD_BUFFER_SIZE\<rparr>"

definition keyboard_irq_handler :: "'a keyboard_scheme \<Rightarrow> 'a keyboard_scheme" where
  "keyboard_irq_handler s =
     (let (scancode, s) = keyboard_read_scancode s
      in if scancode AND 0x80 \<noteq> 0 then pic_send_eoi 1 s
         else let c = keyboard_scancode_to_ascii scancode;
                  s = (if c \<noteq> 0 then keyboard_store c s else s)
              in pic_send_eoi 1 s)"

definition keyboard_has_input :: "'a keyboard_scheme \<Rightarrow> bool" where
  "keyboard_has_input s \<longleftrightarrow> buffer_head s \<noteq> buffer_tail s"

definition keyboard_getchar :: "'a keyboard_scheme \<Rightarrow> u8 \<times> 'a keyboard_scheme" where
  "keyboard_getchar s =
     (if \<not> keyboard_has_input s then (0, s)
      else (keyboard_buffer s (buffer_tail s),
            s\<lparr>buffer_tail := (buffer_tail s + 1) mod KEYBOARD_BUFFER_SIZE\<rparr>))"

section \<open>\<open>core/console.c\<close>\<close>

text \<open>\<open>line_buffer\<close> is an array of 256 characters.\<close>

abbreviation CONSOLE_BUFFER_SIZE :: nat where "CONSOLE_BUFFER_SIZE \<equiv> 256"

definition console_init :: "'a console_scheme \<Rightarrow> 'a console_scheme" where
  "console_init s =
     for_upto CONSOLE_BUFFER_SIZE (\<lambda>i s. s\<lparr>line_buffer := (line_buffer s)[i := 0]\<rparr>) (s\<lparr>line_length := 0\<rparr>)"

definition console_handle_char :: "u8 \<Rightarrow> 'a console_scheme \<Rightarrow> 'a console_scheme" where
  "console_handle_char c s =
     (if c = 8
      then if 0 < line_length s
           then let s = s\<lparr>line_length := line_length s - 1\<rparr>;
                    s = s\<lparr>line_buffer := (line_buffer s)[unat (line_length s) := 0]\<rparr>
                in vga_putchar 8 s
           else s
      else if c = 10
      then let s = vga_putchar 10 s in s\<lparr>line_length := 0\<rparr>
      else if line_length s < of_nat CONSOLE_BUFFER_SIZE - 1
      then let s = s\<lparr>line_buffer := (line_buffer s)[unat (line_length s) := c],
                     line_length := line_length s + 1\<rparr>
           in vga_putchar c s
      else s)"

definition console_get_line :: "'a console_scheme \<Rightarrow> u8 list" where
  "console_get_line s = line_buffer s"

definition console_clear_line :: "'a console_scheme \<Rightarrow> 'a console_scheme" where
  "console_clear_line s =
     (let s = for_upto CONSOLE_BUFFER_SIZE (\<lambda>i s. s\<lparr>line_buffer := (line_buffer s)[i := 0]\<rparr>) s
      in s\<lparr>line_length := 0\<rparr>)"

section \<open>The ring buffer as a queue\<close>

definition ring_ok :: "'a keyboard_scheme \<Rightarrow> bool" where
  "ring_ok s \<longleftrightarrow> unat (buffer_head s) < 256 \<and> unat (buffer_tail s) < 256"

definition ring_count :: "'a keyboard_scheme \<Rightarrow> nat" where
  "ring_count s = (unat (buffer_head s) + 256 - unat (buffer_tail s)) mod 256"

text \<open>The characters typed and not yet read, oldest first.\<close>

definition pending :: "'a keyboard_scheme \<Rightarrow> u8 list" where
  "pending s = map (\<lambda>i. keyboard_buffer s (of_nat ((unat (buffer_tail s) + i) mod 256))) [0..<ring_count s]"

lemma length_pending [simp]: "length (pending s) = ring_count s"
  by (simp add: pending_def)

lemma ring_next:
  fixes x :: u32
  assumes "unat x < 256"
  shows "unat ((x + 1) mod 256) = (unat x + 1) mod 256"
proof -
  have "unat (x + 1) = unat x + 1" using assms by (simp add: unat_word_ariths)
  then show ?thesis by (simp add: unat_mod)
qed

lemma mod_256_cases: "n mod 256 = (if n < 256 then n else n - 256)" if "n < 512" for n :: nat
  using that by (simp add: le_mod_geq)

lemma ring_slot_neq:
  fixes h t i :: nat
  assumes "h < 256" and "t < 256" and "i < (h + 256 - t) mod 256"
  shows "(t + i) mod 256 \<noteq> h"
proof -
  have "i < (if t \<le> h then h - t else h + 256 - t)"
    using assms by (auto simp: mod_256_cases split: if_splits)
  then show ?thesis using assms(1,2) by (auto simp: mod_256_cases split: if_splits)
qed

lemma pending_store:
  assumes ok: "ring_ok s" and room: "ring_count s < 255"
  shows "pending (keyboard_store c s) = pending s @ [c]" "ring_ok (keyboard_store c s)"
proof -
  let ?h = "unat (buffer_head s)" and ?t = "unat (buffer_tail s)"
  have h: "?h < 256" "?t < 256" using ok by (auto simp: ring_ok_def)
  have head: "unat (buffer_head (keyboard_store c s)) = (?h + 1) mod 256"
    using ring_next [OF h(1)] by (simp add: keyboard_store_def)
  show "ring_ok (keyboard_store c s)" using head h by (simp add: ring_ok_def keyboard_store_def)
  have count: "ring_count (keyboard_store c s) = Suc (ring_count s)"
    unfolding ring_count_def head using h room
    by (auto simp: ring_count_def keyboard_store_def mod_256_cases split: if_splits)
  have tail: "buffer_tail (keyboard_store c s) = buffer_tail s" by (simp add: keyboard_store_def)
  have slot: "keyboard_buffer (keyboard_store c s) (of_nat ((?t + i) mod 256)) =
      (if i = ring_count s then c else keyboard_buffer s (of_nat ((?t + i) mod 256)))"
    if "i \<le> ring_count s" for i
  proof -
    have u: "unat (of_nat ((?t + i) mod 256) :: u32) = (?t + i) mod 256"
      by (intro unat_of_nat_small) (simp add: less_trans [OF mod_less_divisor])
    have "of_nat ((?t + i) mod 256) = buffer_head s \<longleftrightarrow> (?t + i) mod 256 = ?h"
      by (simp add: word_unat_eq_iff u)
    moreover have "(?t + ring_count s) mod 256 = ?h"
      using h by (auto simp: ring_count_def mod_256_cases split: if_splits)
    moreover have "i < ring_count s \<Longrightarrow> (?t + i) mod 256 \<noteq> ?h"
      using ring_slot_neq [OF h] by (simp add: ring_count_def)
    ultimately show ?thesis using that by (auto simp: keyboard_store_def le_less)
  qed
  show "pending (keyboard_store c s) = pending s @ [c]"
    using slot by (simp add: pending_def count tail)
qed

lemma ring_count_cases:
  assumes "ring_ok s"
  shows "ring_count s = (if unat (buffer_tail s) \<le> unat (buffer_head s)
    then unat (buffer_head s) - unat (buffer_tail s)
    else unat (buffer_head s) + 256 - unat (buffer_tail s))"
  using assms by (auto simp: ring_ok_def ring_count_def mod_256_cases split: if_splits)

lemma has_input_pending: "ring_ok s \<Longrightarrow> keyboard_has_input s \<longleftrightarrow> pending s \<noteq> []"
proof -
  assume ok: "ring_ok s"
  then have "unat (buffer_head s) = unat (buffer_tail s) \<longleftrightarrow> ring_count s = 0"
    by (auto simp: ring_count_cases ring_ok_def)
  then show ?thesis by (auto simp: keyboard_has_input_def word_unat_eq_iff pending_def)
qed

lemma getchar_pending:
  assumes ok: "ring_ok s" and p: "pending s \<noteq> []"
  shows "fst (keyboard_getchar s) = hd (pending s)" "pending (snd (keyboard_getchar s)) = tl (pending s)"
    "ring_ok (snd (keyboard_getchar s))"
proof -
  let ?h = "unat (buffer_head s)" and ?t = "unat (buffer_tail s)" and ?s = "snd (keyboard_getchar s)"
  have h: "?h < 256" "?t < 256" using ok by (auto simp: ring_ok_def)
  have inp: "keyboard_has_input s" using has_input_pending [OF ok] p by simp
  have tail: "unat (buffer_tail ?s) = (?t + 1) mod 256" "buffer_head ?s = buffer_head s"
    "keyboard_buffer ?s = keyboard_buffer s"
    using ring_next [OF h(2)] inp by (simp_all add: keyboard_getchar_def)
  have c0: "0 < ring_count s" using p by (simp flip: length_pending)
  have count: "Suc (ring_count ?s) = ring_count s"
    unfolding ring_count_def tail using h c0
    by (auto simp: ring_count_def mod_256_cases split: if_splits)
  show "ring_ok ?s" using h tail by (simp add: ring_ok_def)
  have up: "[0..<ring_count s] = 0 # map Suc [0..<ring_count ?s]"
    unfolding count [symmetric] by (simp only: map_Suc_upt upt_conv_Cons)
  show "fst (keyboard_getchar s) = hd (pending s)"
    using inp h c0 by (simp add: keyboard_getchar_def pending_def up)
  have "(?t + 1) mod 256 + i = ?t + Suc i \<or> ((?t + 1) mod 256 + i) mod 256 = (?t + Suc i) mod 256" for i
    by (simp add: mod_add_left_eq)
  then have "((?t + 1) mod 256 + i) mod 256 = (?t + Suc i) mod 256" for i by metis
  then show "pending ?s = tl (pending s)"
    unfolding pending_def up tail by simp
qed


section \<open>The interface of a bounded queue\<close>

locale fifo =
  fixes put :: "'e \<Rightarrow> 's \<Rightarrow> 's" and get :: "'s \<Rightarrow> 'e \<times> 's"
    and queue :: "'s \<Rightarrow> 'e list" and ok :: "'s \<Rightarrow> bool" and room :: nat
  assumes put_ok: "ok s \<Longrightarrow> length (queue s) < room \<Longrightarrow> ok (put e s) \<and> queue (put e s) = queue s @ [e]"
    and get_ok: "ok s \<Longrightarrow> queue s \<noteq> [] \<Longrightarrow>
      ok (snd (get s)) \<and> fst (get s) = hd (queue s) \<and> queue (snd (get s)) = tl (queue s)"

context fifo
begin

text \<open>What was put in is what was taken out followed by what is still there.\<close>

lemma put_balance:
  assumes "ok s" and "length (queue s) < room" and "ins = outs @ queue s"
  shows "ok (put e s) \<and> ins @ [e] = outs @ queue (put e s)"
  using put_ok [OF assms(1,2), of e] assms(3) by simp

lemma get_balance:
  assumes "ok s" and "queue s \<noteq> []" and "ins = outs @ queue s"
  shows "ok (snd (get s)) \<and> ins = (outs @ [fst (get s)]) @ queue (snd (get s))"
  using get_ok [OF assms(1,2)] assms(2,3) by simp

end

interpretation keys: fifo keyboard_store keyboard_getchar pending ring_ok 255
proof
  show "ring_ok s \<Longrightarrow> length (pending s) < 255 \<Longrightarrow>
      ring_ok (keyboard_store e s) \<and> pending (keyboard_store e s) = pending s @ [e]" for s :: "'a keyboard_scheme" and e
    using pending_store by auto
  show "ring_ok s \<Longrightarrow> pending s \<noteq> [] \<Longrightarrow>
      ring_ok (snd (keyboard_getchar s)) \<and> fst (keyboard_getchar s) = hd (pending s)
      \<and> pending (snd (keyboard_getchar s)) = tl (pending s)" for s :: "'a keyboard_scheme"
    using getchar_pending by auto
qed

section \<open>Interrupts against the reader\<close>

text \<open>The character an interrupt delivers: none for a key release or a key without character.\<close>

definition key_of :: "u8 \<Rightarrow> u8 list" where
  "key_of scancode =
     (if scancode AND 0x80 \<noteq> 0 \<or> keyboard_scancode_to_ascii scancode = 0 then []
      else [keyboard_scancode_to_ascii scancode])"

lemma eoi_keyboard [simp]:
  fixes s :: "'a keyboard_scheme"
  shows "keyboard_buffer (pic_send_eoi i s) = keyboard_buffer s" "buffer_head (pic_send_eoi i s) = buffer_head s"
    "buffer_tail (pic_send_eoi i s) = buffer_tail s"
  by (simp_all add: pic_send_eoi_def outb_def)

lemma pending_cong:
  assumes "keyboard_buffer t = keyboard_buffer s" "buffer_head t = buffer_head s" "buffer_tail t = buffer_tail s"
  shows "pending t = pending s" "ring_ok t = ring_ok s" "ring_count t = ring_count s"
  using assms by (simp_all add: pending_def ring_ok_def ring_count_def)

lemma irq_pending:
  fixes s :: "'a keyboard_scheme"
  assumes "ring_ok s" and "ring_count s < 255"
  shows "ring_ok (keyboard_irq_handler s)"
    "pending (keyboard_irq_handler s) = pending s @ key_of (fst (keyboard_read_scancode s))"
proof -
  obtain c s1 where r: "keyboard_read_scancode s = (c, s1)" by fastforce
  have f: "keyboard_buffer s1 = keyboard_buffer s" "buffer_head s1 = buffer_head s" "buffer_tail s1 = buffer_tail s"
    using r by (auto simp: keyboard_read_scancode_def inb_def Let_def)
  note c1 = pending_cong [OF f]
  have eoi: "pending (pic_send_eoi 1 u) = pending u" "ring_ok (pic_send_eoi 1 u) = ring_ok u"
    for u :: "'a keyboard_scheme" by (rule pending_cong; simp)+
  have st: "pending (keyboard_store e s1) = pending s @ [e]" "ring_ok (keyboard_store e s1)" for e
    using pending_store [of s1 e] assms c1 by simp_all
  show "ring_ok (keyboard_irq_handler s)"
    "pending (keyboard_irq_handler s) = pending s @ key_of (fst (keyboard_read_scancode s))"
    using assms(1) st c1 by (simp_all add: keyboard_irq_handler_def r eoi key_of_def Let_def)
qed

text \<open>Any interleaving of keyboard interrupts, reads, and steps that leave the ring buffer alone, with
  what was typed and what was read so far.\<close>

inductive key_run :: "'a keyboard_scheme \<Rightarrow> u8 list \<Rightarrow> u8 list \<Rightarrow> 'a keyboard_scheme \<Rightarrow> bool"
  for s0 where
  start: "key_run s0 [] [] s0"
| press: "key_run s0 ins outs s \<Longrightarrow> ring_count s < 255 \<Longrightarrow>
    key_run s0 (ins @ key_of (fst (keyboard_read_scancode s))) outs (keyboard_irq_handler s)"
| read: "key_run s0 ins outs s \<Longrightarrow> keyboard_has_input s \<Longrightarrow>
    key_run s0 ins (outs @ [fst (keyboard_getchar s)]) (snd (keyboard_getchar s))"
| other: "key_run s0 ins outs s \<Longrightarrow> keyboard_buffer t = keyboard_buffer s \<Longrightarrow>
    buffer_head t = buffer_head s \<Longrightarrow> buffer_tail t = buffer_tail s \<Longrightarrow> key_run s0 ins outs t"

lemma key_run_balance:
  assumes "key_run s0 ins outs s" and "ring_ok s0" and "pending s0 = []"
  shows "ring_ok s \<and> ins = outs @ pending s"
  using assms
proof (induction rule: key_run.induct)
  case (press ins outs s)
  then show ?case using irq_pending [of s] by simp
next
  case (read ins outs s)
  then show ?case using keys.get_balance [of s ins outs] has_input_pending [of s] by simp
next
  case (other ins outs s t)
  then show ?case using pending_cong [of t s] by simp
qed simp

section \<open>The line editor\<close>

definition edit :: "u8 \<Rightarrow> u8 list \<Rightarrow> u8 list" where
  "edit c line = (if c = 8 then butlast line else if length line < 255 then line @ [c] else line)"

definition console_ok :: "'a console_scheme \<Rightarrow> bool" where
  "console_ok s \<longleftrightarrow> length (line_buffer s) = 256 \<and> unat (line_length s) \<le> 255
     \<and> (\<forall>i. unat (line_length s) \<le> i \<longrightarrow> i < 256 \<longrightarrow> line_buffer s ! i = 0)"

definition line :: "'a console_scheme \<Rightarrow> u8 list" where
  "line s = take (unat (line_length s)) (line_buffer s)"

lemma putchar_console [simp]:
  fixes s :: "'a console_scheme"
  shows "line_buffer (vga_putchar c s) = line_buffer s" "line_length (vga_putchar c s) = line_length s"
  by (rule screen_stepE [OF screen_step_putchar [of s c]], simp)+

lemma console_edit:
  fixes s :: "'a console_scheme"
  assumes ok: "console_ok s" and c: "c \<noteq> 10"
  shows "console_ok (console_handle_char c s)" "line (console_handle_char c s) = edit c (line s)"
proof -
  let ?n = "unat (line_length s)"
  have n: "length (line_buffer s) = 256" "?n \<le> 255" "\<And>i. ?n \<le> i \<Longrightarrow> i < 256 \<Longrightarrow> line_buffer s ! i = 0"
    using ok by (auto simp: console_ok_def)
  have len: "length (line s) = ?n" using n by (simp add: line_def)
  have lt: "line_length s < of_nat CONSOLE_BUFFER_SIZE - 1 \<longleftrightarrow> ?n < 255" by (simp add: word_less_nat_alt)
  have pos: "0 < line_length s \<longleftrightarrow> 0 < ?n" by (simp add: word_less_nat_alt)
  have dec: "0 < ?n \<Longrightarrow> unat (line_length s - 1) = ?n - 1" by (simp add: unat_diff_small)
  have inc: "unat (line_length s + 1) = ?n + 1" using n(2) by (simp add: unat_word_ariths)
  have "console_ok (console_handle_char c s) \<and> line (console_handle_char c s) = edit c (line s)"
  proof (cases "c = 8")
    case True
    show ?thesis
    proof (cases "0 < ?n")
      case False
      then show ?thesis using True ok pos by (simp add: console_handle_char_def edit_def line_def)
    next
      case pos': True
      have "take (?n - 1) ((line_buffer s)[?n - 1 := 0]) = butlast (take ?n (line_buffer s))"
        using n(1,2) pos' by (simp add: butlast_take)
      then show ?thesis using True pos pos' n
        by (auto simp: console_handle_char_def Let_def console_ok_def line_def dec edit_def nth_list_update)
    qed
  next
    case c8: False
    show ?thesis
    proof (cases "?n < 255")
      case False
      then show ?thesis using c c8 ok lt len by (simp add: console_handle_char_def edit_def)
    next
      case True
      have "take (Suc ?n) ((line_buffer s)[?n := c]) = take ?n (line_buffer s) @ [c]"
        using n(1) True by (simp add: take_Suc_conv_app_nth)
      then show ?thesis using c c8 True lt len n
        by (auto simp: console_handle_char_def Let_def console_ok_def line_def inc edit_def)
    qed
  qed
  then show "console_ok (console_handle_char c s)" "line (console_handle_char c s) = edit c (line s)" by auto
qed

lemma console_typed:
  fixes s :: "'a console_scheme"
  assumes "console_ok s" and "10 \<notin> set cs"
  shows "console_ok (fold console_handle_char cs s) \<and> line (fold console_handle_char cs s) = fold edit cs (line s)"
  using assms by (induction cs arbitrary: s) (auto simp: console_edit)

lemma edit_no_nul: "0 \<notin> set l \<Longrightarrow> 0 \<notin> set cs \<Longrightarrow> 0 \<notin> set (fold edit cs l)"
  by (induction cs arbitrary: l) (auto simp: edit_def dest: in_set_butlastD)

text \<open>The buffer as a C string is the line.\<close>

lemma console_line_string:
  assumes "console_ok s" and "0 \<notin> set (line s)"
  shows "upto_nul (console_get_line s) = line s"
proof -
  let ?n = "unat (line_length s)"
  have "line_buffer s = line s @ drop ?n (line_buffer s)" by (simp add: line_def)
  moreover have "drop ?n (line_buffer s) = 0 # drop (Suc ?n) (line_buffer s)"
    using assms(1) by (subst Cons_nth_drop_Suc [symmetric]) (auto simp: console_ok_def)
  ultimately have "console_get_line s = line s @ 0 # drop (Suc ?n) (line_buffer s)"
    unfolding console_get_line_def by metis
  then show ?thesis using upto_nul_append_nul [OF assms(2)] by simp
qed

lemma clear_loop:
  fixes s :: "'a console_scheme"
  assumes "length (line_buffer s) = 256"
  shows "for_upto 256 (\<lambda>i s. s\<lparr>line_buffer := (line_buffer s)[i := 0]\<rparr>) s = s\<lparr>line_buffer := replicate 256 0\<rparr>"
proof -
  let ?P = "\<lambda>i t. (\<exists>b. t = s\<lparr>line_buffer := b\<rparr> \<and> length b = 256 \<and> (\<forall>j < i. b ! j = 0))"
  have "?P 256 (for_upto 256 (\<lambda>i s. s\<lparr>line_buffer := (line_buffer s)[i := 0]\<rparr>) s)"
  proof (rule for_upto_invariant [where P = ?P])
    show "?P 0 s" using assms by (intro exI [of _ "line_buffer s"]) simp
    fix i t assume "i < 256" and "?P i t"
    then obtain b where b: "t = s\<lparr>line_buffer := b\<rparr>" "length b = 256" "\<forall>j < i. b ! j = 0" by blast
    then show "?P (Suc i) (t\<lparr>line_buffer := (line_buffer t)[i := 0]\<rparr>)"
      using \<open>i < 256\<close> by (intro exI [of _ "b[i := 0]"]) (auto simp: less_Suc_eq nth_list_update)
  qed
  then obtain b where b: "for_upto 256 (\<lambda>i s. s\<lparr>line_buffer := (line_buffer s)[i := 0]\<rparr>) s = s\<lparr>line_buffer := b\<rparr>"
    "length b = 256" "\<forall>j < 256. b ! j = 0" by blast
  have "b = replicate 256 0" using b(2,3) by (intro nth_equalityI) auto
  with b(1) show ?thesis by simp
qed

lemma console_cleared:
  fixes s :: "'a console_scheme"
  assumes "length (line_buffer s) = 256"
  shows "console_ok (console_clear_line s)" "line (console_clear_line s) = []"
    "console_clear_line s = s\<lparr>line_buffer := replicate 256 0, line_length := 0\<rparr>"
  by (simp_all add: console_clear_line_def clear_loop [OF assms] console_ok_def line_def)


section \<open>Properties\<close>

text \<open>C21: however keyboard interrupts and reads interleave, as long as no interrupt finds 255 characters
  waiting, the characters read are exactly the characters typed, in order and none twice: what was
  typed is what was read followed by what waits in the ring buffer.\<close>

theorem keyboard_in_order:
  assumes "key_run s0 ins outs s" and "ring_ok s0" and "pending s0 = []"
  shows "ring_ok s \<and> ins = outs @ pending s"
  using assms by (rule key_run_balance)

text \<open>The press and the release of the key "a", then the shell reads.\<close>

definition key_a :: heap where
  "key_a = power_on\<lparr>dev_in := (\<lambda>_ _. 0x1E)\<rparr>"

lemma key_a_code: "keyboard_scancode_to_ascii 0x1E = 0x61"
  by (simp add: keyboard_scancode_to_ascii_def keymap_def lit_simps)

theorem keyboard_in_order_witness:
  "[0x61] = [fst (keyboard_getchar (keyboard_irq_handler key_a))]
     @ pending (snd (keyboard_getchar (keyboard_irq_handler key_a)))"
proof -
  have s0: "ring_ok key_a" "pending key_a = []" "ring_count key_a < 255"
    by (simp_all add: key_a_def power_on_def ring_ok_def pending_def ring_count_def)
  have code: "key_of (fst (keyboard_read_scancode key_a)) = [0x61]"
    using key_a_code by (simp add: key_of_def keyboard_read_scancode_def inb_def key_a_def Let_def)
  have 1: "key_run key_a [0x61] [] (keyboard_irq_handler key_a)"
    using key_run.press [OF key_run.start s0(3)] code by simp
  have "keyboard_has_input (keyboard_irq_handler key_a)"
    using irq_pending [OF s0(1,3)] code s0(2) by (simp add: has_input_pending)
  from keyboard_in_order [OF key_run.read [OF 1 this] s0(1,2)] show ?thesis by simp
qed

text \<open>A defect at the boundary: the ring buffer does not notice that it is full, and a character that
  arrives while 255 wait makes all of them disappear.\<close>

lemma keyboard_overflow_drops_all:
  assumes "ring_ok s" and "ring_count s = 255"
  shows "pending (keyboard_store c s) = [] \<and> \<not> keyboard_has_input (keyboard_store c s)"
proof -
  let ?h = "unat (buffer_head s)" and ?t = "unat (buffer_tail s)"
  have h: "?h < 256" "?t < 256" using assms(1) by (auto simp: ring_ok_def)
  have "(?h + 1) mod 256 = ?t"
    using assms ring_count_cases [OF assms(1)] h by (auto simp: mod_256_cases split: if_splits)
  then have head: "unat (buffer_head (keyboard_store c s)) = unat (buffer_tail (keyboard_store c s))"
    using ring_next [OF h(1)] by (simp add: keyboard_store_def)
  moreover have "ring_ok (keyboard_store c s)"
    using h head by (simp add: ring_ok_def keyboard_store_def)
  ultimately have "ring_count (keyboard_store c s) = 0" by (simp add: ring_count_cases)
  then show ?thesis using head by (simp add: pending_def keyboard_has_input_def word_unat_eq_iff)
qed

lemma keyboard_overflow_drops_all_witness:
  "pending (keyboard_store 0x61 (power_on\<lparr>buffer_head := 255\<rparr>)) = []"
  using keyboard_overflow_drops_all [of "power_on\<lparr>buffer_head := 255\<rparr>"]
  by (simp add: ring_ok_def ring_count_def power_on_def)

text \<open>Typing edits the line as a line editor should: starting from a cleared line, after any keys
  but ENTER the C string in the buffer is the result of appending and of erasing the last character,
  never longer than 255 and always terminated.\<close>

lemma console_edits_line:
  assumes "length (line_buffer s) = 256" and "10 \<notin> set cs" and "0 \<notin> set cs"
  shows "upto_nul (console_get_line (fold console_handle_char cs (console_clear_line s))) = fold edit cs []
    \<and> console_ok (fold console_handle_char cs (console_clear_line s)) \<and> length (fold edit cs []) \<le> 255"
proof -
  note c = console_cleared [OF assms(1)]
  have t: "console_ok (fold console_handle_char cs (console_clear_line s))"
    "line (fold console_handle_char cs (console_clear_line s)) = fold edit cs []"
    using console_typed [OF c(1) assms(2)] c(2) by simp_all
  have "length (line (fold console_handle_char cs (console_clear_line s))) \<le> 255"
    using t(1) by (simp add: line_def console_ok_def)
  then show ?thesis
    using console_line_string [OF t(1)] t edit_no_nul [of "[]" cs] assms(3) by simp
qed

lemma console_edits_line_witness:
  "upto_nul (console_get_line (fold console_handle_char (lit ''lz'' @ [8] @ lit ''s'') (console_clear_line power_on)))
     = lit ''ls''"
  using console_edits_line [of power_on "lit ''lz'' @ [8] @ lit ''s''"]
  by (simp add: lit_simps edit_def) (simp add: power_on_def)

end
