(* ===== verification/Debug.thy ===== *)
theory Debug
  imports Vga
begin

text \<open>
  \<open>core/debug.c\<close>: reading the processor registers, printing them, and the two panics. A panic never
  returns: its last act is an endless \<open>cli; hlt\<close> loop, so its result is the state it halts in.
\<close>

section \<open>The registers\<close>

definition cli :: "'a hw_scheme \<Rightarrow> 'a hw_scheme" where
  "cli s = s\<lparr>interrupts_on := False\<rparr>"

definition debug_get_cs :: "'a hw_scheme \<Rightarrow> u16" where
  "debug_get_cs s = r_cs (regs s)"

definition debug_get_ds :: "'a hw_scheme \<Rightarrow> u16" where
  "debug_get_ds s = r_ds (regs s)"

definition debug_get_es :: "'a hw_scheme \<Rightarrow> u16" where
  "debug_get_es s = r_es (regs s)"

definition debug_get_fs :: "'a hw_scheme \<Rightarrow> u16" where
  "debug_get_fs s = r_fs (regs s)"

definition debug_get_gs :: "'a hw_scheme \<Rightarrow> u16" where
  "debug_get_gs s = r_gs (regs s)"

definition debug_get_ss :: "'a hw_scheme \<Rightarrow> u16" where
  "debug_get_ss s = r_ss (regs s)"

text \<open>The stack pointer and the return address depend on the compiled code; they are fields of the
  processor state that no operation of the model computes with.\<close>

definition debug_get_esp :: "'a hw_scheme \<Rightarrow> u32" where
  "debug_get_esp s = r_esp (regs s)"

definition debug_get_eip :: "'a hw_scheme \<Rightarrow> u32" where
  "debug_get_eip s = r_eip (regs s)"

definition debug_get_cr2 :: "'a hw_scheme \<Rightarrow> u32" where
  "debug_get_cr2 s = r_cr2 (regs s)"

definition debug_get_cr3 :: "'a hw_scheme \<Rightarrow> u32" where
  "debug_get_cr3 s = r_cr3 (regs s)"

definition debug_get_tr :: "'a hw_scheme \<Rightarrow> u16" where
  "debug_get_tr s = r_tr (regs s)"

definition debug_get_gdtr :: "'a hw_scheme \<Rightarrow> u32 \<times> u16" where
  "debug_get_gdtr s = (r_gdtr_base (regs s), r_gdtr_limit (regs s))"

definition debug_get_idtr :: "'a hw_scheme \<Rightarrow> u32 \<times> u16" where
  "debug_get_idtr s = (r_idtr_base (regs s), r_idtr_limit (regs s))"

definition debug_get_cr0 :: "'a hw_scheme \<Rightarrow> u32" where
  "debug_get_cr0 s = r_cr0 (regs s)"

definition debug_get_cr4 :: "'a hw_scheme \<Rightarrow> u32" where
  "debug_get_cr4 s = r_cr4 (regs s)"

text \<open>Bit 9 of the flags is the interrupt flag, which the model keeps apart.\<close>

definition debug_get_eflags :: "'a hw_scheme \<Rightarrow> u32" where
  "debug_get_eflags s =
     (if interrupts_on s then r_eflags (regs s) OR 0x200 else r_eflags (regs s) AND NOT 0x200)"

section \<open>Printing the processor state\<close>

definition debug_print_segments :: "'a vga_scheme \<Rightarrow> 'a vga_scheme" where
  "debug_print_segments s =
     (let s = vga_print (lit ''==== CPU STATE ====\<newline>'') s;
          cs = debug_get_cs s; ds = debug_get_ds s; es = debug_get_es s; fs = debug_get_fs s;
          gs = debug_get_gs s; ss = debug_get_ss s; tr = debug_get_tr s;
          cr0 = debug_get_cr0 s; cr2 = debug_get_cr2 s; cr3 = debug_get_cr3 s; cr4 = debug_get_cr4 s;
          eflags = debug_get_eflags s; esp = debug_get_esp s; eip = debug_get_eip s;
          (gdtr_base, gdtr_limit) = debug_get_gdtr s;
          (idtr_base, idtr_limit) = debug_get_idtr s
      in seq_do
       [vga_print (lit ''CS: ''), vga_print_hex (ucast cs),
        vga_print (lit '' DS: ''), vga_print_hex (ucast ds),
        vga_print (lit '' ES: ''), vga_print_hex (ucast es),
        vga_print (lit '' FS: ''), vga_print_hex (ucast fs),
        vga_print (lit '' GS: ''), vga_print_hex (ucast gs),
        vga_print (lit '' SS: ''), vga_print_hex (ucast ss),
        vga_print (lit '' TR: ''), vga_print_hex (ucast tr),
        vga_print (lit ''\<newline>''),
        vga_print (lit ''EIP: ''), vga_print_hex eip,
        vga_print (lit '' ESP: ''), vga_print_hex esp,
        vga_print (lit '' EFLAGS: ''), vga_print_hex eflags,
        vga_print (lit '' CPL: ''), vga_print_dec (ucast (cs AND 3)),
        vga_print (lit ''\<newline>''),
        vga_print (lit ''CR0: ''), vga_print_hex cr0,
        vga_print (lit '' CR2: ''), vga_print_hex cr2,
        vga_print (lit '' CR3: ''), vga_print_hex cr3,
        vga_print (lit '' CR4: ''), vga_print_hex cr4,
        vga_print (lit ''\<newline>''),
        vga_print (lit ''GDTR: ''), vga_print_hex gdtr_base,
        vga_print (lit ''/''), vga_print_hex (ucast gdtr_limit),
        vga_print (lit '' IDTR: ''), vga_print_hex idtr_base,
        vga_print (lit ''/''), vga_print_hex (ucast idtr_limit),
        vga_print (lit ''\<newline>''),
        vga_print (lit ''PM:''),
        vga_print (if cr0 AND 1 \<noteq> 0 then lit ''1 '' else lit ''0 ''),
        vga_print (lit ''PG:''),
        vga_print (if cr0 AND 0x80000000 \<noteq> 0 then lit ''1'' else lit ''0''),
        vga_print (lit ''\<newline>====================\<newline>'')] s)"

section \<open>Panics\<close>

definition debug_panic :: "cstr \<Rightarrow> 'a vga_scheme \<Rightarrow> 'a vga_scheme outcome" where
  "debug_panic message s = Halts (cli (seq_do
     [cli,
      vga_set_color 0x4F,
      vga_clear,
      vga_print (lit ''================================================================================\<newline>''),
      vga_set_color 0xCF,
      vga_print (lit ''                                 KERNEL PANIC                                   \<newline>''),
      vga_set_color 0x4F,
      vga_print (lit ''================================================================================\<newline>\<newline>''),
      vga_print (lit ''Reason: ''),
      vga_print message,
      vga_print (lit ''\<newline>\<newline>''),
      vga_print (lit ''CPU Registers at panic call:\<newline>''),
      debug_print_segments,
      vga_print (lit ''\<newline>''),
      vga_print (lit ''System Halted.\<newline>'')] s))"

text \<open>What the interrupt stub leaves on the stack: the argument of the interrupt handler.\<close>

record registers_t =
  rg_ds :: u32
  rg_edi :: u32
  rg_esi :: u32
  rg_ebp :: u32
  rg_esp :: u32
  rg_ebx :: u32
  rg_edx :: u32
  rg_ecx :: u32
  rg_eax :: u32
  int_no :: u32
  err_code :: u32
  rg_eip :: u32
  rg_cs :: u32
  rg_eflags :: u32
  rg_useresp :: u32
  rg_ss :: u32

definition debug_panic_from_exception ::
    "registers_t \<Rightarrow> cstr \<Rightarrow> 'a vga_scheme \<Rightarrow> 'a vga_scheme outcome" where
  "debug_panic_from_exception r message s = Halts (cli (seq_do
     [cli,
      vga_set_color 0x4F,
      vga_clear,
      vga_print (lit ''================================================================================\<newline>''),
      vga_set_color 0xCF,
      vga_print (lit ''                             UNHANDLED EXCEPTION                                \<newline>''),
      vga_set_color 0x4F,
      vga_print (lit ''================================================================================\<newline>\<newline>''),
      vga_print (lit ''Exception: ''),
      vga_print message,
      vga_print (lit '' (Int No: ''), vga_print_hex (int_no r),
      vga_print (lit '' Err Code: ''), vga_print_hex (err_code r),
      vga_print (lit '')\<newline>\<newline>''),
      vga_print (lit ''EIP: ''), vga_print_hex (rg_eip r),
      vga_print (lit '' CS: ''), vga_print_hex (rg_cs r),
      vga_print (lit '' EFLAGS: ''), vga_print_hex (rg_eflags r),
      vga_print (lit ''\<newline>''),
      vga_print (lit ''EAX: ''), vga_print_hex (rg_eax r),
      vga_print (lit '' EBX: ''), vga_print_hex (rg_ebx r),
      vga_print (lit '' ECX: ''), vga_print_hex (rg_ecx r),
      vga_print (lit '' EDX: ''), vga_print_hex (rg_edx r),
      vga_print (lit ''\<newline>''),
      vga_print (lit ''\<newline>System Halted.\<newline>'')] s))"

section \<open>Text with line breaks\<close>

text \<open>Where the cursor stands after a text, and a bound for it.\<close>

definition advance :: "cstr \<Rightarrow> nat \<Rightarrow> nat" where
  "advance cs p = fold (\<lambda>c p. if c = 10 then (p div 80 + 1) * 80 else p + 1) cs p"

definition cost :: "cstr \<Rightarrow> nat" where
  "cost cs = (\<Sum>c \<leftarrow> cs. if c = 10 then 80 else 1)"

lemma advance_simps [simp]:
  "advance [] p = p" "advance (c # cs) p = advance cs (if c = 10 then (p div 80 + 1) * 80 else p + 1)"
  by (simp_all add: advance_def)

lemma cost_simps [simp]: "cost [] = 0" "cost (c # cs) = (if c = 10 then 80 else 1) + cost cs"
  "cost (cs @ ds) = cost cs + cost ds"
  by (simp_all add: cost_def)

lemma advance_cost: "advance cs p \<le> p + cost cs"
proof (induction cs arbitrary: p)
  case (Cons c cs)
  have "p div 80 * 80 \<le> p" by simp
  with Cons [of "p + 1"] Cons [of "(p div 80 + 1) * 80"] show ?case
    unfolding advance_simps cost_simps by (auto simp del: div_times_less_eq_dividend)
qed simp

lemma advance_plain: "10 \<notin> set cs \<Longrightarrow> advance cs p = p + length cs"
  by (induction cs arbitrary: p) auto

definition textual :: "cstr \<Rightarrow> bool" where
  "textual cs \<longleftrightarrow> (\<forall>c \<in> set cs. plain c \<or> c = 10)"

lemma textual_simps [simp]: "textual []" "textual (c # cs) \<longleftrightarrow> (plain c \<or> c = 10) \<and> textual cs"
  "textual (cs @ ds) \<longleftrightarrow> textual cs \<and> textual ds"
  by (auto simp: textual_def)

text \<open>Printing a text that ends on the screen keeps what stands above its start.\<close>

definition above :: "'a vga_scheme \<Rightarrow> 'a vga_scheme \<Rightarrow> bool" where
  "above s t \<longleftrightarrow> (\<forall>i. unat i < vga_pos s \<longrightarrow> terminal_buffer t i = terminal_buffer s i) \<and> vga_pos s \<le> vga_pos t"

lemma above_trans: "above s t \<Longrightarrow> above t u \<Longrightarrow> above s u"
  by (auto simp: above_def)

lemma newline_pos:
  assumes "on_screen s" and "vga_pos s + 80 < 2000"
  shows "vga_pos (vga_putchar 10 s) = (vga_pos s div 80 + 1) * 80"
    "terminal_buffer (vga_putchar 10 s) = terminal_buffer s"
proof -
  have c: "unat (terminal_row s) < 24" "unat (terminal_column s) < 80"
    using assms by (auto simp: on_screen_nat vga_pos_def)
  then have "terminal_row s \<noteq> 24" by auto
  moreover have "unat (terminal_row s + 1) = unat (terminal_row s) + 1"
    by (rule u32_suc) (use c in simp)
  moreover have "(unat (terminal_row s) * 80 + unat (terminal_column s)) div 80 = unat (terminal_row s)"
    using c(2) by simp
  ultimately show "vga_pos (vga_putchar 10 s) = (vga_pos s div 80 + 1) * 80"
    "terminal_buffer (vga_putchar 10 s) = terminal_buffer s"
    by (simp_all add: putchar_newline [OF assms(1)] vga_pos_def)
qed

lemma print_text:
  assumes "on_screen s" and "textual cs" and "vga_pos s + cost cs < 2000"
  shows "vga_pos (vga_print cs s) = advance cs (vga_pos s) \<and> above s (vga_print cs s)"
  using assms
proof (induction cs arbitrary: s)
  case Nil
  then show ?case by (simp add: vga_print.simps above_def)
next
  case (Cons c cs)
  let ?t = "vga_putchar c s"
  have c: "plain c \<or> c = 10" "c \<noteq> 0" using Cons.prems(2) by (auto simp: plain_def)
  have le: "(vga_pos s div 80 + 1) * 80 \<le> vga_pos s + 80" by simp
  have small: "unat (of_nat (vga_pos s) :: u32) = vga_pos s" using Cons.prems(3) by simp
  have t: "vga_pos ?t = advance [c] (vga_pos s)" "above s ?t"
  proof -
    consider "plain c" | "c = 10" using c(1) by blast
    then have "vga_pos ?t = advance [c] (vga_pos s) \<and> above s ?t"
    proof cases
      case 1
      then show ?thesis using putchar_plain [OF Cons.prems(1) 1] Cons.prems(3) small
        by (auto simp: plain_def above_def)
    next
      case 2
      then show ?thesis using newline_pos [OF Cons.prems(1)] Cons.prems(3) le
        by (auto simp: above_def)
    qed
    then show "vga_pos ?t = advance [c] (vga_pos s)" "above s ?t" by auto
  qed
  have "vga_pos ?t + cost cs < 2000" using t(1) Cons.prems(3) advance_cost [of "[c]" "vga_pos s"] by simp
  then have "vga_pos (vga_print cs ?t) = advance cs (vga_pos ?t) \<and> above ?t (vga_print cs ?t)"
    using Cons.prems on_screen_putchar by (intro Cons.IH) auto
  then show ?case using t c(2) by (auto simp: vga_print.simps intro: above_trans)
qed

section \<open>Reports\<close>

text \<open>A report moves the cursor by at most \<open>n\<close> cells, keeps what stands above and changes nothing but
  the screen.\<close>

definition reports :: "nat \<Rightarrow> ('a vga_scheme \<Rightarrow> 'a vga_scheme) \<Rightarrow> bool" where
  "reports n f \<longleftrightarrow> (\<forall>s. on_screen s \<longrightarrow> vga_pos s + n < 2000 \<longrightarrow>
     on_screen (f s) \<and> above s (f s) \<and> vga_pos (f s) \<le> vga_pos s + n \<and> screen_step s (f s))"

named_theorems report_intros

lemma reportsD:
  assumes "reports n f" and "on_screen s" and "vga_pos s + n < 2000"
  shows "on_screen (f s)" "above s (f s)" "vga_pos (f s) \<le> vga_pos s + n" "screen_step s (f s)"
  using assms by (auto simp: reports_def)

lemma reports_print [report_intros]: "textual cs \<Longrightarrow> reports (cost cs) (vga_print cs)"
  using print_text advance_cost by (fastforce simp: reports_def on_screen_print screen_step_print)

lemma reports_mono: "reports m f \<Longrightarrow> m \<le> n \<Longrightarrow> reports n f"
  unfolding reports_def by (meson add_left_mono le_less_trans le_trans)

lemma plain_textual: "\<forall>c \<in> set cs. plain c \<Longrightarrow> textual cs \<and> cost cs = length cs"
  by (induction cs) (auto simp: plain_def)

lemma hex_chars_plain: "k < 16 \<Longrightarrow> plain (hex_chars ! k)"
proof -
  have "\<forall>k \<in> set [0..<16]. plain (hex_chars ! k)"
    by (simp add: upt_rec hex_chars_def lit_def plain_def)
  then show "k < 16 \<Longrightarrow> plain (hex_chars ! k)" by simp
qed

lemma hex_plain: "\<forall>c \<in> set (hex_string v). plain c"
proof -
  have "plain (hex_nibble v i)" for i
  proof -
    have "drop_bit (28 - i * 4) v AND 0xF = take_bit 4 (drop_bit (28 - i * 4) v)"
      using take_bit_eq_mask [of 4 "drop_bit (28 - i * 4) v"] by (simp add: mask_eq_exp_minus_1)
    then have "unat (drop_bit (28 - i * 4) v AND 0xF) < 16" by (simp add: unat_take_bit_mod)
    then show ?thesis by (simp add: hex_nibble_def hex_chars_plain)
  qed
  moreover have "plain (0x30 :: u8)" "plain (0x78 :: u8)" by (simp_all add: plain_def)
  ultimately show ?thesis by (simp add: hex_string_def lit_simps)
qed

lemma reports_hex [report_intros]: "reports 10 (vga_print_hex v)"
  using reports_print [of "hex_string v"] plain_textual [OF hex_plain [of v]]
  by (simp add: vga_print_hex_string [abs_def] length_hex_string)

lemma dec_plain: "\<forall>c \<in> set (dec_string n). plain c"
proof -
  have "plain d" if "48 \<le> unat d" for d using that by (auto simp: plain_def)
  then show ?thesis using dec_digits_range [of n] by (auto simp: dec_string_def lit_def)
qed

lemma reports_dec [report_intros]: "reports 10 (vga_print_dec n)"
  using reports_print [of "dec_string n"] plain_textual [OF dec_plain [of n]] dec_string_length [of n]
  by (auto simp: vga_print_dec_string [abs_def] intro: reports_mono)

lemma reports_Nil [report_intros]: "reports 0 (seq_do [])"
  by (simp add: reports_def above_def)

lemma reports_Cons [report_intros]:
  assumes "reports m f" and "reports n (seq_do fs)"
  shows "reports (m + n) (seq_do (f # fs))"
  unfolding reports_def
proof (intro allI impI)
  fix s :: "'a vga_scheme"
  assume s: "on_screen s" "vga_pos s + (m + n) < 2000"
  then have "vga_pos s + m < 2000" by simp
  note f = reportsD [OF assms(1) s(1) this]
  have "vga_pos (f s) + n < 2000" using f(3) s(2) by simp
  note g = reportsD [OF assms(2) f(1) this]
  show "on_screen (seq_do (f # fs) s) \<and> above s (seq_do (f # fs) s)
      \<and> vga_pos (seq_do (f # fs) s) \<le> vga_pos s + (m + n) \<and> screen_step s (seq_do (f # fs) s)"
    using f g by (auto intro: above_trans screen_step_trans)
qed

lemma reports_if [report_intros]:
  assumes "textual cs" "textual ds" "cost ds = cost cs"
  shows "reports (cost cs) (vga_print (if b then cs else ds))"
  by (cases b) (simp_all add: reports_print assms(1,2) flip: assms(3), simp add: assms(3) reports_print assms(1))

lemma lit_text:
  "textual (lit [])" "textual (lit (c # cs)) \<longleftrightarrow> (plain (of_char c) \<or> of_char c = (10 :: u8)) \<and> textual (lit cs)"
  "cost (lit []) = 0" "cost (lit (c # cs)) = (if of_char c = (10 :: u8) then 80 else 1) + cost (lit cs)"
  by (simp_all add: lit_Cons)


text \<open>Statements that depend on the state they start in.\<close>

lemma reports_at: "(\<And>s. \<exists>fs. reports n (seq_do fs) \<and> f s = seq_do fs s) \<Longrightarrow> reports n f"
  unfolding reports_def by metis

lemma reports_segments [report_intros]: "reports 896 debug_print_segments"
proof (rule reports_at)
  fix s :: "'a vga_scheme"
  show "\<exists>fs. reports 896 (seq_do fs) \<and> debug_print_segments s = seq_do fs s"
    unfolding debug_print_segments_def Let_def debug_get_gdtr_def debug_get_idtr_def prod.case
    by (rule exI, rule conjI [rotated], rule seq_do_Cons [symmetric, where f = "vga_print _"], rule reports_mono,
      (rule report_intros | simp add: lit_text plain_def)+)
qed

section \<open>The panic screen\<close>

text \<open>The banner of both panics: three rows on a cleared screen, the title on other colours.\<close>

lemma banner:
  fixes s :: "'a vga_scheme"
  assumes t: "\<forall>c \<in> set title. plain c" "10 \<notin> set title" "length title = 80"
  defines "u \<equiv> seq_do [cli, vga_set_color 0x4F, vga_clear,
      vga_print (lit ''================================================================================\<newline>''),
      vga_set_color 0xCF, vga_print (title @ [10]), vga_set_color 0x4F,
      vga_print (lit ''================================================================================\<newline>\<newline>'')] s"
  shows "on_screen u" "vga_pos u = 560" "terminal_color u = 0x4F" "interrupts_on u = False"
    "regs u = regs s" "vga.more u = vga.more s"
proof -
  let ?bar = "lit ''================================================================================\<newline>''"
  let ?bar2 = "lit ''================================================================================\<newline>\<newline>''"
  define a where "a = vga_clear (vga_set_color 0x4F (cli s))"
  define b where "b = vga_set_color 0xCF (vga_print ?bar a)"
  define c where "c = vga_set_color 0x4F (vga_print (title @ [10]) b)"
  have u: "u = vga_print ?bar2 c" by (simp add: u_def a_def b_def c_def)
  have col: "on_screen (vga_set_color k w) = on_screen w" "vga_pos (vga_set_color k w) = vga_pos w"
    for k and w :: "'a vga_scheme"
    by (simp_all add: vga_set_color_def on_screen_def vga_pos_def)
  have a: "on_screen a" "vga_pos a = 0" using vga_clear_blank by (auto simp: a_def)
  have x1: "textual ?bar" "textual ?bar2" "cost ?bar = 160" "cost ?bar2 = 240"
    by (simp_all add: lit_text plain_def)
  have adv: "advance ?bar 0 = 160" "advance ?bar2 320 = 560"
    by (simp_all add: lit_simps)
  have "advance (title @ [10]) 160 = 320"
    using advance_plain [OF t(2)] t(3) by (simp add: advance_def)
  moreover have "cost (title @ [10]) = 160"
    using plain_textual [OF t(1)] t(3) by simp
  ultimately have title: "textual (title @ [10])" "cost (title @ [10]) = 160" "advance (title @ [10]) 160 = 320"
    using plain_textual [OF t(1)] by simp_all
  have p1: "on_screen (vga_print ?bar a)" "vga_pos (vga_print ?bar a) = 160"
    using print_text [OF a(1) x1(1)] a on_screen_print [OF a(1)] x1(3) adv(1) by simp_all
  have b: "on_screen b" "vga_pos b = 160" using p1 col by (simp_all add: b_def)
  have p2: "on_screen (vga_print (title @ [10]) b)" "vga_pos (vga_print (title @ [10]) b) = 320"
    using print_text [OF b(1) title(1)] b title(2,3) on_screen_print [OF b(1)] by simp_all
  have c: "on_screen c" "vga_pos c = 320" using p2 col by (simp_all add: c_def)
  show "on_screen u" "vga_pos u = 560"
    using print_text [OF c(1) x1(2)] c x1(4) adv(2) on_screen_print [OF c(1)] by (simp_all add: u)
  note st = screen_step_fields [OF screen_step_print] screen_step_fields [OF screen_step_clear]
  show "terminal_color u = 0x4F" "interrupts_on u = False" "regs u = regs s" "vga.more u = vga.more s"
    by (simp_all add: u_def st vga_set_color_def cli_def)
qed

text \<open>The line that names the reason, and what follows it.\<close>

lemma panic_line:
  assumes u: "on_screen u" "vga_pos u = 560" and head: "\<forall>c \<in> set (head @ msg). plain c"
    and rest: "reports n (seq_do rest)" "560 + length (head @ msg) + n < 2000"
    and k: "k < length (head @ msg)"
  shows "terminal_buffer (seq_do ([vga_print head, vga_print msg] @ rest) u) (of_nat (560 + k)) =
      vga_entry ((head @ msg) ! k) (terminal_color u)"
    "screen_step u (seq_do ([vga_print head, vga_print msg] @ rest) u)"
proof -
  define v where "v = vga_print (head @ msg) u"
  have nn: "0 \<notin> set head" using head by (auto simp: plain_def)
  have e: "seq_do ([vga_print head, vga_print msg] @ rest) u = seq_do rest v"
    by (simp add: v_def vga_print_append [OF nn])
  have "vga_pos u + length (head @ msg) < 2000" using rest(2) u(2) by simp
  note pp = print_plain [OF u(1) head this, folded v_def]
  have v: "on_screen v" "vga_pos v = 560 + length (head @ msg)" "screen_step u v"
    using on_screen_print [OF u(1)] pp u(2) screen_step_print by (auto simp: v_def)
  then have "vga_pos v + n < 2000" using rest(2) by simp
  note r = reportsD [OF rest(1) v(1) this]
  have i: "unat (of_nat (560 + k) :: u32) = 560 + k" by (rule unat_of_nat_small) (use k rest(2) in simp)
  have "terminal_buffer v (of_nat (560 + k)) = vga_entry ((head @ msg) ! k) (terminal_color u)"
    using pp i k u(2) by auto
  moreover have "terminal_buffer (seq_do rest v) (of_nat (560 + k)) = terminal_buffer v (of_nat (560 + k))"
    using r(2) i k v(2) by (auto simp: above_def)
  ultimately show "terminal_buffer (seq_do ([vga_print head, vga_print msg] @ rest) u) (of_nat (560 + k)) =
      vga_entry ((head @ msg) ! k) (terminal_color u)"
    by (simp only: e)
  show "screen_step u (seq_do ([vga_print head, vga_print msg] @ rest) u)"
    unfolding e using v(3) r(4) by (rule screen_step_trans)
qed

lemma panic_shows:
  assumes msg: "\<forall>c \<in> set msg. plain c" and len: "length msg \<le> 71"
  shows "\<exists>t. debug_panic msg s = Halts t \<and> \<not> interrupts_on t \<and> vga.more t = vga.more s
    \<and> (\<forall>k < 8 + length msg. terminal_buffer t (of_nat (560 + k)) = vga_entry ((lit ''Reason: '' @ msg) ! k) 0x4F)"
proof -
  let ?title = "lit ''                                 KERNEL PANIC                                   ''"
  let ?rest = "[vga_print (lit ''\<newline>\<newline>''), vga_print (lit ''CPU Registers at panic call:\<newline>''),
      debug_print_segments, vga_print (lit ''\<newline>''), vga_print (lit ''System Halted.\<newline>'')]"
  define u where "u = seq_do [cli, vga_set_color 0x4F, vga_clear,
      vga_print (lit ''================================================================================\<newline>''),
      vga_set_color 0xCF, vga_print (?title @ [10]), vga_set_color 0x4F,
      vga_print (lit ''================================================================================\<newline>\<newline>'')] s"
  define t where "t = cli (seq_do ([vga_print (lit ''Reason: ''), vga_print msg] @ ?rest) u)"
  have title: "\<forall>c \<in> set ?title. plain c" "10 \<notin> set ?title" "length ?title = 80"
    by (simp_all add: lit_simps plain_def)
  note b = banner [OF title, of s, folded u_def]
  have "?title @ [10] = lit ''                                 KERNEL PANIC                                   \<newline>''"
    by (simp add: lit_simps)
  then have e: "debug_panic msg s = Halts t"
    by (simp add: debug_panic_def t_def u_def)
  have rest: "reports 1338 (seq_do ?rest)"
    by (rule reports_mono, (rule report_intros | simp add: lit_text plain_def)+)
  have head: "\<forall>c \<in> set (lit ''Reason: '' @ msg). plain c" using msg by (simp add: lit_simps plain_def)
  note pl = panic_line [OF b(1,2) head rest, unfolded b(3)]
  have "terminal_buffer t (of_nat (560 + k)) = vga_entry ((lit ''Reason: '' @ msg) ! k) 0x4F"
    if "k < 8 + length msg" for k
  proof -
    have "560 + length (lit ''Reason: '' @ msg) + 1338 < 2000" "k < length (lit ''Reason: '' @ msg)"
      using len that by simp_all
    from pl(1) [OF this] show ?thesis by (simp add: t_def cli_def)
  qed
  moreover have "560 + length (lit ''Reason: '' @ msg) + 1338 < 2000" "0 < length (lit ''Reason: '' @ msg)"
    using len by simp_all
  note screen_step_fields [OF pl(2) [OF this]]
  then have "\<not> interrupts_on t" "vga.more t = vga.more s" using b(6) by (simp_all add: t_def cli_def)
  ultimately show ?thesis using e by blast
qed

lemma exception_shows:
  assumes msg: "\<forall>c \<in> set msg. plain c" and len: "length msg \<le> 71"
  shows "\<exists>t. debug_panic_from_exception r msg s = Halts t \<and> \<not> interrupts_on t \<and> vga.more t = vga.more s
    \<and> (\<forall>k < 11 + length msg. terminal_buffer t (of_nat (560 + k)) = vga_entry ((lit ''Exception: '' @ msg) ! k) 0x4F)"
proof -
  let ?title = "lit ''                             UNHANDLED EXCEPTION                                ''"
  let ?rest = "[vga_print (lit '' (Int No: ''), vga_print_hex (int_no r),
      vga_print (lit '' Err Code: ''), vga_print_hex (err_code r),
      vga_print (lit '')\<newline>\<newline>''),
      vga_print (lit ''EIP: ''), vga_print_hex (rg_eip r),
      vga_print (lit '' CS: ''), vga_print_hex (rg_cs r),
      vga_print (lit '' EFLAGS: ''), vga_print_hex (rg_eflags r),
      vga_print (lit ''\<newline>''),
      vga_print (lit ''EAX: ''), vga_print_hex (rg_eax r),
      vga_print (lit '' EBX: ''), vga_print_hex (rg_ebx r),
      vga_print (lit '' ECX: ''), vga_print_hex (rg_ecx r),
      vga_print (lit '' EDX: ''), vga_print_hex (rg_edx r),
      vga_print (lit ''\<newline>''),
      vga_print (lit ''\<newline>System Halted.\<newline>'')]"
  define u where "u = seq_do [cli, vga_set_color 0x4F, vga_clear,
      vga_print (lit ''================================================================================\<newline>''),
      vga_set_color 0xCF, vga_print (?title @ [10]), vga_set_color 0x4F,
      vga_print (lit ''================================================================================\<newline>\<newline>'')] s"
  define t where "t = cli (seq_do ([vga_print (lit ''Exception: ''), vga_print msg] @ ?rest) u)"
  have title: "\<forall>c \<in> set ?title. plain c" "10 \<notin> set ?title" "length ?title = 80"
    by (simp_all add: lit_simps plain_def)
  note b = banner [OF title, of s, folded u_def]
  have "?title @ [10] = lit ''                             UNHANDLED EXCEPTION                                \<newline>''"
    by (simp add: lit_simps)
  then have e: "debug_panic_from_exception r msg s = Halts t"
    by (simp add: debug_panic_from_exception_def t_def u_def)
  have rest: "reports 900 (seq_do ?rest)"
    by (rule reports_mono, (rule report_intros | simp add: lit_text plain_def)+)
  have head: "\<forall>c \<in> set (lit ''Exception: '' @ msg). plain c" using msg by (simp add: lit_simps plain_def)
  note pl = panic_line [OF b(1,2) head rest, unfolded b(3)]
  have "terminal_buffer t (of_nat (560 + k)) = vga_entry ((lit ''Exception: '' @ msg) ! k) 0x4F"
    if "k < 11 + length msg" for k
  proof -
    have "560 + length (lit ''Exception: '' @ msg) + 900 < 2000" "k < length (lit ''Exception: '' @ msg)"
      using len that by simp_all
    from pl(1) [OF this] show ?thesis by (simp add: t_def cli_def)
  qed
  moreover have "560 + length (lit ''Exception: '' @ msg) + 900 < 2000" "0 < length (lit ''Exception: '' @ msg)"
    using len by simp_all
  note screen_step_fields [OF pl(2) [OF this]]
  then have "\<not> interrupts_on t" "vga.more t = vga.more s" using b(6) by (simp_all add: t_def cli_def)
  ultimately show ?thesis using e by blast
qed

section \<open>Properties\<close>

text \<open>C22: a panic is final and legible: interrupts are off, nothing but the screen has changed, and row 7
  of the screen reads "Reason: " and the message in white on red; nothing printed after it scrolls
  or overwrites it.\<close>

theorem panic_screen:
  assumes "\<forall>c \<in> set msg. plain c" and "length msg \<le> 71"
  shows "\<exists>t. debug_panic msg s = Halts t \<and> \<not> interrupts_on t \<and> vga.more t = vga.more s
    \<and> (\<forall>k < 8 + length msg. terminal_buffer t (of_nat (560 + k)) = vga_entry ((lit ''Reason: '' @ msg) ! k) 0x4F)"
  using assms by (rule panic_shows)

theorem panic_screen_witness:
  "\<exists>t. debug_panic (lit ''oom'') power_on = Halts t \<and> terminal_buffer t 568 = vga_entry 0x6F 0x4F"
proof -
  obtain t where t: "debug_panic (lit ''oom'') power_on = Halts t"
    "\<forall>k < 8 + length (lit ''oom''). terminal_buffer t (of_nat (560 + k)) = vga_entry ((lit ''Reason: '' @ lit ''oom'') ! k) 0x4F"
    using panic_screen [of "lit ''oom''" power_on] by (auto simp: lit_simps plain_def)
  from t(2) have "terminal_buffer t (of_nat (560 + 8)) = vga_entry ((lit ''Reason: '' @ lit ''oom'') ! 8) 0x4F"
    by (rule allE [of _ 8]) simp
  with t(1) show ?thesis by (simp add: lit_simps)
qed

end
