(* ===== verification/Interrupts.thy ===== *)
theory Interrupts
  imports Paging Clock Input Debug
begin

text \<open>
  The handlers of \<open>core/idt.c\<close>: exceptions, among them the page faults that bring in the pages of the
  heap on first touch, and the hardware interrupts. The argument is the register frame as the code
  declares it. A handler that returns gives \<open>Returns\<close>, a panic \<open>Halts\<close>; \<open>None\<close> is a page fault
  inside the handler itself, from which the processor does not come old.
\<close>

section \<open>Operations\<close>

definition exception_messages :: "cstr list" where
  "exception_messages = map lit
    [''Divide By Zero'', ''Debug'', ''Non Maskable Interrupt'', ''Breakpoint'',
     ''Overflow'', ''Bound Range Exceeded'', ''Invalid Opcode'', ''Device Not Available'',
     ''Double Fault'', ''Coprocessor Segment Overrun'', ''Invalid TSS'', ''Segment Not Present'',
     ''Stack Fault'', ''General Protection Fault'', ''Page Fault'', ''Reserved'',
     ''x87 Floating Point'', ''Alignment Check'', ''Machine Check'', ''SIMD Floating Point'',
     ''Virtualization'', ''Control Protection'', ''Reserved'', ''Reserved'',
     ''Reserved'', ''Reserved'', ''Reserved'', ''Reserved'',
     ''Hypervisor Injection'', ''VMM Communication'', ''Security Exception'', ''Reserved'']"

abbreviation KERNEL_HEAP_START :: u32 where "KERNEL_HEAP_START \<equiv> 0x400000"
abbreviation KERNEL_HEAP_END :: u32 where "KERNEL_HEAP_END \<equiv> 0x800000"

definition page_fault_handler :: "registers_t \<Rightarrow> 'a paging_scheme \<Rightarrow> 'a paging_scheme outcome option" where
  "page_fault_handler r s =
     (let fault_addr = debug_get_cr2 s;
          aligned_addr = fault_addr AND 0xFFFFF000;
          not_present = (err_code r AND 0x1 = 0);
          write = (err_code r AND 0x2 \<noteq> 0);
          user = (err_code r AND 0x4 \<noteq> 0);
          reserved = (err_code r AND 0x8 \<noteq> 0);
          instr_fetch = (err_code r AND 0x10 \<noteq> 0)
      in if not_present \<and> \<not> user \<and> KERNEL_HEAP_START \<le> aligned_addr \<and> aligned_addr < KERNEL_HEAP_END
         then let (frame, s) = pmm_alloc_frame s
              in if frame = 0
                 then Some (debug_panic_from_exception r (lit ''Out of physical memory during demand paging'') s)
                 else map_option Returns (map_page aligned_addr frame s)
         else let s = seq_do
                   [vga_print (lit ''\<newline>=== FATAL PAGE FAULT ===\<newline>''),
                    vga_print (lit ''Fault Address: ''), vga_print_hex fault_addr, vga_print (lit ''\<newline>''),
                    vga_print (lit ''Flags:''),
                    vga_print (if not_present then lit '' [Not Present]'' else lit '' [Protection Violation]''),
                    vga_print (if write then lit '' [Write]'' else lit '' [Read]''),
                    vga_print (if user then lit '' [User Mode]'' else lit '' [Kernel Mode]''),
                    vga_print (if reserved then lit '' [Reserved Bit]'' else []),
                    vga_print (if instr_fetch then lit '' [Instruction Fetch]'' else []),
                    vga_print (lit ''\<newline>'')] s
              in Some (debug_panic_from_exception r (lit ''Unhandled Page Fault'') s))"

definition isr_handler :: "registers_t \<Rightarrow> 'a paging_scheme \<Rightarrow> 'a paging_scheme outcome option" where
  "isr_handler r s =
     (if int_no r < 32
      then if int_no r = 14 then page_fault_handler r s
           else Some (debug_panic_from_exception r (exception_messages ! unat (int_no r)) s)
      else if 32 \<le> int_no r \<and> int_no r \<le> 47
      then let s = (if int_no r = 32 then timer_tick s
                    else if int_no r = 33 then keyboard_irq_handler s
                    else s)
           in Some (Returns (pic_send_eoi (ucast (int_no r - 32)) s))
      else Some (Returns s))"

section \<open>What a handler leaves alone\<close>

text \<open>The fields the memory management works with.\<close>

definition same_memory :: "'a paging_scheme \<Rightarrow> 'a paging_scheme \<Rightarrow> bool" where
  "same_memory s t \<longleftrightarrow> page_directory t = page_directory s \<and> page_tables t = page_tables s
     \<and> table_mem t = table_mem s \<and> bitmap t = bitmap s \<and> total_frames t = total_frames s"

lemma same_memory_available:
  assumes "same_memory s t"
  shows "available t = available s" "translate t = translate s" "paging_ok t = paging_ok s"
    "page_tables t = page_tables s"
proof -
  show a: "available t = available s"
    using assms by (simp add: same_memory_def available_def scanned_def frame_used_def)
  have m: "page_directory t = page_directory s" "table_mem t = table_mem s"
    using assms by (simp_all add: same_memory_def)
  show "translate t = translate s" by (rule ext) (simp add: translate_def m Let_def)
  show "page_tables t = page_tables s" using assms by (simp add: same_memory_def)
  show "paging_ok t = paging_ok s"
    using assms unfolding paging_ok_def a by (simp add: same_memory_def pmm_ok_def)
qed

lemma irq_memory:
  "same_memory s (timer_tick s)" "same_memory s (keyboard_irq_handler s)" "same_memory s (pic_send_eoi i s)"
  by (simp_all add: same_memory_def timer_tick_def keyboard_irq_handler_def keyboard_read_scancode_def
      inb_def pic_send_eoi_def outb_def keyboard_store_def Let_def)

lemma same_memory_trans: "same_memory s t \<Longrightarrow> same_memory t u \<Longrightarrow> same_memory s u"
  by (simp add: same_memory_def)

text \<open>The cases in which a handler returns.\<close>

definition heap_fault :: "registers_t \<Rightarrow> 'a paging_scheme \<Rightarrow> bool" where
  "heap_fault r s \<longleftrightarrow> int_no r = 14 \<and> err_code r AND 1 = 0 \<and> err_code r AND 4 = 0
     \<and> 0x400000 \<le> r_cr2 (regs s) \<and> r_cr2 (regs s) < 0x800000"

lemma page_in_heap:
  fixes v :: u32
  shows "0x400000 \<le> v AND 0xFFFFF000 \<longleftrightarrow> 0x400000 \<le> v" "v AND 0xFFFFF000 < 0x800000 \<longleftrightarrow> v < 0x800000"
proof -
  have e: "unat (v AND 0xFFFFF000) = unat v div 4096 * 4096"
  proof -
    have "v AND NOT (mask 12) = push_bit 12 (drop_bit 12 v)"
      by (rule bit_word_eqI) (auto simp: bit_simps)
    moreover have "unat v < 2 ^ LENGTH(32)" by (rule unsigned_less)
    then have "unat v div 4096 * 4096 < 2 ^ 32"
      using le_less_trans [OF div_times_less_eq_dividend] by simp
    ultimately show ?thesis
      unfolding page_mask by (simp add: push_bit_eq_mult unat_word_ariths unat_drop_bit_div)
  qed
  show "0x400000 \<le> v AND 0xFFFFF000 \<longleftrightarrow> 0x400000 \<le> v" "v AND 0xFFFFF000 < 0x800000 \<longleftrightarrow> v < 0x800000"
    using less_eq_div_iff_mult_less_eq [of 4096 1024 "unat v"] div_less_iff_less_mult [of 4096 "unat v" 2048]
    unfolding word_le_nat_alt word_less_nat_alt e by simp_all
qed

lemma isr_returns_cases:
  assumes "isr_handler r s = Some (Returns t)"
  obtains (quiet) "same_memory s t"
  | (mapped) frame s1 where "heap_fault r s" "pmm_alloc_frame s = (frame, s1)" "frame \<noteq> 0"
      "map_page (r_cr2 (regs s) AND 0xFFFFF000) frame s1 = Some t"
proof (cases "int_no r < 32")
  case True
  with assms have "int_no r = 14" "page_fault_handler r s = Some (Returns t)"
    by (auto simp: isr_handler_def debug_panic_from_exception_def split: if_splits)
  then show ?thesis using mapped
    by (auto simp: page_fault_handler_def Let_def debug_panic_from_exception_def heap_fault_def page_in_heap
        debug_get_cr2_def split: prod.splits if_splits)
next
  case False
  have "same_memory s t"
    using assms False irq_memory same_memory_trans
    by (auto simp: isr_handler_def Let_def split: if_splits) (auto simp: same_memory_def)
  then show ?thesis by (rule quiet)
qed


section \<open>Mapping and allocation\<close>

lemma table_set_memory [simp]:
  "available (table_set t i v s) = available s" "page_tables (table_set t i v s) = page_tables s"
  by (simp_all add: table_set_def)

lemma new_table_available:
  assumes "paging_ok s" and "page_tables s d = 0" and "new_table d s = Some (t, s')"
  shows "t \<in> available s \<and> available s' = available s - {t} \<and> page_tables s' = (page_tables s)(d := t)"
proof -
  obtain p s1 where a: "pmm_alloc_frame s = (p, s1)" by fastforce
  define s2 where "s2 = for_upto 1024 (\<lambda>i. table_set p (of_nat i) 0) s1"
  have av: "available s2 = available s1" and pt: "page_tables s2 = page_tables s1"
    by (subst clear_table(1) [where t = p and s = s1, folded s2_def]; simp)+
  have r: "t = p" "reachable_table p" "s' = s2\<lparr>page_directory := (page_directory s2)(d := p OR PRESENT OR WRITABLE),
       page_tables := (page_tables s2)(d := p)\<rparr>"
    using assms(3) by (auto simp: new_table_def a Let_def s2_def split: if_splits)
  have "p \<noteq> 0" using r(2) by (auto simp: reachable_table_def)
  moreover have "pmm_ok s" using assms(1) by (simp add: paging_ok_def)
  note pmm_alloc_available [OF this a]
  ultimately show ?thesis using pt pmm_alloc_paging [OF a] by (auto simp: r av)
qed

lemma map_page_Some:
  assumes "paging_ok s" and "map_page v p s = Some t"
  shows "can_map v s" "available t \<subseteq> available s"
    "\<And>d. page_tables t d = page_tables s d \<or> page_tables t d \<in> available s"
proof -
  have "can_map v s \<and> available t \<subseteq> available s
      \<and> (\<forall>d. page_tables t d = page_tables s d \<or> page_tables t d \<in> available s)"
  proof (cases "page_tables s (drop_bit 22 v) = 0")
    case True
    then obtain u s1 where n: "new_table (drop_bit 22 v) s = Some (u, s1)"
      "t = table_set u (drop_bit 12 v AND 0x3FF) ((p AND 0xFFFFF000) OR PRESENT OR WRITABLE) s1"
      using assms(2) by (auto simp: map_page_def Let_def bind_Some_iff split: if_splits)
    moreover have "can_map v s"
      using n(1) True by (auto simp: new_table_def can_map_def Let_def split: prod.splits if_splits)
    ultimately show ?thesis using new_table_available [OF assms(1) True n(1)] by auto
  next
    case False
    then show ?thesis using assms(2) by (auto simp: map_page_def can_map_def Let_def split: if_splits)
  qed
  then show "can_map v s" "available t \<subseteq> available s"
    "\<And>d. page_tables t d = page_tables s d \<or> page_tables t d \<in> available s" by blast+
qed

section \<open>Frames behind the heap\<close>

abbreviation page_of :: "u32 \<Rightarrow> u32" where "page_of v \<equiv> v AND 0xFFFFF000"
abbreviation heap_address :: "u32 \<Rightarrow> bool" where "heap_address v \<equiv> 0x400000 \<le> v \<and> v < 0x800000"

text \<open>Every page of the heap that is mapped has a frame of its own, which the frame allocator does not
  hand out again and which holds no page table.\<close>

definition heap_backed :: "'a paging_scheme \<Rightarrow> bool" where
  "heap_backed s \<longleftrightarrow> paging_ok s
     \<and> (\<forall>v p. heap_address v \<and> translate s v = Some p \<longrightarrow>
          page_of p \<noteq> 0 \<and> page_of p \<notin> available s \<and> (\<forall>d. page_tables s d \<noteq> page_of p)
          \<and> (\<forall>w q. heap_address w \<and> translate s w = Some q \<and> page_of q = page_of p \<longrightarrow> page_of w = page_of v))"

lemma page_of_simps:
  fixes f w :: u32
  assumes "f AND 0xFFF = 0"
  shows "page_of f = f" "page_of (f OR (w AND 0xFFF)) = f"
proof -
  show "page_of f = f" using assms page_parts [of f] by simp
  then show "page_of (f OR (w AND 0xFFF)) = f"
    using assms unfolding page_mask
    by (intro bit_word_eqI) (auto simp: bit_simps dest: arg_cong [where f = "\<lambda>x. bit x _"])
qed

lemma page_of_page [simp]: "page_of (page_of v) = page_of v"
  by (simp add: and.assoc)

lemma alloc_keeps_paging:
  assumes ok: "paging_ok s" and a: "pmm_alloc_frame s = (f, s1)" and f0: "f \<noteq> 0"
  shows "paging_ok s1" "translate s1 = translate s" "available s1 = available s - {f}" "f \<in> available s"
    "f AND 0xFFF = 0" "page_tables s1 = page_tables s"
proof -
  have "pmm_ok s" using ok by (simp add: paging_ok_def)
  note av = pmm_alloc_available [OF this a] and al = pmm_alloc_paging [OF a]
  show "translate s1 = translate s" by (rule ext) (simp add: translate_def al Let_def)
  show 1: "available s1 = available s - {f}" "f \<in> available s" using av(2) f0 by auto
  then show "f AND 0xFFF = 0" by (blast intro: available_aligned)
  show "page_tables s1 = page_tables s" by (rule al)
  show "paging_ok s1" using ok av(1) unfolding paging_ok_def al 1(1) by (auto split: if_splits)
qed

lemma heap_backed_map:
  assumes hb: "heap_backed s" and a: "pmm_alloc_frame s = (f, s1)" and f0: "f \<noteq> 0"
    and m: "map_page (page_of v) f s1 = Some t"
  shows "\<And>w. translate t w = (if page_of w = page_of v then Some (f OR (w AND 0xFFF)) else translate s w)"
    and "heap_backed t"
proof -
  have ok: "paging_ok s" using hb by (simp add: heap_backed_def)
  note al = alloc_keeps_paging [OF ok a f0]
  note mp = map_page_Some [OF al(1) m]
  have f: "f AND 0xFFFFF000 = f" by (rule page_of_simps(1) [OF al(5)])
  from map_page_ok [OF al(1) mp(1), of f] m
  have t: "paging_ok t" "\<And>w. translate t w = (if page_of w = page_of v then Some (f OR (w AND 0xFFF)) else translate s w)"
    by (simp_all only: option.inject page_of_page f al(2)) auto
  then show "\<And>w. translate t w = (if page_of w = page_of v then Some (f OR (w AND 0xFFF)) else translate s w)" by blast
  have old: "page_of p \<noteq> 0 \<and> page_of p \<notin> available s \<and> (\<forall>d. page_tables s d \<noteq> page_of p)
      \<and> (\<forall>x q. heap_address x \<and> translate s x = Some q \<and> page_of q = page_of p \<longrightarrow> page_of x = page_of w)"
    if "heap_address w" "translate s w = Some p" for w p
    using hb that unfolding heap_backed_def by blast
  have pt: "page_tables t d \<noteq> g" if "g \<notin> available s1" "page_tables s d \<noteq> g" for d g
    using mp(3) [of d] that al(6) by metis
  have ptf: "page_tables s d \<noteq> f" for d
    using ok al(4) f0 unfolding paging_ok_def by metis
  have new: "page_of p = f" if "translate t w = Some p" "page_of w = page_of v" for w p
    using that page_of_simps(2) [OF al(5), of w] by (auto simp: t(2))
  have keep: "translate s w = Some p" if "translate t w = Some p" "page_of w \<noteq> page_of v" for w p
    using that by (simp add: t(2))
  have other: "page_of p \<noteq> f" if "heap_address w" "translate t w = Some p" "page_of w \<noteq> page_of v" for w p
    using old [OF that(1) keep [OF that(2,3)]] al(4) by blast
  have props: "page_of p \<noteq> 0 \<and> page_of p \<notin> available s1 \<and> (\<forall>d. page_tables s d \<noteq> page_of p)"
    if "heap_address w" "translate t w = Some p" for w p
  proof (cases "page_of w = page_of v")
    case True
    from new [OF that(2) True] show ?thesis using f0 ptf al(3) by simp
  next
    case False
    from old [OF that(1) keep [OF that(2) False]] show ?thesis using al(3) by blast
  qed
  have inj: "page_of x = page_of w"
    if w: "heap_address w" "translate t w = Some p" and x: "heap_address x" "translate t x = Some q" "page_of q = page_of p"
    for w p x q
  proof (cases "page_of w = page_of v")
    case True
    then have "page_of q = f" using new [OF w(2)] x(3) by simp
    then show ?thesis using True other [OF x(1,2)] by metis
  next
    case False
    then have "page_of q \<noteq> f" using other [OF w] x(3) by metis
    then have "page_of x \<noteq> page_of v" using new [OF x(2)] by blast
    with old [OF w(1) keep [OF w(2) False]] keep [OF x(2)] x show ?thesis by blast
  qed
  show "heap_backed t"
    unfolding heap_backed_def
  proof (intro conjI allI impI)
    fix w p assume w: "heap_address w \<and> translate t w = Some p"
    show "page_of p \<noteq> 0" "page_of p \<notin> available t" "page_tables t d \<noteq> page_of p" for d
      using props [of w p] w mp(2) pt [of "page_of p" d] by blast+
    show "page_of x = page_of w"
      if "heap_address x \<and> translate t x = Some q \<and> page_of q = page_of p" for x q
      using inj [of w p x q] w that by blast
  qed (rule t(1))
qed

text \<open>Any run of interrupts and exceptions from which the handler returns, in any order and with any
  fault addresses, between steps of the kernel that leave the tables and the frames alone.\<close>

inductive isr_run :: "'a paging_scheme \<Rightarrow> 'a paging_scheme \<Rightarrow> bool" for s0 where
  start: "isr_run s0 s0"
| trap: "isr_run s0 s \<Longrightarrow> isr_handler r (s\<lparr>regs := (regs s)\<lparr>r_cr2 := a\<rparr>\<rparr>) = Some (Returns t) \<Longrightarrow> isr_run s0 t"
| other: "isr_run s0 s \<Longrightarrow> same_memory s t \<Longrightarrow> isr_run s0 t"

lemma heap_backed_same: "same_memory s t \<Longrightarrow> heap_backed t = heap_backed s"
  by (simp add: heap_backed_def same_memory_available)

lemma heap_backed_isr:
  assumes "heap_backed s" and "isr_handler r s = Some (Returns t)"
  shows "heap_backed t"
  using assms(2)
proof (cases rule: isr_returns_cases)
  case quiet
  then show ?thesis using assms(1) heap_backed_same by blast
next
  case (mapped frame s1)
  then show ?thesis using heap_backed_map(2) [OF assms(1)] by blast
qed

lemma isr_run_backed: "isr_run s0 s \<Longrightarrow> heap_backed s0 \<Longrightarrow> heap_backed s"
proof (induction rule: isr_run.induct)
  case (trap s r a t)
  have "same_memory s (s\<lparr>regs := (regs s)\<lparr>r_cr2 := a\<rparr>\<rparr>)" by (simp add: same_memory_def)
  then show ?case using trap heap_backed_same heap_backed_isr by blast
qed (simp_all add: heap_backed_same)

lemma paging_init_backed:
  assumes "pmm_ok s" and "fst (pmm_alloc_frame s) \<noteq> 0" and "fresh_tables s"
  shows "heap_backed (paging_init pd s)"
proof -
  note m = paging_init_map [OF assms, of pd]
  have "translate (paging_init pd s) v = None" if "heap_address v" for v
    using m [of v] that by (simp add: not_less)
  moreover have "paging_ok (paging_init pd s)" using m by blast
  ultimately show ?thesis unfolding heap_backed_def by (metis option.distinct(1))
qed

text \<open>The first touch of a heap page.\<close>

lemma heap_fault_maps:
  assumes "heap_backed s" and "heap_fault r s"
    and "pmm_alloc_frame s = (frame, s1)" and "frame \<noteq> 0" and "can_map (page_of (r_cr2 (regs s))) s1"
  obtains t where "map_page (page_of (r_cr2 (regs s))) frame s1 = Some t" "isr_handler r s = Some (Returns t)"
    "heap_backed t" "frame \<in> available s"
    "\<And>w. translate t w = (if page_of w = page_of (r_cr2 (regs s)) then Some (frame OR (w AND 0xFFF)) else translate s w)"
proof -
  have "paging_ok s" using assms(1) by (simp add: heap_backed_def)
  note al = alloc_keeps_paging [OF this assms(3,4)]
  obtain t where t: "map_page (page_of (r_cr2 (regs s))) frame s1 = Some t"
    using map_page_ok [OF al(1) assms(5)] by blast
  have "isr_handler r s = Some (Returns t)"
    using assms(2-4) t
    by (simp add: isr_handler_def page_fault_handler_def heap_fault_def Let_def debug_get_cr2_def page_in_heap)
  then show ?thesis using that [OF t] heap_backed_map [OF assms(1,3,4) t] al(4) by blast
qed

section \<open>Properties\<close>

text \<open>C23: the first touch of a heap page brings it in: the handler returns, the page of the faulting
  address is mapped to a frame that was free until now, every other page keeps its translation, and
  the tables stay well formed.\<close>

theorem demand_paging:
  assumes "heap_backed s" and "heap_fault r s"
    and "pmm_alloc_frame s = (frame, s1)" and "frame \<noteq> 0" and "can_map (page_of (r_cr2 (regs s))) s1"
  shows "\<exists>t. isr_handler r s = Some (Returns t) \<and> heap_backed t \<and> frame \<in> available s
    \<and> (\<forall>w. translate t w = (if page_of w = page_of (r_cr2 (regs s)) then Some (frame OR (w AND 0xFFF))
                              else translate s w))"
  using heap_fault_maps [OF assms] by metis

text \<open>A fault at the start of the heap right after \<open>paging_init\<close>.\<close>

definition heap_touch :: registers_t where
  "heap_touch = \<lparr>rg_ds = 0, rg_edi = 0, rg_esi = 0, rg_ebp = 0, rg_esp = 0, rg_ebx = 0, rg_edx = 0, rg_ecx = 0,
     rg_eax = 0, int_no = 14, err_code = 2, rg_eip = 0, rg_cs = 8, rg_eflags = 0, rg_useresp = 0, rg_ss = 0\<rparr>"

definition touched :: heap where
  "touched = power_on\<lparr>total_frames := 64, bitmap := (\<lambda>_. 3), regs := reset_regs\<lparr>r_cr2 := 0x400010\<rparr>,
     page_tables := (\<lambda>d. if d = 1 then 0x1000 else 0), page_directory := (\<lambda>d. if d = 1 then 0x1003 else 0)\<rparr>"

lemma touched_backed: "heap_backed touched"
proof -
  have f1: "frame_used touched 1"
    by (simp add: frame_used_def touched_def)
  have "0x1000 \<notin> available touched"
  proof
    assume "0x1000 \<in> available touched"
    then obtain g where g: "(0x1000 :: u32) = of_nat g * FRAME_SIZE" "g < scanned touched"
      "\<not> frame_used touched (of_nat g)"
      by (auto simp: available_def)
    have ok: "pmm_ok touched" by (simp add: pmm_ok_def touched_def)
    from arg_cong [OF g(1), of unat] have "g = 1" using unat_frame_addr [OF ok g(2)] by simp
    with g(3) f1 show False by simp
  qed
  then have ok: "paging_ok touched"
    by (auto simp: paging_ok_def) (simp_all add: touched_def pmm_ok_def power_on_def split: if_splits)
  have "translate touched v = None" for v
    by (simp add: translate_def touched_def power_on_def Let_def)
  with ok show ?thesis by (simp add: heap_backed_def)
qed

lemma touched_alloc: "pmm_alloc_frame touched = (0x2000, set_frame 2 touched)"
proof -
  have "first_free_frame touched = 2"
    by (simp add: first_free_frame_def touched_def upt_rec free_bit_def)
  then show ?thesis by (simp add: pmm_alloc_frame_def)
qed

theorem demand_paging_witness:
  "\<exists>t. isr_handler heap_touch touched = Some (Returns t) \<and> translate t 0x400010 = Some 0x2010"
proof -
  have "heap_fault heap_touch touched" by (simp add: heap_fault_def heap_touch_def touched_def)
  moreover have "can_map (page_of (r_cr2 (regs touched))) (set_frame 2 touched)"
    by (simp add: can_map_def touched_def set_frame_def reachable_table_def)
  ultimately obtain t where "isr_handler heap_touch touched = Some (Returns t)"
    "translate t 0x400010 = (if page_of 0x400010 = page_of (r_cr2 (regs touched)) then Some (0x2000 OR (0x400010 AND 0xFFF))
                              else translate touched 0x400010)"
    using demand_paging [OF touched_backed _ touched_alloc, of heap_touch] by auto
  then show ?thesis by (intro exI [of _ t]) (simp add: touched_def)
qed

text \<open>C24: whatever sequence of interrupts and faults the machine takes after \<open>paging_init\<close>, no two pages of
  the heap ever share a frame, and no frame behind the heap holds a page table or can be handed out
  again.\<close>

theorem heap_frames_distinct:
  assumes "isr_run (paging_init pd s) t"
    and "pmm_ok s" and "fst (pmm_alloc_frame s) \<noteq> 0" and "fresh_tables s"
  shows "heap_backed t"
  using isr_run_backed [OF assms(1) paging_init_backed [OF assms(2-4)]] .

theorem heap_frames_distinct_witness:
  "\<exists>t. isr_handler (heap_touch\<lparr>int_no := 32\<rparr>) (paging_init 0x5000 small_pmm) = Some (Returns t) \<and> heap_backed t"
proof -
  define s where "s = paging_init 0x5000 small_pmm"
  define t where "t = pic_send_eoi 0 (timer_tick s)"
  have t: "isr_handler (heap_touch\<lparr>int_no := 32\<rparr>) s = Some (Returns t)"
    by (simp add: isr_handler_def heap_touch_def t_def)
  have "same_memory s t" unfolding t_def by (rule same_memory_trans [OF irq_memory(1) irq_memory(3)])
  then have "isr_run s t" by (rule isr_run.other [OF isr_run.start])
  then have "heap_backed t"
    unfolding s_def by (rule heap_frames_distinct)
      (simp_all add: small_pmm_alloc, simp_all add: small_pmm_def pmm_ok_def fresh_tables_def power_on_def)
  with t show ?thesis by (auto simp: s_def)
qed

lemma exception_text:
  assumes "n < 32"
  shows "(\<forall>c \<in> set (exception_messages ! n). plain c) \<and> length (exception_messages ! n) \<le> 71"
proof -
  have "\<forall>m \<in> set exception_messages. (\<forall>c \<in> set m. plain c) \<and> length m \<le> 71"
    by (simp add: exception_messages_def lit_simps plain_def)
  moreover have "length exception_messages = 32" by (simp add: exception_messages_def)
  ultimately show ?thesis using assms by (metis nth_mem)
qed

text \<open>C25: every exception but a page fault is final: interrupts are off and the panic screen names the
  exception.\<close>

theorem exceptions_halt:
  assumes "int_no r < 32" and "int_no r \<noteq> 14"
  shows "\<exists>t. isr_handler r s = Some (Halts t) \<and> \<not> interrupts_on t \<and> vga.more t = vga.more s
    \<and> (let msg = exception_messages ! unat (int_no r)
       in \<forall>k < 11 + length msg. terminal_buffer t (of_nat (560 + k)) = vga_entry ((lit ''Exception: '' @ msg) ! k) 0x4F)"
proof -
  have "unat (int_no r) < 32" using assms(1) by (simp add: word_less_nat_alt)
  from exception_text [OF this] exception_shows [of "exception_messages ! unat (int_no r)" r s]
  show ?thesis using assms by (auto simp: isr_handler_def Let_def)
qed

theorem exceptions_halt_witness:
  "\<exists>t. isr_handler (heap_touch\<lparr>int_no := 13\<rparr>) power_on = Some (Halts t) \<and> \<not> interrupts_on t"
  using exceptions_halt [of "heap_touch\<lparr>int_no := 13\<rparr>" power_on] by (auto simp: heap_touch_def)

text \<open>C26: a hardware interrupt always returns; the timer's is the only one that moves the clock, and the
  controllers are acknowledged. The acknowledgement of the keyboard interrupt is sent twice, by the
  keyboard driver and again here.\<close>

theorem irq_acknowledged:
  assumes "32 \<le> int_no r" and "int_no r \<le> 47"
  shows "\<exists>t l. isr_handler r s = Some (Returns t)
    \<and> ticks t = ticks s + (if int_no r = 32 then 1 else 0)
    \<and> port_log t = port_log s @ l @ (if 40 \<le> int_no r then [OutB 0xA0 0x20] else []) @ [OutB 0x20 0x20]
    \<and> (if int_no r = 33 then \<exists>c. l = [InB 0x60 c, OutB 0x20 0x20] else l = [])"
proof -
  have big: "unat (int_no r - 32) = unat (int_no r) - 32"
    using assms(1) by (simp add: unat_diff_small word_le_nat_alt)
  have "8 \<le> (ucast (int_no r - 32) :: u8) \<longleftrightarrow> 40 \<le> int_no r"
    using assms by (auto simp: word_le_nat_alt unat_ucast_mod big)
  moreover have "\<not> int_no r < 32" using assms(1) by (simp add: not_less)
  moreover have tk: "ticks (pic_send_eoi i u) = ticks u" for i and u :: "'a paging_scheme"
    by (simp add: pic_send_eoi_def outb_def Let_def)
  moreover have "port_log (timer_tick u) = port_log u" for u :: "'a paging_scheme"
    by (simp add: timer_tick_def Let_def)
  moreover have "ticks (keyboard_irq_handler u) = ticks u" for u :: "'a paging_scheme"
    by (simp add: keyboard_irq_handler_def keyboard_read_scancode_def inb_def pic_send_eoi_def outb_def
        keyboard_store_def Let_def)
  moreover have "\<not> 8 \<le> (1 :: u8)" by (simp add: word_le_nat_alt)
  then have "\<exists>c. port_log (keyboard_irq_handler u) = port_log u @ [InB 0x60 c, OutB 0x20 0x20]"
    for u :: "'a paging_scheme"
    by (simp add: keyboard_irq_handler_def keyboard_read_scancode_def inb_def pic_send_eoi_def outb_def
        keyboard_store_def Let_def)
  then obtain c where "port_log (keyboard_irq_handler s) = port_log s @ [InB 0x60 c, OutB 0x20 0x20]" by blast
  ultimately show ?thesis using assms
    by (auto simp: isr_handler_def pic_send_eoi_log Let_def)
qed

theorem irq_acknowledged_witness:
  "\<exists>t. isr_handler (heap_touch\<lparr>int_no := 32\<rparr>) power_on = Some (Returns t) \<and> ticks t = 1
     \<and> port_log t = [OutB 0x20 0x20]"
  using irq_acknowledged [of "heap_touch\<lparr>int_no := 32\<rparr>" power_on]
  by (auto simp: heap_touch_def power_on_def)

end
