(* ===== verification/Commands.thy ===== *)
theory Commands
  imports Fd Parse Interrupts
begin

text \<open>
  The commands of \<open>shell/shell.c\<close>, and the strings of \<open>include/system.c\<close>. Arguments are readers into the line that was cut
  into words. \<open>None\<close> is a fault or a loop without end; a panic halts (\<open>Halts\<close>). \<open>wake\<close> is what the
  interrupts of one halt do (see theory Clock). Interrupts between two halts are not interleaved with
  the code of a command.
\<close>

section \<open>\<open>include/system.c\<close>\<close>

definition KERNEL_VERSION :: cstr where
  "KERNEL_VERSION = lit ''0.1.1-dev''"

definition boot_logo :: cstr where
  "boot_logo =
     lit ''---------------------------------------\<newline>''
     @ lit ''  __                          _   __ \<newline>''
     @ lit '' (_  ._   _. _|_     |  _.   / '' @ [0x5C] @ lit '' (_  \<newline>''
     @ lit '' __) |_) (_|  |_ |_| | (_|   '' @ [0x5C] @ lit ''_/ __) \<newline>''
     @ lit ''     |                                \<newline>''
     @ lit ''---------------------------------------\<newline>\<newline>''"

abbreviation BOOT_LOGO_COLOR :: u8 where "BOOT_LOGO_COLOR \<equiv> 0x0B"

section \<open>State\<close>

text \<open>\<open>KERNEL_BUILD_DATE\<close> is the text the compiler puts for the date and time of the build.\<close>

record shell = fd +
  last_alloc :: u32
  cwd :: u32
  mode :: u32
  echo_buffer :: "u8 list"
  kernel_build_date :: cstr

definition print_all :: "string list \<Rightarrow> 'a vga_scheme \<Rightarrow> 'a vga_scheme" where
  "print_all ts = seq_do (map (\<lambda>t. vga_print (lit t)) ts)"

abbreviation print_text :: "string \<Rightarrow> 'a vga_scheme \<Rightarrow> 'a vga_scheme" where
  "print_text t \<equiv> vga_print (lit t)"

section \<open>Files and directories\<close>

definition cmd_cur :: "reader list \<Rightarrow> 'a shell_scheme \<Rightarrow> 'a shell_scheme option" where
  "cmd_cur argv s =
     (if length argv \<noteq> 2 then Some (print_text ''Usage: cur <0-4>\<newline>'' s)
      else do {
        preset \<leftarrow> atoi (argv ! 1);
        Some (if preset = 0 then print_text ''Cursor: disabled\<newline>'' (vga_disable_cursor s)
              else if preset = 1 then print_text ''Cursor: underline\<newline>'' (vga_enable_cursor 14 15 s)
              else if preset = 2 then print_text ''Cursor: half block\<newline>'' (vga_enable_cursor 8 15 s)
              else if preset = 3 then print_text ''Cursor: full block\<newline>'' (vga_enable_cursor 0 15 s)
              else if preset = 4 then print_text ''Cursor: thin line\<newline>'' (vga_enable_cursor 15 15 s)
              else print_text ''Invalid preset (1-4)\<newline>'' s) })"

text \<open>A path argument: absolute, or from the working directory.\<close>

definition resolve_arg :: "reader \<Rightarrow> 'a shell_scheme \<Rightarrow> u32 option" where
  "resolve_arg arg s = do {
     c \<leftarrow> arg 0;
     if c = 0x2F then vfs_lookup arg s else path_resolve (cwd s) arg s }"

definition cmd_cd :: "reader list \<Rightarrow> 'a shell_scheme \<Rightarrow> 'a shell_scheme option" where
  "cmd_cd argv s =
     (if length argv < 2 then Some (s\<lparr>cwd := vfs_root s\<rparr>)
      else do {
        target \<leftarrow> resolve_arg (argv ! 1) s;
        if target = 0 then Some (print_text ''Path not found\<newline>'' s)
        else do {
          flags \<leftarrow> ld32 (ram s) (target + NODE_FLAGS);
          if flags AND VFS_DIR = 0 then Some (print_text ''Not a directory\<newline>'' s)
          else Some (s\<lparr>cwd := target\<rparr>) } })"

definition cmd_ls :: "reader list \<Rightarrow> 'a shell_scheme \<Rightarrow> 'a shell_scheme option" where
  "cmd_ls argv s = do {
     dir \<leftarrow> (if 2 \<le> length argv then resolve_arg (argv ! 1) s else Some (cwd s));
     if dir = 0 then Some (print_text ''Path not found\<newline>'' s)
     else do {
       flags \<leftarrow> ld32 (ram s) (dir + NODE_FLAGS);
       if flags AND VFS_DIR = 0 then Some (print_text ''Not a directory\<newline>'' s)
       else do {
         _ \<leftarrow> ramfs_node dir s;
         if \<not> op_list s then Some (print_text ''List not supported\<newline>'' s)
         else map_option snd (ramfs_list dir s) } } }"

text \<open>The words are written one after the other with a space in between.\<close>

fun write_words :: "i32 \<Rightarrow> reader list \<Rightarrow> 'a fd_scheme \<Rightarrow> 'a fd_scheme option" where
  "write_words fd [] s = Some s"
| "write_words fd (w # ws) s = do {
     len \<leftarrow> strlen w;
     (_, s) \<leftarrow> sys_write fd w len s;
     (_, s) \<leftarrow> (if ws \<noteq> [] then sys_write fd (str_at (lit '' '')) 1 s else Some (0, s));
     write_words fd ws s }"

definition cmd_write :: "reader list \<Rightarrow> 'a shell_scheme \<Rightarrow> 'a shell_scheme option" where
  "cmd_write argv s =
     (if length argv < 3 then Some (print_text ''Usage: write <file> <text>\<newline>'' s)
      else do {
        (fd, s) \<leftarrow> sys_open (argv ! 1) s;
        if sint fd < 0 then Some (print_text ''File not found\<newline>'' s)
        else do {
          s \<leftarrow> Some (snd (sys_seek fd 0 s));
          s \<leftarrow> write_words fd (drop 2 argv) s;
          s \<leftarrow> Some (sys_close fd s);
          Some (print_text ''Written.\<newline>'' s) } })"

definition cmd_rd :: "reader list \<Rightarrow> 'a shell_scheme \<Rightarrow> 'a shell_scheme option" where
  "cmd_rd argv s =
     (if length argv < 2 then Some (print_text ''Usage: rd <file>\<newline>'' s)
      else do {
        (fd, s) \<leftarrow> sys_open (argv ! 1) s;
        if sint fd < 0 then Some (print_text ''File not found\<newline>'' s)
        else do {
          s \<leftarrow> Some (snd (sys_seek fd 0 s));
          (read, buffer, s) \<leftarrow> sys_read fd (replicate 256 0) 255 s;
          s \<leftarrow> (if 0 < sint read
                then do { text \<leftarrow> read_str (buf_at buffer 0); Some (vga_print text s) }
                else Some s);
          Some (sys_close fd (print_text ''\<newline>'' s)) } })"

text \<open>Creating a file in a directory through its operation table.\<close>

definition create_file :: "u32 \<Rightarrow> reader \<Rightarrow> string \<Rightarrow> 'a shell_scheme \<Rightarrow> 'a shell_scheme option" where
  "create_file dir name done s = do {
     _ \<leftarrow> ramfs_node dir s;
     (r, s) \<leftarrow> (if op_create s then ramfs_create dir name VFS_FILE s else None);
     Some (print_text (if r \<noteq> 0 then ''Failed to create file\<newline>'' else done) s) }"

definition cmd_mk :: "reader list \<Rightarrow> 'a shell_scheme \<Rightarrow> 'a shell_scheme option" where
  "cmd_mk argv s =
     (if length argv < 2 then Some (print_text ''Usage: mk <file>\<newline>'' s)
      else if cwd s = 0 then Some (print_text ''No working directory\<newline>'' s)
      else create_file (cwd s) (argv ! 1) ''File created\<newline>'' s)"

definition cmd_mkr :: "reader list \<Rightarrow> 'a shell_scheme \<Rightarrow> 'a shell_scheme option" where
  "cmd_mkr argv s =
     (if length argv < 2 then Some (print_text ''Usage: mkr <file>\<newline>'' s)
      else do {
        tmp \<leftarrow> vfs_lookup (str_at (lit ''/tmp'')) s;
        if tmp = 0 then Some (print_text ''/tmp not found\<newline>'' s)
        else do {
          flags \<leftarrow> ld32 (ram s) (tmp + NODE_FLAGS);
          if flags AND VFS_DIR = 0 then Some (print_text ''/tmp is not a directory\<newline>'' s)
          else create_file tmp (argv ! 1) ''RAM file created\<newline>'' s } })"

section \<open>Text\<close>

fun print_codes :: "reader list \<Rightarrow> 'a shell_scheme \<Rightarrow> 'a shell_scheme option" where
  "print_codes [] s = Some (print_text ''\<newline>'' s)"
| "print_codes (a # as) s = do {
     value \<leftarrow> atoi a;
     if sint value < 0 \<or> 255 < sint value then Some (print_text ''Invalid ASCII code\<newline>'' s)
     else print_codes as (vga_putchar (ucast value) s) }"

definition cmd_inttoascii :: "reader list \<Rightarrow> 'a shell_scheme \<Rightarrow> 'a shell_scheme option" where
  "cmd_inttoascii argv s =
     (if length argv < 2 then Some (print_text ''Usage: inttoascii <ascii codes...>\<newline>'' s)
      else print_codes (drop 1 argv) (print_text ''ASCII: '' s))"

text \<open>A character is signed, so the number printed for a byte above 127 is that of its 32-bit sign extension.\<close>

partial_function (option) print_bytes :: "reader \<Rightarrow> 'a shell_scheme \<Rightarrow> 'a shell_scheme option" where
  "print_bytes arg s = do {
     c \<leftarrow> arg 0;
     if c \<noteq> 0 then print_bytes (adv arg) (vga_print_dec (scast c) (print_text '' '' s)) else Some s }"

definition cmd_asciitoint :: "reader list \<Rightarrow> 'a shell_scheme \<Rightarrow> 'a shell_scheme option" where
  "cmd_asciitoint argv s =
     (if length argv \<noteq> 2 then Some (print_text ''Usage: asciitoint <anything>\<newline>'' s)
      else map_option (print_text ''\<newline>'') (print_bytes (argv ! 1) (print_text ''\<newline>ASCII code: '' s)))"

text \<open>Arithmetic on \<open>int\<close> wraps around. The quotient of a division is computed and dropped, because the
  \<open>return\<close> in that case is outside of the \<open>else\<close>.\<close>

text \<open>The quotient of a division is computed and dropped; -2147483648 / -1 does not fit and raises a divide error.\<close>

definition cmd_calc :: "reader list \<Rightarrow> 'a shell_scheme \<Rightarrow> 'a shell_scheme option" where
  "cmd_calc argv s =
     (if length argv \<noteq> 4 then Some (print_text ''Usage: eval <a> <op> <b>\<newline>'' s)
      else do {
        a \<leftarrow> atoi (argv ! 1);
        b \<leftarrow> atoi (argv ! 3);
        op \<leftarrow> (argv ! 2) 0;
        if op = 0x2F
        then if b = 0 then Some (print_text ''Division by zero!\<newline>'' s)
             else if a = 0x80000000 \<and> b = - 1 then None
             else Some s
        else let result = (if op = 0x2B then a + b else if op = 0x2D then a - b
                           else if op = 0x2A then a * b else 0)
        in do {
          buf \<leftarrow> utoa buf_put (\<lambda>b. buf_at b 0) result 10 (replicate 32 0);
          text \<leftarrow> read_str (buf_at buf 0);
          Some (print_text ''\<newline>'' (vga_print text s)) } })"

text \<open>Joining the arguments in a static buffer, as \<open>echo\<close> and \<open>panic\<close> do.\<close>

fun join_args :: "bool \<Rightarrow> reader list \<Rightarrow> u8 list \<Rightarrow> u8 list option" where
  "join_args initial [] buffer = Some buffer"
| "join_args initial (a # as) buffer = do {
     buffer \<leftarrow> (if initial then Some buffer else strcat buf_put (\<lambda>b. buf_at b 0) (\<lambda>_. str_at (lit '' '')) buffer);
     buffer \<leftarrow> strcat buf_put (\<lambda>b. buf_at b 0) (\<lambda>_. a) buffer;
     join_args False as buffer }"

definition cmd_echo :: "reader list \<Rightarrow> 'a shell_scheme \<Rightarrow> 'a shell_scheme option" where
  "cmd_echo argv s = do {
     buffer \<leftarrow> join_args True (drop 1 argv) ((echo_buffer s)[0 := 0]);
     s \<leftarrow> Some (s\<lparr>echo_buffer := buffer\<rparr>);
     text \<leftarrow> read_str (buf_at buffer 0);
     Some (print_text ''\<newline>'' (vga_print text s)) }"

definition cmd_clear :: "reader list \<Rightarrow> 'a shell_scheme \<Rightarrow> 'a shell_scheme option" where
  "cmd_clear argv s = Some (vga_clear s)"

section \<open>Memory\<close>

definition cmd_heapval :: "reader list \<Rightarrow> 'a shell_scheme \<Rightarrow> 'a shell_scheme option" where
  "cmd_heapval argv s = heap_validate s"

definition cmd_heapinfo :: "reader list \<Rightarrow> 'a shell_scheme \<Rightarrow> 'a shell_scheme option" where
  "cmd_heapinfo argv s = heap_dump s"

fun dump_bytes :: "u32 \<Rightarrow> nat \<Rightarrow> nat \<Rightarrow> 'a shell_scheme \<Rightarrow> 'a shell_scheme option" where
  "dump_bytes ptr i 0 s = Some s"
| "dump_bytes ptr i (Suc k) s = do {
     s \<leftarrow> Some (if i mod 16 = 0
       then seq_do [print_text ''\<newline>'', vga_print_hex (ptr + of_nat i), print_text '': ''] s else s);
     val \<leftarrow> ld8 (ram s) (ptr + of_nat i);
     s \<leftarrow> Some (if val < 16 then print_text ''0'' s else s);
     dump_bytes ptr (i + 1) k (seq_do [vga_print_hex (ucast val), print_text '' ''] s) }"

definition cmd_memdump :: "reader list \<Rightarrow> 'a shell_scheme \<Rightarrow> 'a shell_scheme option" where
  "cmd_memdump argv s =
     (if length argv < 3 then Some (print_text ''Usage: memdump <addr> <bytes>\<newline>'' s)
      else do {
        addr \<leftarrow> atoi_hex (argv ! 1);
        bytes \<leftarrow> atoi (argv ! 2);
        if sint bytes \<le> 0 then Some (print_text ''Invalid byte count\<newline>'' s)
        else map_option (print_text ''\<newline>'') (dump_bytes addr 0 (unat bytes) s) })"

definition cmd_free :: "reader list \<Rightarrow> 'a shell_scheme \<Rightarrow> 'a shell_scheme option" where
  "cmd_free argv s =
     (if length argv < 2 then Some (print_text ''Usage: free <address>\<newline>'' s)
      else do {
        ptr \<leftarrow> atoi_hex (argv ! 1);
        if ptr = 0 then Some (print_text ''Invalid address\<newline>'' s)
        else do {
          s \<leftarrow> kfree ptr s;
          Some (seq_do [print_text ''Freed: '', vga_print_hex ptr, print_text ''\<newline>''] s) } })"

definition cmd_freelast :: "reader list \<Rightarrow> 'a shell_scheme \<Rightarrow> 'a shell_scheme option" where
  "cmd_freelast argv s =
     (if last_alloc s = 0 then Some (print_text ''No previous allocation\<newline>'' s)
      else do {
        s \<leftarrow> kfree (last_alloc s) s;
        s \<leftarrow> Some (seq_do [print_text ''Freed: '', vga_print_hex (last_alloc s), print_text ''\<newline>''] s);
        Some (s\<lparr>last_alloc := 0\<rparr>) })"

definition cmd_alloc :: "reader list \<Rightarrow> 'a shell_scheme \<Rightarrow> 'a shell_scheme option" where
  "cmd_alloc argv s =
     (if length argv < 2 then Some (print_text ''Usage: alloc <size>\<newline>'' s)
      else do {
        sz \<leftarrow> atoi (argv ! 1);
        if sint sz \<le> 0 then Some (print_text ''Invalid size\<newline>'' s)
        else do {
          (ptr, s) \<leftarrow> kmalloc sz s;
          if ptr = 0 then Some (print_text ''Allocation failed\<newline>'' s)
          else Some (seq_do [print_text ''Allocated at: '', vga_print_hex ptr, print_text ''\<newline>'']
                       (s\<lparr>last_alloc := ptr\<rparr>)) } })"

definition cmd_meminfo :: "reader list \<Rightarrow> 'a shell_scheme \<Rightarrow> 'a shell_scheme option" where
  "cmd_meminfo argv s =
     (let total = pmm_get_total_frames s; free = pmm_get_free_frames s
      in Some (seq_do
       [print_text ''Physical Memory:\<newline>'',
        print_text ''  Total frames: '', vga_print_dec total, print_text ''\<newline>'',
        print_text ''  Free frames:  '', vga_print_dec free, print_text ''\<newline>'',
        print_text ''  Used frames:  '', vga_print_dec (total - free), print_text ''\<newline>''] s))"

section \<open>System\<close>

definition cmd_cpuid :: "reader list \<Rightarrow> 'a shell_scheme \<Rightarrow> 'a shell_scheme option" where
  "cmd_cpuid argv s =
     Some (seq_do [print_text ''CPU: '', vga_print (upto_nul (cpu_get_brand s)), print_text ''\<newline>''] s)"

definition cmd_uptime :: "reader list \<Rightarrow> 'a shell_scheme \<Rightarrow> 'a shell_scheme option" where
  "cmd_uptime argv s =
     (let secs = timer_get_seconds s
      in Some (seq_do [print_text ''Uptime: '', vga_print_dec secs, print_text '' seconds\<newline>''] s))"

text \<open>The texts of \<open>help\<close>, one list of strings per category.\<close>

definition help_overview :: "string list" where
  "help_overview =
     [''[SYS]\<newline>'', '' help      sysfetch   cpuid\<newline>'', '' uptime    state      panic\<newline>'', '' shutdown  reboot     clear\<newline>'',
      ''\<newline>[MEM]\<newline>'', '' meminfo   heapinfo   heapval\<newline>'', '' alloc     free       freelast\<newline>'', '' memdump\<newline>'',
      ''\<newline>[UTIL]\<newline>'', '' echo      calc       encur\<newline>'', '' asciitoint inttoascii\<newline>'']"

definition help_sys :: "string list" where
  "help_sys =
     [''[SYS]\<newline>'', '' help\<newline>'', '' sysfetch\<newline>'', '' cpuid\<newline>'', '' uptime\<newline>'', '' state\<newline>'', '' panic <msg>\<newline>'',
      '' shutdown\<newline>'', '' reboot\<newline>'', '' clear\<newline>'']"

definition help_mem :: "string list" where
  "help_mem =
     [''[MEM]\<newline>'', '' meminfo\<newline>'', '' heapinfo\<newline>'', '' heapval\<newline>'', '' alloc <size>\<newline>'', '' free <addr>\<newline>'',
      '' freelast\<newline>'', '' memdump <addr> <n>\<newline>'']"

definition help_util :: "string list" where
  "help_util =
     [''[UTIL]\<newline>'', '' echo <text>\<newline>'', '' calc <a> <op> <b>\<newline>'', '' cur <0-4>\<newline>'', '' asciitoint <text>\<newline>'',
      '' inttoascii <nums>\<newline>'', ''\<newline>cur presets:\<newline>'', '' 0 - disabled\<newline>'', '' 1 - underline\<newline>'',
      '' 2 - half block\<newline>'', '' 3 - full block\<newline>'', '' 4 - thin line\<newline>'']"

definition cmd_help :: "reader list \<Rightarrow> 'a shell_scheme \<Rightarrow> 'a shell_scheme option" where
  "cmd_help argv s =
     (if length argv = 1 then Some (print_all help_overview s)
      else do {
        d \<leftarrow> strcmp (argv ! 1) (str_at (lit ''sys''));
        if d = 0 then Some (print_all help_sys s)
        else do {
          d \<leftarrow> strcmp (argv ! 1) (str_at (lit ''mem''));
          if d = 0 then Some (print_all help_mem s)
          else do {
            d \<leftarrow> strcmp (argv ! 1) (str_at (lit ''util''));
            if d = 0 then Some (print_all help_util s)
            else Some (print_text ''Unknown help category\<newline>'' s) } } })"

definition cmd_sysfetch :: "reader list \<Rightarrow> 'a shell_scheme \<Rightarrow> 'a shell_scheme option" where
  "cmd_sysfetch argv s =
     (let brand = cpu_get_brand s; total = pmm_get_total_frames s; free = pmm_get_free_frames s;
          secs = timer_get_seconds s
      in Some (seq_do
       [vga_print_color boot_logo BOOT_LOGO_COLOR,
        vga_print_color (lit ''Kernel build date: '') BOOT_LOGO_COLOR,
        vga_print_color (kernel_build_date s) 0xC,
        vga_print_color (lit ''\<newline>Version: '') BOOT_LOGO_COLOR,
        vga_print_color KERNEL_VERSION 0xC,
        print_text ''\<newline>\<newline>CPU:        '', vga_print (upto_nul brand), print_text ''\<newline>'',
        print_text ''Uptime:     '', vga_print_dec secs, print_text '' seconds\<newline>'',
        print_text ''Memory:     '', vga_print_dec (total - free), print_text ''/'', vga_print_dec total,
        print_text '' frames used\<newline>'',
        print_text ''Mode:       '',
        print_text (if mode s = 0 then ''kernel\<newline>'' else if mode s = 1 then ''root\<newline>'' else ''user\<newline>'')] s))"

text \<open>The 128 bytes of the static buffer are zero before the only use: a panic does not return.\<close>

definition cmd_panic :: "reader list \<Rightarrow> 'a shell_scheme \<Rightarrow> 'a shell_scheme outcome option" where
  "cmd_panic argv s =
     (if length argv < 2 then Some (debug_panic (lit ''Manual panic triggered'') s)
      else do {
        buffer \<leftarrow> join_args True (drop 1 argv) ((replicate 128 0)[0 := 0]);
        text \<leftarrow> read_str (buf_at buffer 0);
        Some (debug_panic text s) })"

definition cmd_state :: "reader list \<Rightarrow> 'a shell_scheme \<Rightarrow> 'a shell_scheme option" where
  "cmd_state argv s = Some (debug_print_segments s)"

definition cmd_shutdown ::
    "('a shell_scheme \<Rightarrow> 'a shell_scheme) \<Rightarrow> reader list \<Rightarrow> 'a shell_scheme \<Rightarrow> 'a shell_scheme option" where
  "cmd_shutdown wake argv s =
     map_option (vga_print_color (lit ''Unable to shutdown\<newline>'') 0xC)
       (sleep wake 1000 (outw 0x604 0x2000 (print_text ''Shutting down...\<newline>'' s)))"

definition cmd_reboot ::
    "('a shell_scheme \<Rightarrow> 'a shell_scheme) \<Rightarrow> reader list \<Rightarrow> 'a shell_scheme \<Rightarrow> 'a shell_scheme option" where
  "cmd_reboot wake argv s =
     map_option (vga_print_color (lit ''Unable to reboot\<newline>'') 0xC)
       (sleep wake 1000 (outb 0x64 0xFE (print_text ''Rebooting...\<newline>'' s)))"

end
