(* ===== verification/Shell.thy ===== *)
theory Shell
  imports Commands
begin

text \<open>
  \<open>shell/shell.c\<close>: the table of commands, the dispatch of a line, and the loop that feeds the shell with
  the characters of the keyboard.
\<close>

section \<open>Dispatch\<close>

type_synonym 's handler = "reader list \<Rightarrow> 's \<Rightarrow> 's outcome option"

definition returns :: "(reader list \<Rightarrow> 's \<Rightarrow> 's option) \<Rightarrow> 's handler" where
  "returns cmd = (\<lambda>argv s. map_option Returns (cmd argv s))"

definition commands :: "('a shell_scheme \<Rightarrow> 'a shell_scheme) \<Rightarrow> (string \<times> 'a shell_scheme handler) list" where
  "commands wake =
     [(''help'', returns cmd_help), (''panic'', cmd_panic), (''state'', returns cmd_state),
      (''uptime'', returns cmd_uptime), (''cpuid'', returns cmd_cpuid), (''meminfo'', returns cmd_meminfo),
      (''heapinfo'', returns cmd_heapinfo), (''alloc'', returns cmd_alloc), (''free'', returns cmd_free),
      (''freelast'', returns cmd_freelast), (''memdump'', returns cmd_memdump), (''heapval'', returns cmd_heapval),
      (''sysfetch'', returns cmd_sysfetch), (''shutdown'', returns (cmd_shutdown wake)),
      (''reboot'', returns (cmd_reboot wake)), (''clear'', returns cmd_clear), (''echo'', returns cmd_echo),
      (''calc'', returns cmd_calc), (''asciitoint'', returns cmd_asciitoint), (''inttoascii'', returns cmd_inttoascii),
      (''mk'', returns cmd_mk), (''mkr'', returns cmd_mkr), (''rd'', returns cmd_rd), (''write'', returns cmd_write),
      (''ls'', returns cmd_ls), (''cd'', returns cmd_cd), (''cur'', returns cmd_cur)]"

fun dispatch :: "(string \<times> 'a shell_scheme handler) list \<Rightarrow> 'a shell_scheme handler" where
  "dispatch [] argv s = Some (Returns (print_text ''Unknown command\<newline>'' s))"
| "dispatch ((name, handler) # cs) argv s = do {
     d \<leftarrow> strcmp (argv ! 0) (str_at (lit name));
     if d = 0 then handler argv s else dispatch cs argv s }"

text \<open>The local buffer of 256 bytes is written before it is read.\<close>

definition execute_command ::
    "('a shell_scheme \<Rightarrow> 'a shell_scheme) \<Rightarrow> reader \<Rightarrow> 'a shell_scheme \<Rightarrow> 'a shell_scheme outcome option" where
  "execute_command wake input s = do {
     local_buffer \<leftarrow> strcpy buf_put (\<lambda>_. input) 0 (replicate 256 0);
     (argv, local_buffer) \<leftarrow> parse_arguments local_buffer;
     if argv = [] then Some (Returns s)
     else dispatch (commands wake) (map (buf_at local_buffer) argv) s }"

section \<open>The prompt and the loop\<close>

definition shell_prompt :: "'a shell_scheme \<Rightarrow> 'a shell_scheme" where
  "shell_prompt s =
     (if mode s = 0 then print_text ''> '' (vga_print_color (lit ''kernel'') 0xC s)
      else if mode s = 1 then print_text ''> '' (vga_print_color (lit ''root'') 0xE s)
      else if mode s = 2 then print_text ''> '' (vga_print_color (lit ''user'') 0x9 s)
      else s)"

definition shell_init :: "'a shell_scheme \<Rightarrow> 'a shell_scheme" where
  "shell_init s = shell_prompt (s\<lparr>cwd := vfs_root s\<rparr>)"

definition shell_line ::
    "('a shell_scheme \<Rightarrow> 'a shell_scheme) \<Rightarrow> 'a shell_scheme \<Rightarrow> 'a shell_scheme outcome option" where
  "shell_line wake s = do {
     r \<leftarrow> execute_command wake (buf_at (console_get_line s) 0) (vga_putchar 10 s);
     Some (case r of Returns s \<Rightarrow> Returns (shell_prompt (console_clear_line s)) | Halts s \<Rightarrow> Halts s) }"

partial_function (option) shell_update ::
    "('a shell_scheme \<Rightarrow> 'a shell_scheme) \<Rightarrow> 'a shell_scheme \<Rightarrow> 'a shell_scheme outcome option" where
  "shell_update wake s =
     (if keyboard_has_input s
      then let (c, s) = keyboard_getchar s
      in if c = 10
         then do {
           r \<leftarrow> shell_line wake s;
           case r of Returns s \<Rightarrow> shell_update wake s | Halts s \<Rightarrow> Some (Halts s) }
         else shell_update wake (console_handle_char c s)
      else Some (Returns s))"

end
