(* ===== verification/Demand.thy ===== *)
theory Demand
  imports Interrupts
begin

text \<open>
  Demand paging as a step of the machine (the first touches of heap pages, each served by \<open>isr_handler\<close> of
  \<open>core/idt.c\<close>), what it leaves alone, and how many frames it needs: one for every page of the heap that is not
  there yet, and one more for the page table of the heap.
\<close>

section \<open>Touching pages\<close>

text \<open>What the processor does on accesses of the kernel to the given addresses, each with the registers it finds there: an
  address whose page is absent raises exception 14, with bit 0 (present) and bit 2 (user) of the error code clear.\<close>

fun page_in :: "(registers_t \<times> u32) list \<Rightarrow> 'a paging_scheme \<Rightarrow> 'a paging_scheme outcome option" where
  "page_in [] s = Some (Returns s)"
| "page_in ((r, v) # fs) s =
     (if translate s v \<noteq> None then page_in fs s
      else do {
        out \<leftarrow> isr_handler (r\<lparr>int_no := 14, err_code := err_code r AND 2\<rparr>) (s\<lparr>regs := (regs s)\<lparr>r_cr2 := v\<rparr>\<rparr>);
        case out of Returns s \<Rightarrow> page_in fs s | Halts s \<Rightarrow> Some (Halts s) })"

section \<open>What the handlers leave alone\<close>

locale paging_frame =
  fixes part :: "'a paging_scheme \<Rightarrow> 'b"
  assumes part_paging [simp]: "part (s\<lparr>page_directory := p, page_tables := q\<rparr>) = part s" "part (s\<lparr>table_mem := m\<rparr>) = part s"
      "part (s\<lparr>bitmap := b\<rparr>) = part s"
    and part_cr2 [simp]: "part (s\<lparr>regs := (regs s)\<lparr>r_cr2 := a\<rparr>\<rparr>) = part s"
begin

lemma alloc_frame_part: "pmm_alloc_frame s = (f, t) \<Longrightarrow> part t = part s"
  by (auto simp: pmm_alloc_frame_def set_frame_def Let_def split: if_splits)

lemma table_set_part [simp]: "part (table_set t i v s) = part s"
  by (simp add: table_set_def)

lemma new_table_part: "new_table d s = Some (f, t) \<Longrightarrow> part t = part s"
  by (auto simp: new_table_def Let_def for_upto_cong_result [where f = part] dest!: alloc_frame_part split: if_splits prod.splits)

lemma map_page_part: "map_page v p s = Some t \<Longrightarrow> part t = part s"
  by (auto simp: map_page_def Let_def bind_Some_iff dest!: new_table_part split: if_splits)

lemma fault_part:
  assumes "isr_handler r s = Some (Returns t)" and "int_no r < 32"
  shows "part t = part s"
proof -
  have "int_no r = 14" "page_fault_handler r s = Some (Returns t)"
    using assms by (auto simp: isr_handler_def debug_panic_from_exception_def split: if_splits)
  then show ?thesis
    by (auto simp: page_fault_handler_def Let_def debug_panic_from_exception_def
        dest!: alloc_frame_part map_page_part split: prod.splits if_splits)
qed

lemma page_in_part: "page_in fs s = Some (Returns t) \<Longrightarrow> part t = part s"
proof (induction fs s rule: page_in.induct)
  case (2 r v fs s)
  show ?case
  proof (cases "translate s v")
    case None
    then obtain out where out: "isr_handler (r\<lparr>int_no := 14, err_code := err_code r AND 2\<rparr>) (s\<lparr>regs := (regs s)\<lparr>r_cr2 := v\<rparr>\<rparr>) = Some out"
      using "2.prems" by (auto simp: bind_Some_iff)
    then obtain u where u: "out = Returns u" "page_in fs u = Some (Returns t)"
      using "2.prems" None by (cases out) simp_all
    have "part u = part s" using fault_part [OF out [unfolded u(1)]] by simp
    then show ?thesis using "2.IH"(2) [OF _ out u(1,2)] None by simp
  qed (use 2 in simp)
qed simp

end

locale trap_frame = paging_frame +
  assumes part_devices [simp]: "part (s\<lparr>port_log := l\<rparr>) = part s" "part (s\<lparr>ticks := n\<rparr>) = part s" "part (s\<lparr>seconds := n\<rparr>) = part s"
begin

lemma isr_part:
  assumes "isr_handler r s = Some (Returns t)" and "int_no r \<noteq> 33"
  shows "part t = part s"
proof (cases "int_no r < 32")
  case False
  have "part (pic_send_eoi i u) = part u" "part (timer_tick u) = part u" for i u
    by (simp_all add: pic_send_eoi_def outb_def timer_tick_def Let_def)
  then show ?thesis using assms False by (auto simp: isr_handler_def Let_def split: if_splits)
qed (use assms fault_part in blast)

end

text \<open>The memory of the heap with everything above it; the processor without the fault address.\<close>

definition holdings :: "'a heap_scheme \<Rightarrow> mem \<times> u32 \<times> u32 \<times> u32 \<times> 'a" where
  "holdings s = (ram s, heap_start s, heap_end s, heap_head s, heap.more s)"

definition processor :: "'a hw_scheme \<Rightarrow> cpu_regs \<times> bool" where
  "processor s = ((regs s)\<lparr>r_cr2 := 0\<rparr>, interrupts_on s)"

interpretation held: trap_frame "holdings :: 'a heap_scheme \<Rightarrow> _"
  by unfold_locales (simp_all add: holdings_def)

interpretation cpu: trap_frame "processor :: 'a paging_scheme \<Rightarrow> _"
  by unfold_locales (simp_all add: processor_def)

section \<open>Frames\<close>

lemma alloc_lowest:
  assumes ok: "pmm_ok s" and z: "frame_used s 0" and a: "pmm_alloc_frame s = (p, s')" and q: "q \<in> available s"
  shows "p \<noteq> 0 \<and> p \<le> q"
proof -
  obtain k where k: "q = of_nat k * FRAME_SIZE" "0 < k" "k < scanned s" "\<not> frame_used s (of_nat k)"
    using q by (auto simp: available_def)
  have uk: "unat (of_nat k :: u32) = k" using k(3) scanned_bound(1) [of s] by (intro unat_of_nat_small) simp
  from a show ?thesis
  proof (cases rule: pmm_alloc_cases)
    case 1
    then show ?thesis using k(3,4) uk by metis
  next
    case (2 f)
    have fk: "unat f \<le> k" using 2(5) k(4) uk by (metis not_le)
    have "f \<noteq> 0" using 2(4) z by metis
    then have f0: "0 < unat f" by (simp add: unat_gt_0)
    have up: "unat p = unat f * 4096" using unat_frame_addr [OF ok 2(3)] by (simp add: 2(1))
    moreover have "unat q = k * 4096" using unat_frame_addr [OF ok k(3)] by (simp add: k(1))
    ultimately have "unat p \<le> unat q" "p \<noteq> 0" using fk f0 by auto
    then show ?thesis by (simp add: word_le_nat_alt)
  qed
qed

lemma finite_frames [simp]: "finite (available s)"
  by (rule finite)

lemma frame_zero_kept:
  assumes "frame_used s 0"
  shows "pmm_alloc_frame s = (p, s') \<Longrightarrow> frame_used s' 0" and "map_page v q s = Some t \<Longrightarrow> frame_used t 0"
proof -
  have al: "frame_used s' 0" if "pmm_alloc_frame s = (p, s')" for p s'
    using that assms by (auto simp: pmm_alloc_frame_def Let_def frame_used_set split: if_splits)
  then show "pmm_alloc_frame s = (p, s') \<Longrightarrow> frame_used s' 0" .
  have b: "frame_used t g = frame_used u g" if "bitmap t = bitmap u" for g and t u :: "'a paging_scheme"
    using that by (simp add: frame_used_def)
  have ts: "bitmap (table_set x i w u) = bitmap u" for x i w and u :: "'a paging_scheme" by (simp add: table_set_def)
  have nt: "frame_used u 0" if n: "new_table d s = Some (x, u)" for d x u
  proof -
    obtain y s1 where y: "pmm_alloc_frame s = (y, s1)" by fastforce
    have "bitmap (for_upto 1024 (\<lambda>i. table_set y (of_nat i) 0) s1) = bitmap s1"
      by (rule for_upto_cong_result) (simp add: ts)
    then have "bitmap u = bitmap s1" using n by (auto simp: new_table_def y Let_def split: if_splits)
    then show ?thesis using al [OF y] b by blast
  qed
  show "map_page v q s = Some t \<Longrightarrow> frame_used t 0"
    using assms nt b [OF ts] by (auto simp: map_page_def Let_def bind_Some_iff split: if_splits)
qed

lemma heap_directory: "heap_address v \<Longrightarrow> drop_bit 22 v = 1"
proof -
  assume "heap_address v"
  then have "unat v div 2 ^ 22 = 1"
    using div_nat_eqI [of "2 ^ 22" 1 "unat v"] by (simp add: word_le_nat_alt word_less_nat_alt)
  then show ?thesis by (simp add: word_unat_eq_iff unat_drop_bit_div)
qed

text \<open>What a mapping takes: nothing, or the frame of a new table.\<close>

lemma map_page_takes:
  assumes ok: "paging_ok s" and v: "drop_bit 22 v = d" and m: "map_page v p s = Some t"
  shows "page_tables s d \<noteq> 0 \<Longrightarrow> page_tables t = page_tables s \<and> available t = available s"
    "page_tables s d = 0 \<Longrightarrow> \<exists>x s1. pmm_alloc_frame s = (x, s1) \<and> x \<in> available s \<and> reachable_table x
       \<and> page_tables t = (page_tables s)(d := x) \<and> available t = available s - {x}"
proof -
  show "page_tables s d \<noteq> 0 \<Longrightarrow> page_tables t = page_tables s \<and> available t = available s"
    using m v by (auto simp: map_page_def Let_def split: if_splits)
  assume z: "page_tables s d = 0"
  then obtain x s1 where n: "new_table d s = Some (x, s1)" "t = table_set x (drop_bit 12 v AND 0x3FF) ((p AND 0xFFFFF000) OR PRESENT OR WRITABLE) s1"
    using m v by (auto simp: map_page_def Let_def bind_Some_iff split: if_splits)
  have "fst (pmm_alloc_frame s) = x" "reachable_table x"
    using n(1) by (auto simp: new_table_def Let_def split: prod.splits if_splits)
  then show "\<exists>x s1. pmm_alloc_frame s = (x, s1) \<and> x \<in> available s \<and> reachable_table x
       \<and> page_tables t = (page_tables s)(d := x) \<and> available t = available s - {x}"
    using new_table_available [OF ok z n(1)] n(2) by (cases "pmm_alloc_frame s") simp
qed

text \<open>There is a frame for every page of the heap that is still absent, and a table to put it in.\<close>

definition absent :: "'a paging_scheme \<Rightarrow> u32 set" where
  "absent s = {v. heap_address v \<and> page_of v = v \<and> translate s v = None}"

definition frames_left :: "'a paging_scheme \<Rightarrow> bool" where
  "frames_left s \<longleftrightarrow> frame_used s 0 \<and> reachable_table (page_tables s 1) \<and> card (absent s) \<le> card (available s)"

lemma same_memory_frames: "same_memory s t \<Longrightarrow> frames_left t = frames_left s"
  using same_memory_available [of s t] by (simp add: frames_left_def absent_def frame_used_def same_memory_def)

lemma translate_page: "page_of w = page_of v \<Longrightarrow> translate s w = None \<longleftrightarrow> translate s v = None"
  using page_eq [of w v] by (simp add: translate_def Let_def)

lemma absent_mapped:
  assumes "heap_address v" and "translate s v = None"
    and "\<And>w. translate t w = (if page_of w = page_of v then Some (f OR (w AND 0xFFF)) else translate s w)"
  shows "absent t = absent s - {page_of v}" "page_of v \<in> absent s"
proof -
  have "page_of (page_of v) = page_of v" by simp
  then have n: "translate s (page_of v) = None" using translate_page assms(2) by blast
  show "absent t = absent s - {page_of v}" by (auto simp: absent_def assms(3) split: if_splits)
  show "page_of v \<in> absent s" using assms(1) n page_in_heap [of v] by (simp add: absent_def)
qed

text \<open>The first touch of an absent page of the heap is served.\<close>

lemma touch_served:
  fixes s :: "'a paging_scheme"
  assumes hb: "heap_backed s" and z: "frame_used s 0" and v: "heap_address v" "translate s v = None"
    and r: "int_no r = 14" "err_code r AND 1 = 0" "err_code r AND 4 = 0" and some: "available s \<noteq> {}"
    and tab: "page_tables s 1 = 0 \<Longrightarrow> 2 \<le> card {p \<in> available s. p \<le> 0x3FF000}" "page_tables s 1 \<noteq> 0 \<Longrightarrow> reachable_table (page_tables s 1)"
  obtains f t where "isr_handler r (s\<lparr>regs := (regs s)\<lparr>r_cr2 := v\<rparr>\<rparr>) = Some (Returns t)" "heap_backed t" "frame_used t 0"
    "f \<in> available s" "\<And>w. translate t w = (if page_of w = page_of v then Some (f OR (w AND 0xFFF)) else translate s w)"
    "absent t = absent s - {page_of v}" "page_of v \<in> absent s" "reachable_table (page_tables t 1)"
    "page_tables s 1 \<noteq> 0 \<Longrightarrow> available t = available s - {f}"
    "page_tables s 1 = 0 \<Longrightarrow> \<exists>x \<in> available s - {f}. available t = available s - {f, x}"
proof -
  let ?s = "s\<lparr>regs := (regs s)\<lparr>r_cr2 := v\<rparr>\<rparr>"
  have sm: "same_memory s ?s" by (simp add: same_memory_def)
  note same = same_memory_available [OF sm] heap_backed_same [OF sm]
  have fu: "frame_used ?s g = frame_used s g" for g by (simp add: frame_used_def)
  have ok: "paging_ok ?s" using hb by (simp add: same heap_backed_def)
  then have pok: "pmm_ok ?s" by (simp add: paging_ok_def)
  have z': "frame_used ?s 0" using z by (simp add: fu)
  obtain f s1 where a: "pmm_alloc_frame ?s = (f, s1)" by fastforce
  have low: "f \<noteq> 0 \<and> f \<le> q" if "q \<in> available s" for q
    using alloc_lowest [OF pok z' a, of q] that by (simp add: same)
  then have f0: "f \<noteq> 0" using some by blast
  note al = alloc_keeps_paging [OF ok a f0]
  have z1: "frame_used s1 0" by (rule frame_zero_kept(1) [OF z' a])
  have pok1: "pmm_ok s1" using al(1) by (simp add: paging_ok_def)
  have d: "drop_bit 22 (page_of v) = 1" using heap_directory page_in_heap [of v] v(1) by blast
  have pt1: "page_tables s1 = page_tables s" using al(6) same(4) by simp
  have can: "can_map (page_of v) s1"
  proof (cases "page_tables s 1 = 0")
    case True
    let ?L = "{p \<in> available s. p \<le> 0x3FF000}"
    have "\<not> ?L \<subseteq> {f}" using tab(1) [OF True] card_mono [of "{f}" ?L] by auto
    then obtain q where q: "q \<in> available s" "q \<noteq> f" "q \<le> 0x3FF000" by auto
    obtain x s2 where x: "pmm_alloc_frame s1 = (x, s2)" by fastforce
    have "x \<noteq> 0 \<and> x \<le> q" by (rule alloc_lowest [OF pok1 z1 x]) (use q same(1) al(3) in simp)
    moreover from this have "x \<in> available s1" using pmm_alloc_available(2) [OF pok1 x] by blast
    then have "x AND 0xFFF = 0" by (rule available_aligned)
    have "\<not> x < 0x1000"
    proof
      assume "x < 0x1000"
      then have "x AND 0xFFF = x" unfolding page_mask by (simp add: word_less_nat_alt flip: take_bit_eq_mask) (simp add: word_unat_eq_iff unat_take_bit_mod)
      then show False using \<open>x AND 0xFFF = 0\<close> \<open>x \<noteq> 0 \<and> x \<le> q\<close> by simp
    qed
    ultimately have "reachable_table x" using q(3) by (auto simp: reachable_table_def)
    then show ?thesis unfolding can_map_def d pt1 Let_def using True by (simp add: x)
  next
    case False
    then show ?thesis unfolding can_map_def d pt1 Let_def using tab(2) by simp
  qed
  have hf: "heap_fault r ?s" using r v(1) by (simp add: heap_fault_def)
  have can': "can_map (page_of (r_cr2 (regs ?s))) s1" using can by simp
  have hb': "heap_backed ?s" using hb by (simp add: same)
  obtain t where t0: "map_page (page_of (r_cr2 (regs ?s))) f s1 = Some t" "isr_handler r ?s = Some (Returns t)" "heap_backed t"
    "f \<in> available ?s" "\<And>w. translate t w = (if page_of w = page_of (r_cr2 (regs ?s)) then Some (f OR (w AND 0xFFF)) else translate ?s w)"
    by (rule heap_fault_maps [OF hb' hf a f0 can']) (rule that; assumption)
  have t: "map_page (page_of v) f s1 = Some t" "isr_handler r ?s = Some (Returns t)" "heap_backed t" "f \<in> available s"
    "\<And>w. translate t w = (if page_of w = page_of v then Some (f OR (w AND 0xFFF)) else translate s w)"
    using t0 by (simp_all add: same)
  note tk = map_page_takes [OF al(1) d t(1), unfolded pt1 al(3) same(1)]
  have z2: "frame_used t 0" by (rule frame_zero_kept(2) [OF z1 t(1)])
  note ab = absent_mapped [OF v t(5)]
  show ?thesis
  proof (cases "page_tables s 1 = 0")
    case True
    obtain x where x: "x \<in> available s - {f}" "reachable_table x" "page_tables t = (page_tables s)(1 := x)"
      "available t = available s - {f} - {x}"
      using tk(2) [OF True] by blast
    have "reachable_table (page_tables t 1)" "available t = available s - {f, x}" using x by (simp, blast)
    then show ?thesis using that [OF t(2,3) z2 t(4,5) ab] True x(1) by blast
  next
    case False
    then have "page_tables t = page_tables s" "available t = available s - {f}" using tk(1) by blast+
    then show ?thesis using that [OF t(2,3) z2 t(4,5) ab] False tab(2) by simp
  qed
qed

lemma touch_frames_left:
  fixes s :: "'a paging_scheme"
  assumes hb: "heap_backed s" and fl: "frames_left s" and v: "heap_address v" "translate s v = None"
    and r: "int_no r = 14" "err_code r AND 1 = 0" "err_code r AND 4 = 0"
  obtains t where "isr_handler r (s\<lparr>regs := (regs s)\<lparr>r_cr2 := v\<rparr>\<rparr>) = Some (Returns t)" "heap_backed t" "frames_left t" "translate t v \<noteq> None"
proof -
  have rt: "reachable_table (page_tables s 1)" "frame_used s 0" "card (absent s) \<le> card (available s)"
    using fl by (simp_all add: frames_left_def)
  have t0: "page_tables s 1 \<noteq> 0" using rt(1) by (auto simp: reachable_table_def)
  have "page_of (page_of v) = page_of v" by simp
  then have "page_of v \<in> absent s" using v page_in_heap [of v] translate_page [of "page_of v" v s] by (simp add: absent_def)
  then have "0 < card (absent s)" by (auto simp: card_gt_0_iff)
  then have some: "available s \<noteq> {}" using rt(3) by auto
  obtain f t where t: "isr_handler r (s\<lparr>regs := (regs s)\<lparr>r_cr2 := v\<rparr>\<rparr>) = Some (Returns t)" "heap_backed t" "frame_used t 0"
    "f \<in> available s" "absent t = absent s - {page_of v}" "page_of v \<in> absent s" "reachable_table (page_tables t 1)"
    "available t = available s - {f}" "translate t v \<noteq> None"
    by (rule touch_served [OF hb rt(2) v r some]) (use t0 rt(1) that in auto)
  have "card (absent t) \<le> card (available t)"
    using rt(3) t(4,6) by (simp add: t(5,8) card_Diff_singleton)
  then show ?thesis using that t by (simp add: frames_left_def)
qed

lemma page_in_served:
  fixes s :: "'a paging_scheme"
  assumes "heap_backed s" and "frames_left s" and "\<forall>a \<in> set fs. heap_address (snd a)"
  shows "\<exists>t. page_in fs s = Some (Returns t) \<and> heap_backed t \<and> frames_left t"
  using assms
proof (induction fs arbitrary: s)
  case (Cons a fs)
  obtain r v where a: "a = (r, v)" by (cases a)
  show ?case
  proof (cases "translate s v")
    case None
    let ?r = "r\<lparr>int_no := 14, err_code := err_code r AND 2\<rparr>"
    have "(err_code r AND 2) AND 1 = 0" "(err_code r AND 2) AND 4 = 0" by (simp_all add: and.assoc)
    then have e: "int_no ?r = 14" "err_code ?r AND 1 = 0" "err_code ?r AND 4 = 0" by simp_all
    have v: "heap_address v" using Cons.prems(3) a by simp
    obtain t where "isr_handler ?r (s\<lparr>regs := (regs s)\<lparr>r_cr2 := v\<rparr>\<rparr>) = Some (Returns t)" "heap_backed t" "frames_left t"
      by (rule touch_frames_left [OF Cons.prems(1,2) v None e])
    then show ?thesis using Cons.IH [of t] Cons.prems(3) a None by auto
  qed (use Cons a in auto)
qed simp

end
