(* ===== verification/Boot.thy ===== *)
theory Boot
  imports Shell Demand
begin

text \<open>
  \<open>core/boot.c\<close>, \<open>core/multiboot.c\<close> and \<open>kernel.c\<close>: from the boot loader to the shell. What the linker and
  the assembly files fix (the extent of the image, the addresses of tables and interrupt stubs, the registers at the first
  store to the heap) is a record of constants. \<open>None\<close> is a fault or a loop without end; a failed memory set-up panics, and so
  does a fault on a heap page when no frame is left.
\<close>

section \<open>The constants of the image\<close>

record image =
  im_kernel_start :: u32
  im_kernel_end :: u32
  im_page_directory :: u32
  im_gdt :: u32
  im_tss :: u32
  im_idt :: u32
  im_isr :: "nat \<Rightarrow> u32"
  im_irq :: "nat \<Rightarrow> u32"
  im_touch :: registers_t

section \<open>\<open>core/multiboot.c\<close>\<close>

definition print_region :: "mmap_entry \<Rightarrow> 'a vga_scheme \<Rightarrow> 'a vga_scheme" where
  "print_region r = seq_do
     [print_text ''Region: '', vga_print_hex (ucast (mm_addr r)), print_text '' - '',
      vga_print_hex (ucast (mm_addr r + mm_len r)), print_text ''\<newline>'']"

definition multiboot_print_memory :: "u32 \<Rightarrow> 'a heap_scheme \<Rightarrow> 'a heap_scheme option" where
  "multiboot_print_memory multiboot_addr s =
     (let m = ram s in
      if get32 m multiboot_addr AND push_bit 6 1 = 0 then Some (print_text ''No memory map found\<newline>'' s)
      else let s = print_text ''Memory map:\<newline>'' s;
               mmap_length = get32 m (multiboot_addr + 44);
               mmap_addr = get32 m (multiboot_addr + 48)
           in mmap_walk m (mmap_addr + mmap_length) print_region mmap_addr s)"

section \<open>\<open>core/boot.c\<close>\<close>

definition get_logo_width :: "cstr \<Rightarrow> u32" where
  "get_logo_width logo =
     (let (max, current) = fold (\<lambda>c (max, current).
            if c = 10 then (if max < current then current else max, 0) else (max, current + 1)) logo (0, 0)
      in if max < current then current else max)"

definition get_logo_height :: "cstr \<Rightarrow> u32" where
  "get_logo_height logo = fold (\<lambda>c lines. if c = 10 then lines + 1 else lines) logo 1"

definition draw_logo :: "u32 \<Rightarrow> cstr \<Rightarrow> u32 \<times> u32 \<times> 'a vga_scheme \<Rightarrow> u32 \<times> u32 \<times> 'a vga_scheme" where
  "draw_logo start_col = fold (\<lambda>c (row, col, s).
     if c = 10 then (row + 1, start_col, vga_set_cursor (row + 1) start_col s)
     else (row, col + 1, vga_putchar c s))"

definition boot_screen :: "'a vga_scheme \<Rightarrow> 'a vga_scheme" where
  "boot_screen s =
     (let s = vga_set_color 0x1F (vga_clear s);
          start_row = (25 - get_logo_height boot_logo) div 2;
          start_col = (80 - get_logo_width boot_logo) div 2;
          s = vga_set_color BOOT_LOGO_COLOR s;
          s = vga_set_cursor start_row start_col s;
          (row, col, s) = draw_logo start_col boot_logo (start_row, start_col, s)
      in vga_set_color 0x07 s)"

definition sti :: "'a hw_scheme \<Rightarrow> 'a hw_scheme" where
  "sti s = s\<lparr>interrupts_on := True\<rparr>"

text \<open>\<open>vfs_init\<close> of \<open>fs/vfs/vfs.c\<close> has an empty body.\<close>

definition vfs_init :: "'a fs_scheme \<Rightarrow> 'a fs_scheme" where
  "vfs_init s = s"

text \<open>A step of the boot sequence between its two status messages.\<close>

definition boot_step :: "string \<Rightarrow> ('a vga_scheme \<Rightarrow> 'a vga_scheme) \<Rightarrow> 'a vga_scheme \<Rightarrow> 'a vga_scheme" where
  "boot_step message f s = status_end_ok (f (status_begin (lit message) s))"

text \<open>The tables and devices.\<close>

definition boot_machine :: "image \<Rightarrow> 'a shell_scheme \<Rightarrow> 'a shell_scheme option" where
  "boot_machine im s = do {
     s \<leftarrow> Some (boot_step ''Initializing GDT'' (gdt_init (im_gdt im)) s);
     s \<leftarrow> Some (boot_step ''Initializing TSS'' (tss_init (im_tss im)) s);
     s \<leftarrow> Some (boot_step ''Initializing IDT'' (idt_init (im_idt im) (im_isr im) (im_irq im)) s);
     s \<leftarrow> Some (boot_step ''Remapping PIC'' pic_remap s);
     s \<leftarrow> pit_init 100 (status_begin (lit ''Setting hardware time frequency to 100Hz'') s);
     s \<leftarrow> Some (status_end_ok s);
     s \<leftarrow> Some (boot_step ''Enabling Interrupts'' sti s);
     s \<leftarrow> Some (boot_step ''Initializing Paging'' (paging_init (im_page_directory im)) s);
     Some (boot_step ''Initializing Heap'' heap_init s) }"

text \<open>The file systems, the console and the keyboard. The first store of \<open>kmalloc\<close> to the heap, at its start, is a page
  fault; everything the boot sequence puts in the heap stays within that page (\<open>boot_files_ok\<close> bounds its end).\<close>

definition boot_files :: "image \<Rightarrow> 'a shell_scheme \<Rightarrow> 'a shell_scheme outcome option" where
  "boot_files im s = do {
     s \<leftarrow> Some (boot_step ''Initializing VFS'' vfs_init s);
     s \<leftarrow> Some (boot_step ''Initializing FD'' fd_init s);
     s \<leftarrow> Some (status_begin (lit ''Initializing Root Filesystem'') s);
     touched \<leftarrow> page_in [(im_touch im, heap_start s)] s;
     case touched of
       Halts s \<Rightarrow> Some (Halts s)
     | Returns s \<Rightarrow> do {
         s \<leftarrow> boot_filesystems s;
         s \<leftarrow> Some (boot_step ''Initializing Console'' console_init s);
         Some (Returns (boot_step ''Initializing Keyboard'' keyboard_init s)) } }"

text \<open>The logo, with pauses.\<close>

definition boot_show :: "('a shell_scheme \<Rightarrow> 'a shell_scheme) \<Rightarrow> 'a shell_scheme \<Rightarrow> 'a shell_scheme option" where
  "boot_show wake s = do {
     s \<leftarrow> status_loading_animation wake 823 (status_begin (lit ''Booting system'') s);
     s \<leftarrow> sleep wake 1700 (status_end_ok s);
     s \<leftarrow> sleep wake 2200 (boot_screen (vga_clear s));
     Some (vga_print_color boot_logo BOOT_LOGO_COLOR (vga_enable_cursor 14 15 (vga_clear s))) }"

definition kernel_boot ::
    "image \<Rightarrow> ('a shell_scheme \<Rightarrow> 'a shell_scheme) \<Rightarrow> u32 \<Rightarrow> 'a shell_scheme \<Rightarrow> 'a shell_scheme outcome option" where
  "kernel_boot im wake multiboot_addr s = do {
     s \<leftarrow> multiboot_print_memory multiboot_addr (vga_clear s);
     s \<leftarrow> Some (status_begin (lit ''Initializing PMM'') s);
     (pmm_result, s) \<leftarrow> pmm_init (im_kernel_start im) (im_kernel_end im) multiboot_addr s;
     if pmm_result = 0
     then do {
       s \<leftarrow> boot_machine im (status_end_ok s);
       files \<leftarrow> boot_files im s;
       case files of
         Halts s \<Rightarrow> Some (Halts s)
       | Returns s \<Rightarrow> do { s \<leftarrow> boot_show wake s; Some (Returns s) } }
     else Some (debug_panic (if pmm_result = 1 then lit ''PMM failed: Missing memory map''
                             else if pmm_result = 2 then lit ''PMM failed: Out of physical memory''
                             else lit ''PMM failed: Unknown error'') (status_end_error s)) }"

section \<open>\<open>kernel.c\<close>\<close>

text \<open>The first \<open>n\<close> rounds of the loop that never ends: the shell, then one halt. \<open>touches s\<close> are the heap addresses that a
  round from \<open>s\<close> accesses, with the registers there; the pages among them that are absent fault in before the round goes
  on with them. (The model takes the faults of a round at its start. They change nothing that the shell reads but the
  number of free frames that \<open>meminfo\<close> and \<open>sysfetch\<close> print.)\<close>

fun kernel_loop ::
    "('a shell_scheme \<Rightarrow> 'a shell_scheme) \<Rightarrow> ('a shell_scheme \<Rightarrow> (registers_t \<times> u32) list) \<Rightarrow> nat \<Rightarrow>
     'a shell_scheme \<Rightarrow> 'a shell_scheme outcome option" where
  "kernel_loop wake touches 0 s = Some (Returns s)"
| "kernel_loop wake touches (Suc n) s = do {
     touched \<leftarrow> page_in (touches s) s;
     case touched of
       Halts s \<Rightarrow> Some (Halts s)
     | Returns s \<Rightarrow> do {
         r \<leftarrow> shell_update wake s;
         case r of Returns s \<Rightarrow> kernel_loop wake touches n (wake s) | Halts s \<Rightarrow> Some (Halts s) } }"

definition kernel_main ::
    "image \<Rightarrow> ('a shell_scheme \<Rightarrow> 'a shell_scheme) \<Rightarrow> ('a shell_scheme \<Rightarrow> (registers_t \<times> u32) list) \<Rightarrow> u32 \<Rightarrow> nat \<Rightarrow>
     'a shell_scheme \<Rightarrow> 'a shell_scheme outcome option" where
  "kernel_main im wake touches multiboot_addr n s = do {
     r \<leftarrow> kernel_boot im wake multiboot_addr s;
     case r of Returns s \<Rightarrow> kernel_loop wake touches n (shell_init s) | Halts s \<Rightarrow> Some (Halts s) }"

end
