(* ===== verification/BootProps.thy ===== *)
theory BootProps
  imports Boot
begin

text \<open>
  The boot sequence as a whole: from a well-formed record of the boot loader to the state the shell starts
  in. Each stage gets a lemma on what it establishes and one on what it leaves alone.
\<close>

section \<open>Stages that leave the machine alone\<close>

text \<open>The processor's tables and registers, and the frames.\<close>

definition machine :: "'a descriptors_scheme \<Rightarrow> _" where
  "machine s = ((gdt s, idt s, page_directory s, page_tables s, table_mem s), (bitmap s, total_frames s),
     (regs s, interrupts_on s))"

definition quiet :: "'a descriptors_scheme \<Rightarrow> 'a descriptors_scheme \<Rightarrow> bool" where
  "quiet s t \<longleftrightarrow> vga.more t = vga.more s \<and> regs t = regs s \<and> interrupts_on t = interrupts_on s"

lemma quiet_refl [simp]: "quiet s s"
  by (simp add: quiet_def)

lemma quiet_trans: "quiet s t \<Longrightarrow> quiet t u \<Longrightarrow> quiet s u"
  by (simp add: quiet_def)

lemma quiet_step:
  assumes "screen_step s t"
  shows "quiet s t"
  using screen_step_fields [OF assms] by (simp add: quiet_def)

lemma quiet_color: "quiet s (vga_set_color c s)"
  by (simp add: quiet_def vga_set_color_def)

lemma quiet_cursor: "quiet s (vga_set_cursor r c s)" "quiet s (vga_enable_cursor a b s)"
  by (simp_all add: quiet_def vga_set_cursor_def vga_enable_cursor_def Let_def outb_def inb_def)

lemma quiet_print_color: "quiet s (vga_print_color t c s)"
proof -
  have "quiet s (s\<lparr>terminal_color := c\<rparr>)" by (simp add: quiet_def)
  also have "quiet (s\<lparr>terminal_color := c\<rparr>) (vga_print t (s\<lparr>terminal_color := c\<rparr>))"
    by (rule quiet_step) (rule screen_step_print)
  finally (quiet_trans) show ?thesis by (simp add: quiet_def vga_print_color_def)
qed

lemma quiet_align: "quiet s (status_align s)"
  unfolding status_align_eq by (rule quiet_step) (rule screen_step_print)

lemma quiet_status: "quiet s (status_begin m s)" "quiet s (status_end_ok s)" "quiet s (status_end_error s)"
proof -
  have p: "quiet u (vga_print t (vga_set_color c u))" for t c u
    by (rule quiet_trans [OF quiet_color quiet_step [OF screen_step_print]])
  then show "quiet s (status_begin m s)" by (simp add: status_begin_def)
  show "quiet s (status_end_ok s)" "quiet s (status_end_error s)"
    unfolding status_end_ok_def status_end_error_def Let_def
    by (rule quiet_trans [OF quiet_align quiet_trans [OF p quiet_color]])+
qed

lemma quiet_fold: "(\<And>c u. c \<in> set cs \<Longrightarrow> quiet u (f c u)) \<Longrightarrow> quiet s (fold f cs s)"
  by (induction cs arbitrary: s) (auto intro: quiet_trans)

lemma quiet_seq: "(\<And>f u. f \<in> set fs \<Longrightarrow> quiet u (f u)) \<Longrightarrow> quiet s (seq_do fs s)"
  unfolding seq_do_def by (rule quiet_fold)

lemma quiet_logo: "quiet s (snd (snd (draw_logo start cs (r, c, s))))"
proof (induction cs arbitrary: r c s)
  case (Cons x cs)
  have "quiet s (vga_set_cursor a b s)" "quiet s (vga_putchar x s)" for a b
    by (rule quiet_cursor, rule quiet_step, rule screen_step_putchar)
  then show ?case using Cons by (simp add: draw_logo_def) (meson quiet_trans)
qed (simp add: draw_logo_def)

lemma quiet_screen: "quiet s (boot_screen s)"
proof -
  let ?r = "(25 - get_logo_height boot_logo) div 2" and ?c = "(80 - get_logo_width boot_logo) div 2"
  define u where "u = vga_set_cursor ?r ?c (vga_set_color BOOT_LOGO_COLOR (vga_set_color 0x1F (vga_clear s)))"
  have e: "boot_screen s = vga_set_color 0x07 (snd (snd (draw_logo ?c boot_logo (?r, ?c, u))))"
    by (simp add: boot_screen_def Let_def u_def split_beta)
  have c: "quiet s (vga_clear s)" by (rule quiet_step) (rule screen_step_clear)
  have u: "quiet s u"
    unfolding u_def by (rule quiet_trans [OF quiet_trans [OF quiet_trans [OF c quiet_color] quiet_color] quiet_cursor(1)])
  show ?thesis unfolding e by (rule quiet_trans [OF quiet_trans [OF u quiet_logo] quiet_color])
qed

lemma quiet_machine: "quiet s t \<Longrightarrow> machine t = machine s"
proof -
  assume q: "quiet s t"
  then have "vga.more t = vga.more s" by (simp add: quiet_def)
  then have "gdt t = gdt s" "idt t = idt s" "page_directory t = page_directory s" "page_tables t = page_tables s"
    "table_mem t = table_mem s" "bitmap t = bitmap s" "total_frames t = total_frames s"
    by (cases s; cases t; simp)+
  then show ?thesis using q by (simp add: machine_def quiet_def)
qed


lemma quiet_fields:
  assumes "quiet s t"
  shows "gdt t = gdt s" "idt t = idt s" "page_directory t = page_directory s" "page_tables t = page_tables s"
    "table_mem t = table_mem s" "bitmap t = bitmap s" "total_frames t = total_frames s" "ram t = ram s" "heap_start t = heap_start s"
    "heap_end t = heap_end s" "heap_head t = heap_head s" "heap.more t = heap.more s" "regs t = regs s" "interrupts_on t = interrupts_on s"
proof -
  have q: "vga.more t = vga.more s" using assms by (simp add: quiet_def)
  show "gdt t = gdt s" "idt t = idt s" "page_directory t = page_directory s" "page_tables t = page_tables s"
    "table_mem t = table_mem s" "bitmap t = bitmap s" "total_frames t = total_frames s" "ram t = ram s" "heap_start t = heap_start s"
    "heap_end t = heap_end s" "heap_head t = heap_head s" "heap.more t = heap.more s"
    using q by (cases s; cases t; simp)+
  show "regs t = regs s" "interrupts_on t = interrupts_on s" using assms by (simp_all add: quiet_def)
qed

lemma descriptors_more: "heap.more t = heap.more s \<Longrightarrow> descriptors.more t = descriptors.more (s :: 'a descriptors_scheme)"
  by (cases s; cases t; simp)

lemmas begin_fields [simp] = quiet_fields [OF quiet_status(1)] descriptors_more [OF quiet_fields(12) [OF quiet_status(1)]]
lemmas ok_fields [simp] = quiet_fields [OF quiet_status(2)] descriptors_more [OF quiet_fields(12) [OF quiet_status(2)]]

section \<open>The processor and the devices\<close>

lemma gdt_init_fields:
  fixes s :: "'a descriptors_scheme"
  shows "flat 0x9A (gdt (gdt_init a s) 1)" "flat 0x92 (gdt (gdt_init a s) 2)"
    "regs (gdt_init a s) = (regs s)\<lparr>r_gdtr_base := a, r_gdtr_limit := 47,
       r_ds := 0x10, r_es := 0x10, r_fs := 0x10, r_gs := 0x10, r_ss := 0x10, r_cs := 0x08\<rparr>"
    "page_directory (gdt_init a s) = page_directory s" "page_tables (gdt_init a s) = page_tables s"
    "bitmap (gdt_init a s) = bitmap s" "total_frames (gdt_init a s) = total_frames s"
    "heap_head (gdt_init a s) = heap_head s" "descriptors.more (gdt_init a s) = descriptors.more s"
  by (simp_all add: gdt_init_def Let_def gdt_set_other flat_set)
    (simp_all add: gdt_set_entry_def gdt_flush_def Let_def)

lemma tss_init_fields:
  fixes s :: "'a descriptors_scheme"
  shows "n \<noteq> 5 \<Longrightarrow> gdt (tss_init a s) n = gdt s n" "segment_base (gdt (tss_init a s) 5) = a"
    "regs (tss_init a s) = (regs s)\<lparr>r_tr := 0x28\<rparr>"
    "page_directory (tss_init a s) = page_directory s" "page_tables (tss_init a s) = page_tables s"
    "bitmap (tss_init a s) = bitmap s" "total_frames (tss_init a s) = total_frames s"
    "heap_head (tss_init a s) = heap_head s" "descriptors.more (tss_init a s) = descriptors.more s"
proof -
  have g: "gdt (tss_init a s) = gdt (gdt_set_entry 5 a tss_size 0x89 0x40 s)"
    by (simp add: tss_init_def tss_flush_def Let_def)
  show "n \<noteq> 5 \<Longrightarrow> gdt (tss_init a s) n = gdt s n" "segment_base (gdt (tss_init a s) 5) = a"
    unfolding g by (simp_all add: gdt_set_other gdt_entry_fields(1))
qed (simp_all add: tss_init_def tss_flush_def gdt_set_entry_def Let_def)


lemma idt_init_fields:
  fixes s :: "'a descriptors_scheme"
  shows "n < 48 \<Longrightarrow> gate_present (idt (idt_init a isr irq s) n) \<and> selector (idt (idt_init a isr irq s) n) = 8
      \<and> gate_offset (idt (idt_init a isr irq s) n) = (if n < 32 then isr n else irq (n - 32))"
    "r_idtr_base (regs (idt_init a isr irq s)) = a" "\<exists>l. regs (idt_init a isr irq s) = (regs s)\<lparr>r_idtr_base := a, r_idtr_limit := l\<rparr>"
    "gdt (idt_init a isr irq s) = gdt s"
    "page_directory (idt_init a isr irq s) = page_directory s" "page_tables (idt_init a isr irq s) = page_tables s"
    "bitmap (idt_init a isr irq s) = bitmap s" "total_frames (idt_init a isr irq s) = total_frames s"
    "heap_head (idt_init a isr irq s) = heap_head s" "descriptors.more (idt_init a isr irq s) = descriptors.more s"
proof -
  show "gate_present (idt (idt_init a isr irq s) n) \<and> selector (idt (idt_init a isr irq s) n) = 8
      \<and> gate_offset (idt (idt_init a isr irq s) n) = (if n < 32 then isr n else irq (n - 32))" if "n < 48"
    using gates_after_init [of n a isr irq s] that by (simp add: Let_def)
  show "r_idtr_base (regs (idt_init a isr irq s)) = a"
    using gates_after_init [of 0 a isr irq s] by (simp add: Let_def)
  have keep: "f (idt_init a isr irq s) = f s"
    if f: "\<And>t l b. f (t\<lparr>idtp_limit := l, idtp_base := b\<rparr>) = f t" "\<And>t i. f (t\<lparr>idt := i\<rparr>) = f t"
      "\<And>t l b. f (t\<lparr>regs := (regs t)\<lparr>r_idtr_base := b, r_idtr_limit := l\<rparr>\<rparr>) = f t" for f :: "'a descriptors_scheme \<Rightarrow> 'c"
    unfolding idt_init_def Let_def idt_load_def f(3)
    by (subst for_upto_cong_result [where f = f], simp add: idt_set_gate_def f(2),
      subst for_upto_cong_result [where f = f], simp add: idt_set_gate_def f(2),
      subst for_upto_cong_result [where f = f], simp add: f(2), simp add: f(1))
  show "gdt (idt_init a isr irq s) = gdt s"
    "page_directory (idt_init a isr irq s) = page_directory s" "page_tables (idt_init a isr irq s) = page_tables s"
    "bitmap (idt_init a isr irq s) = bitmap s" "total_frames (idt_init a isr irq s) = total_frames s"
    "heap_head (idt_init a isr irq s) = heap_head s" "descriptors.more (idt_init a isr irq s) = descriptors.more s"
    by (rule keep; simp)+
  have "regs (for_upto 16 (\<lambda>i. idt_set_gate (32 + i) (irq i)) (for_upto 32 (\<lambda>i. idt_set_gate i (isr i))
      (for_upto IDT_ENTRIES (\<lambda>i s. s\<lparr>idt := (idt s)(i := empty_gate)\<rparr>) (s\<lparr>idtp_limit := l, idtp_base := b\<rparr>)))) = regs s" for l b
    by (subst for_upto_cong_result [where f = regs], simp add: idt_set_gate_def,
      subst for_upto_cong_result [where f = regs], simp add: idt_set_gate_def,
      subst for_upto_cong_result [where f = regs], simp_all)
  then obtain b l where e: "regs (idt_init a isr irq s) = (regs s)\<lparr>r_idtr_base := b, r_idtr_limit := l\<rparr>"
    by (auto simp: idt_init_def Let_def idt_load_def)
  have "b = a" using \<open>r_idtr_base (regs (idt_init a isr irq s)) = a\<close> unfolding e by simp
  then show "\<exists>l. regs (idt_init a isr irq s) = (regs s)\<lparr>r_idtr_base := a, r_idtr_limit := l\<rparr>" using e by blast
qed

text \<open>Programming the two chips only writes to ports.\<close>

lemma quiet_ports: "quiet s (pic_remap s)" "quiet s (outb p v s)"
  by (simp_all add: quiet_def pic_remap_def outb_def inb_def Let_def)

lemma pit_quiet: "n \<noteq> 0 \<Longrightarrow> \<exists>t. pit_init n s = Some t \<and> quiet s t"
  by (simp add: pit_init_def Let_def quiet_def outb_def)


lemma paging_init_keeps:
  fixes s :: "'a descriptors_scheme"
  shows "gdt (paging_init pd s) = gdt s" "idt (paging_init pd s) = idt s" "heap_head (paging_init pd s) = heap_head s"
    "descriptors.more (paging_init pd s) = descriptors.more s" "interrupts_on (paging_init pd s) = interrupts_on s"
    "\<exists>c. regs (paging_init pd s) = (regs s)\<lparr>r_cr3 := pd, r_cr0 := c\<rparr>"
proof -
  have keep: "f (paging_init pd s) = f s"
    if f: "\<And>t a b. f (t\<lparr>page_directory := a, page_tables := b\<rparr>) = f t" "\<And>t b. f (t\<lparr>bitmap := b\<rparr>) = f t"
      "\<And>t m. f (t\<lparr>table_mem := m\<rparr>) = f t" "\<And>t a b c d. f (t\<lparr>page_directory := a, page_tables := b, regs := (regs t)\<lparr>r_cr3 := c, r_cr0 := d\<rparr>\<rparr>) = f t"
    for f :: "'a descriptors_scheme \<Rightarrow> 'c"
  proof -
    define s0 where "s0 = for_upto 1024 (\<lambda>i s. s\<lparr>page_directory := (page_directory s)(of_nat i := 0),
                                   page_tables := (page_tables s)(of_nat i := 0)\<rparr>) s"
    obtain p s1 where p: "pmm_alloc_frame s0 = (p, s1)" by fastforce
    have "f s1 = f s0" using p by (auto simp: pmm_alloc_frame_def Let_def set_frame_def f(2) split: if_splits)
    moreover have "f s0 = f s" unfolding s0_def by (rule for_upto_cong_result) (simp add: f(1))
    moreover have "f (for_upto n (\<lambda>i. table_set p (a i) (b i)) t) = f t" for n a b t
      by (rule for_upto_cong_result) (simp add: table_set_def f(3))
    ultimately show ?thesis
      unfolding paging_init_def s0_def [symmetric]
      by (simp add: p Let_def enable_paging_def load_page_directory_def f(1,4))
  qed
  show "gdt (paging_init pd s) = gdt s" "idt (paging_init pd s) = idt s" "heap_head (paging_init pd s) = heap_head s"
    "descriptors.more (paging_init pd s) = descriptors.more s" "interrupts_on (paging_init pd s) = interrupts_on s"
    by (rule keep; simp)+
  have "(regs (paging_init pd s))\<lparr>r_cr3 := 0, r_cr0 := 0\<rparr> = (regs s)\<lparr>r_cr3 := 0, r_cr0 := 0\<rparr>"
    by (rule keep [of "\<lambda>s. (regs s)\<lparr>r_cr3 := 0, r_cr0 := 0\<rparr>"]) simp_all
  moreover obtain t s1 where "pmm_alloc_frame s = (t, s1)" by fastforce
  then have "r_cr3 (regs (paging_init pd s)) = pd" by (rule paging_init_fields(7))
  ultimately have "regs (paging_init pd s) = (regs s)\<lparr>r_cr3 := pd, r_cr0 := r_cr0 (regs (paging_init pd s))\<rparr>"
    by (cases "regs s"; cases "regs (paging_init pd s)") simp
  then show "\<exists>c. regs (paging_init pd s) = (regs s)\<lparr>r_cr3 := pd, r_cr0 := c\<rparr>" by blast
qed


text \<open>What the set-up of the processor leaves: gates, flat kernel segments, the task state segment.\<close>

definition tables_ready :: "image \<Rightarrow> 'a descriptors_scheme \<Rightarrow> bool" where
  "tables_ready im t \<longleftrightarrow>
     (\<forall>n < 48. gate_present (idt t n) \<and> selector (idt t n) = 8
        \<and> gate_offset (idt t n) = (if n < 32 then im_isr im n else im_irq im (n - 32)))
     \<and> flat 0x9A (gdt t 1) \<and> flat 0x92 (gdt t 2) \<and> segment_base (gdt t 5) = im_tss im
     \<and> r_idtr_base (regs t) = im_idt im \<and> r_gdtr_base (regs t) = im_gdt im \<and> r_cs (regs t) = 8 \<and> r_ds (regs t) = 16
     \<and> r_ss (regs t) = 16 \<and> r_tr (regs t) = 40"

lemma tables_ready_cong:
  assumes "idt t = idt s" and "gdt t = gdt s" and "\<exists>c d. regs t = (regs s)\<lparr>r_cr3 := c, r_cr0 := d\<rparr>"
  shows "tables_ready im s \<Longrightarrow> tables_ready im t"
  using assms by (auto simp: tables_ready_def)

lemma frames_cong:
  fixes s :: "'a paging_scheme" and t :: "'b paging_scheme"
  assumes "bitmap t = bitmap s" "total_frames t = total_frames s" "page_directory t = page_directory s" "page_tables t = page_tables s"
  shows "pmm_ok t = pmm_ok s" "fst (pmm_alloc_frame t) = fst (pmm_alloc_frame s)" "fresh_tables t = fresh_tables s"
  using assms by (simp_all add: pmm_ok_def pmm_alloc_frame_def first_free_frame_def Let_def fresh_tables_def)

lemma sti_fields [simp]:
  fixes s :: "'a descriptors_scheme"
  shows "gdt (sti s) = gdt s" "idt (sti s) = idt s" "page_directory (sti s) = page_directory s" "page_tables (sti s) = page_tables s"
    "bitmap (sti s) = bitmap s" "total_frames (sti s) = total_frames s" "heap_head (sti s) = heap_head s"
    "descriptors.more (sti s) = descriptors.more s" "regs (sti s) = regs s" "interrupts_on (sti s)"
  by (simp_all add: sti_def)

text \<open>What \<open>paging_init\<close> takes: one frame. The table of the heap is not there yet.\<close>

lemma paging_init_frames:
  assumes "pmm_ok s" and "frame_used s 0" and "fst (pmm_alloc_frame s) \<noteq> 0"
  shows "frame_used (paging_init pd s) 0" "page_tables (paging_init pd s) 1 = 0"
    "\<exists>p \<in> available s. available (paging_init pd s) = available s - {p}"
proof -
  obtain p s1 where a: "pmm_alloc_frame s = (p, s1)" by fastforce
  note f = paging_init_fields [OF a]
  show "page_tables (paging_init pd s) 1 = 0" using f(1) [of pd 1] by simp
  show "\<exists>p \<in> available s. available (paging_init pd s) = available s - {p}"
    using pmm_alloc_available(2) [OF assms(1) a] assms(3) a f(4) by auto
  define s0 where "s0 = for_upto 1024 (\<lambda>i s. s\<lparr>page_directory := (page_directory s)(of_nat i := 0),
                                 page_tables := (page_tables s)(of_nat i := 0)\<rparr>) s"
  have b0: "bitmap s0 = bitmap s" unfolding s0_def by (rule for_upto_cong_result) simp
  obtain q s1' where q: "pmm_alloc_frame s0 = (q, s1')" by fastforce
  have "frame_used s0 0" using assms(2) by (simp add: frame_used_def b0)
  then have z: "frame_used s1' 0" using frame_zero_kept(1) q by blast
  have "bitmap (for_upto n (\<lambda>i. table_set x (a i) (b i)) t) = bitmap t" for x n a b and t :: "'a paging_scheme"
    by (rule for_upto_cong_result) (simp add: table_set_def)
  then have "bitmap (paging_init pd s) = bitmap s1'"
    unfolding paging_init_def s0_def [symmetric] by (simp add: q Let_def enable_paging_def load_page_directory_def)
  then show "frame_used (paging_init pd s) 0" using z by (simp add: frame_used_def)
qed

lemma boot_machine_ok:
  fixes s :: "'a shell_scheme"
  assumes pmm: "pmm_ok s" "fst (pmm_alloc_frame s) \<noteq> 0" "fresh_tables s" "frame_used s 0" and h: "heap_head s = 0"
  obtains t where "boot_machine im s = Some t" "tables_ready im t" "interrupts_on t"
    "\<forall>v. translate t v = (if 0x1000 \<le> v \<and> v < 0x400000 then Some v else None)"
    "heap_rep ([], 0x100000) t" "heap_end t = 0x400000" "descriptors.more t = descriptors.more s" "heap_backed t"
    "frame_used t 0" "page_tables t 1 = 0" "\<exists>p \<in> available s. available t = available s - {p}"
proof -
  define s1 where "s1 = boot_step ''Initializing GDT'' (gdt_init (im_gdt im)) s"
  define s2 where "s2 = boot_step ''Initializing TSS'' (tss_init (im_tss im)) s1"
  define s3 where "s3 = boot_step ''Initializing IDT'' (idt_init (im_idt im) (im_isr im) (im_irq im)) s2"
  define s4 where "s4 = boot_step ''Remapping PIC'' pic_remap s3"
  obtain u where u: "pit_init 100 (status_begin (lit ''Setting hardware time frequency to 100Hz'') s4) = Some u"
    "quiet (status_begin (lit ''Setting hardware time frequency to 100Hz'') s4) u"
    using pit_quiet [of 100] by fastforce
  define s5 where "s5 = status_end_ok u"
  define s6 where "s6 = boot_step ''Enabling Interrupts'' sti s5"
  define b where "b = status_begin (lit ''Initializing Paging'') s6"
  define s7 where "s7 = status_end_ok (paging_init (im_page_directory im) b)"
  define t where "t = boot_step ''Initializing Heap'' heap_init s7"
  have run: "boot_machine im s = Some t"
    unfolding boot_machine_def s1_def [symmetric] s2_def [symmetric] s3_def [symmetric] s4_def [symmetric]
    by (simp add: s1_def [symmetric] s2_def [symmetric] s3_def [symmetric] s4_def [symmetric] u(1)
        s5_def [symmetric] s6_def [symmetric])
      (simp add: boot_step_def t_def s7_def b_def)
  note m = descriptors_more [OF quiet_fields(12)]
  have keep1: "page_directory s1 = page_directory s" "page_tables s1 = page_tables s" "bitmap s1 = bitmap s"
    "total_frames s1 = total_frames s" "heap_head s1 = heap_head s" "descriptors.more s1 = descriptors.more s"
    by (simp_all add: s1_def boot_step_def gdt_init_fields)
  have keep2: "page_directory s2 = page_directory s1" "page_tables s2 = page_tables s1" "bitmap s2 = bitmap s1"
    "total_frames s2 = total_frames s1" "heap_head s2 = heap_head s1" "descriptors.more s2 = descriptors.more s1"
    by (simp_all add: s2_def boot_step_def tss_init_fields)
  have keep3: "page_directory s3 = page_directory s2" "page_tables s3 = page_tables s2" "bitmap s3 = bitmap s2"
    "total_frames s3 = total_frames s2" "heap_head s3 = heap_head s2" "descriptors.more s3 = descriptors.more s2"
    by (simp_all add: s3_def boot_step_def idt_init_fields)
  have q34: "quiet s3 s4"
    unfolding s4_def boot_step_def by (rule quiet_trans [OF quiet_status(1) quiet_trans [OF quiet_ports(1) quiet_status(2)]])
  have q35: "quiet s3 s5"
    unfolding s5_def by (rule quiet_trans [OF q34 quiet_trans [OF quiet_status(1) quiet_trans [OF u(2) quiet_status(2)]]])
  note f5 = quiet_fields [OF q35] m [OF q35]
  have b: "page_directory b = page_directory s" "page_tables b = page_tables s" "bitmap b = bitmap s" "total_frames b = total_frames s"
    "heap_head b = 0" "descriptors.more b = descriptors.more s" "gdt b = gdt s3" "idt b = idt s3" "regs b = regs s3" "interrupts_on b"
    using h by (simp_all add: b_def s6_def boot_step_def f5 keep1 keep2 keep3)
  have pb: "pmm_ok b" "fst (pmm_alloc_frame b) \<noteq> 0" "fresh_tables b"
    using pmm frames_cong [of b s] b(1-4) by simp_all
  have zb: "frame_used b 0" "available b = available s"
    using pmm(4) b(3,4) by (simp_all add: frame_used_def available_def scanned_def)
  have hp: "heap_init v = v\<lparr>heap_start := 0x400000, heap_end := 0x400000\<rparr>" for v :: "'a shell_scheme" by (simp add: heap_init_def)
  have t: "heap_start t = 0x400000" "heap_end t = 0x400000" "heap_head t = 0" "descriptors.more t = descriptors.more s"
    "interrupts_on t" "gdt t = gdt s3" "idt t = idt s3" "regs t = regs (paging_init (im_page_directory im) b)"
    "page_directory t = page_directory (paging_init (im_page_directory im) b)"
    "table_mem t = table_mem (paging_init (im_page_directory im) b)"
    by (simp_all add: t_def boot_step_def hp s7_def paging_init_keeps b)
  have "translate t v = translate (paging_init (im_page_directory im) b) v" for v by (simp add: translate_def Let_def t(9,10))
  then have tr: "translate t v = (if 0x1000 \<le> v \<and> v < 0x400000 then Some v else None)" for v
    using paging_init_map [OF pb, of "im_page_directory im" v] by simp
  have "heap_rep ([], 0x100000) t" by (simp add: heap_rep_def heap_inv_def t adr_def)
  moreover have sm: "same_memory (paging_init (im_page_directory im) b) t"
    by (simp add: same_memory_def t_def boot_step_def hp s7_def)
  then have "heap_backed t" using heap_backed_same paging_init_backed [OF pb] by blast
  moreover have "frame_used t 0" "page_tables t 1 = 0" "\<exists>p \<in> available s. available t = available s - {p}"
    using paging_init_frames [OF pb(1) zb(1) pb(2), of "im_page_directory im"] sm same_memory_available [OF sm] zb(2)
    by (simp_all add: same_memory_def frame_used_def)
  moreover have "tables_ready im s3"
  proof -
    define v where "v = status_begin (lit ''Initializing IDT'') s2"
    have "gdt s3 = gdt s2" "idt s3 = idt (idt_init (im_idt im) (im_isr im) (im_irq im) v)"
      "regs s3 = regs (idt_init (im_idt im) (im_isr im) (im_irq im) v)" "regs v = regs s2"
      by (simp_all add: s3_def boot_step_def idt_init_fields v_def)
    moreover obtain l where "regs (idt_init (im_idt im) (im_isr im) (im_irq im) v) = (regs v)\<lparr>r_idtr_base := im_idt im, r_idtr_limit := l\<rparr>"
      using idt_init_fields(3) by blast
    moreover have "flat 0x9A (gdt s2 1)" "flat 0x92 (gdt s2 2)" "segment_base (gdt s2 5) = im_tss im"
      "regs s2 = (regs s)\<lparr>r_gdtr_base := im_gdt im, r_gdtr_limit := 47,
       r_ds := 0x10, r_es := 0x10, r_fs := 0x10, r_gs := 0x10, r_ss := 0x10, r_cs := 0x08, r_tr := 0x28\<rparr>"
      by (simp_all add: s2_def s1_def boot_step_def tss_init_fields gdt_init_fields del: One_nat_def)
    ultimately show ?thesis using idt_init_fields(1) [of _ "im_idt im" "im_isr im" "im_irq im" v] by (simp add: tables_ready_def)
  qed
  then have "tables_ready im t"
    by (rule tables_ready_cong [rotated 3]) (use t(6,7,8) paging_init_keeps(6) [of "im_page_directory im" b] b(9) in auto)
  ultimately show ?thesis using that [OF run] t tr by blast
qed


section \<open>Frames\<close>

definition only_frames :: "'a pmm_scheme \<Rightarrow> 'a pmm_scheme \<Rightarrow> bool" where
  "only_frames s t \<longleftrightarrow> (\<exists>x b. t = s\<lparr>total_frames := x, bitmap := b\<rparr>)"

lemma only_frames_refl: "only_frames s s"
proof -
  have "s = s\<lparr>total_frames := total_frames s, bitmap := bitmap s\<rparr>" by simp
  then show ?thesis unfolding only_frames_def by blast
qed

lemma only_frames_trans:
  assumes "only_frames s t" and "only_frames t u"
  shows "only_frames s u"
proof -
  obtain x b x' b' where "t = s\<lparr>total_frames := x, bitmap := b\<rparr>" "u = t\<lparr>total_frames := x', bitmap := b'\<rparr>"
    using assms unfolding only_frames_def by blast
  then have "u = s\<lparr>total_frames := x', bitmap := b'\<rparr>" by simp
  then show ?thesis unfolding only_frames_def by blast
qed

lemma only_frames_bitmap: "only_frames s (s\<lparr>bitmap := b\<rparr>)" and only_frames_total: "only_frames s (s\<lparr>total_frames := x\<rparr>)"
proof -
  have "s\<lparr>bitmap := b\<rparr> = s\<lparr>total_frames := total_frames s, bitmap := b\<rparr>"
    "s\<lparr>total_frames := x\<rparr> = s\<lparr>total_frames := x, bitmap := bitmap s\<rparr>" by simp_all
  then show "only_frames s (s\<lparr>bitmap := b\<rparr>)" "only_frames s (s\<lparr>total_frames := x\<rparr>)"
    unfolding only_frames_def by blast+
qed

lemma only_frames_upto: "(\<And>i u. only_frames u (f i u)) \<Longrightarrow> only_frames s (for_upto n f s)"
  by (rule for_upto_invariant [where P = "\<lambda>_. only_frames s"]) (auto intro: only_frames_refl only_frames_trans)

lemma only_frames_range: "(\<And>i u. only_frames u (f i u)) \<Longrightarrow> only_frames s (for_frames a b f s)"
  unfolding for_frames_def by (rule only_frames_upto)

lemma only_frames_region: "only_frames s (free_region r s)"
  unfolding free_region_def Let_def
  by (auto intro!: only_frames_range only_frames_refl simp: clear_frame_def only_frames_bitmap)

lemma only_frames_regions: "only_frames s (fold free_region rs s)"
  by (induction rs arbitrary: s) (auto intro: only_frames_refl only_frames_trans only_frames_region)

lemma pmm_init_shape:
  fixes s :: "'a heap_scheme"
  assumes "pmm_init ks ke mb s = Some (r, t)"
    and "mmap_is (ram s) (get32 (ram s) (mb + 48) + get32 (ram s) (mb + 44)) (get32 (ram s) (mb + 48)) rs"
  shows "only_frames s t"
proof (cases "get32 (ram s) mb AND push_bit 6 1 = 0")
  case True
  then show ?thesis using assms(1) by (simp add: pmm_init_def Let_def only_frames_refl)
next
  case False
  have set: "only_frames u (for_frames a b set_frame u)" for a b and u :: "'a heap_scheme"
    by (rule only_frames_range) (simp add: set_frame_def only_frames_bitmap)
  have fill: "only_frames u (for_upto n (\<lambda>i s. s\<lparr>bitmap := (bitmap s)(of_nat i := 0xFFFFFFFF)\<rparr>) u)" for n and u :: "'a heap_scheme"
    by (rule only_frames_upto) (rule only_frames_bitmap)
  from assms(1) False obtain x a b c d n where
    "t = for_frames a b set_frame (for_frames c d set_frame (fold free_region rs
        (for_upto n (\<lambda>i s. s\<lparr>bitmap := (bitmap s)(of_nat i := 0xFFFFFFFF)\<rparr>) (s\<lparr>total_frames := x\<rparr>))))"
    unfolding pmm_init_def Let_def
    by (simp only: if_False mmap_walk_fold [OF assms(2)] Option.bind.simps option.inject prod.inject) blast
  then show ?thesis
    by (simp only:) (rule only_frames_trans [OF only_frames_total only_frames_trans [OF fill
      only_frames_trans [OF only_frames_regions only_frames_trans [OF set set]]]])
qed

lemma only_frames_fields:
  assumes "only_frames s t"
  shows "page_directory t = page_directory s" "page_tables t = page_tables s" "heap_head t = heap_head s" "heap.more t = heap.more s"
  using assms by (auto simp: only_frames_def)


section \<open>Building the file systems leaves the machine alone\<close>

lemma machine_updates [simp]:
  "machine (s\<lparr>ram := m\<rparr>) = machine s" "machine (s\<lparr>heap_end := e\<rparr>) = machine s" "machine (s\<lparr>heap_head := h\<rparr>) = machine s"
  "machine (s\<lparr>line_buffer := lb\<rparr>) = machine s" "machine (s\<lparr>line_length := n\<rparr>) = machine s"
  by (simp_all add: machine_def)

lemma machine_fs_updates [simp]:
  fixes u :: "'a fs_scheme"
  shows "machine (u\<lparr>vfs_root := r\<rparr>) = machine u" "machine (u\<lparr>mounts := ms\<rparr>) = machine u" "machine (u\<lparr>mount_count := c\<rparr>) = machine u"
    "machine (ramfs_init_ops u) = machine u"
  by (simp_all add: machine_def ramfs_init_ops_def)

lemma machine_status [simp]: "machine (status_begin m s) = machine s" "machine (status_end_ok s) = machine s"
  by (simp_all add: machine_def)

interpretation kept: fs_frame "machine :: 'a fs_scheme \<Rightarrow> _"
  by unfold_locales simp_all

lemma mount_machine: "vfs_mount path r s = Some s' \<Longrightarrow> machine s' = machine s"
  by (auto simp: vfs_mount_def bind_Some_iff machine_def split: if_splits)

lemma filesystems_machine: "boot_filesystems s = Some s' \<Longrightarrow> machine s' = machine s"
  by (auto simp: boot_filesystems_def ramfs_create_instance_def bind_Some_iff
      dest!: kept.new_root_part kept.create_part mount_machine split: if_splits)

lemma console_init_keeps:
  fixes s :: "'a descriptors_scheme"
  shows "machine (console_init s) = machine s" "console.more (console_init s) = console.more s"
  unfolding console_init_def
  by (subst for_upto_cong_result [where f = machine], simp, simp)
    (subst for_upto_cong_result [where f = console.more], simp_all)

section \<open>Files, console and keyboard\<close>

lemma console_of_vga: "vga.more t = vga.more s \<Longrightarrow> console.more (t :: 'a console_scheme) = console.more s"
  by (cases s; cases t) simp

lemma fs_of_heap:
  fixes s t :: "'a fd_scheme"
  assumes h: "ram t = ram s" "heap_start t = heap_start s" "heap_end t = heap_end s" "heap_head t = heap_head s"
    "heap.more t = heap.more s"
  shows "vfs_rep a t T \<longleftrightarrow> vfs_rep a s T" "vfs_check_mount x t = vfs_check_mount x s" "vfs_root t = vfs_root s" "fd_table t = fd_table s"
    "op_create t = op_create s" "op_read t = op_read s" "op_write t = op_write s" "op_list t = op_list s"
proof -
  note o = heap_more_ops [OF h(5)]
  have "ramfs_ops_at t = ramfs_ops_at s" "fd_table t = fd_table s" using h(5) by (cases s; cases t; simp)+
  then show "vfs_rep a t T \<longleftrightarrow> vfs_rep a s T" "fd_table t = fd_table s"
    using tree_rep_fields [of t s a T] h o by (simp_all add: vfs_rep_def)
  show "vfs_check_mount x t = vfs_check_mount x s" "vfs_root t = vfs_root s"
    "op_create t = op_create s" "op_read t = op_read s" "op_write t = op_write s" "op_list t = op_list s"
    using o by (simp_all add: vfs_check_mount_def)
qed

lemma heap_of_console:
  assumes "console.more t = console.more (s :: 'a heap_scheme)"
  shows "ram t = ram s" "heap_start t = heap_start s" "heap_end t = heap_end s" "heap_head t = heap_head s"
    "heap.more t = heap.more s"
  using assms by (cases s; cases t; simp)+

lemmas fs_of_console = fs_of_heap [OF heap_of_console]

definition files_ready :: "'a fd_scheme \<Rightarrow> bool" where
  "files_ready t \<longleftrightarrow> (\<exists>r c d a. vfs_rep a t (boot_tree r c d) \<and> vfs_root t = r \<and> distinct [0, r, c, d]
     \<and> (\<forall>x. vfs_check_mount x t = (if x = c then d else x))
     \<and> op_create t \<and> op_read t \<and> op_write t \<and> op_list t)
     \<and> length (fd_table t) = MAX_FDS \<and> (\<forall>i < MAX_FDS. \<not> fd_used (fd_table t ! i))"

lemma files_ready_cong: "console.more t = console.more s \<Longrightarrow> files_ready s \<Longrightarrow> files_ready (t :: 'a fd_scheme)"
  unfolding files_ready_def using fs_of_console [of t s] by simp

lemma console_fd_more: "console.more t = console.more s \<Longrightarrow> fd.more t = fd.more (s :: 'a fd_scheme)"
  by (cases s; cases t) simp

text \<open>The first page of the heap faults in: a frame for it and one for the table.\<close>

lemma first_touch:
  fixes s :: "'a shell_scheme"
  assumes hb: "heap_backed s" and z: "frame_used s 0" and tab: "page_tables s 1 = 0" and low: "2 \<le> card {p \<in> available s. p \<le> 0x3FF000}"
    and none: "translate s 0x400000 = None"
  obtains f t where "page_in [(r, 0x400000)] s = Some (Returns t)" "heap_backed t" "frame_used t 0" "reachable_table (page_tables t 1)"
    "\<And>w. translate t w = (if page_of w = 0x400000 then Some (f OR (w AND 0xFFF)) else translate s w)" "f \<in> available s"
    "card (available t) + 2 = card (available s)" "card (absent t) \<le> 1023" "holdings t = holdings s" "processor t = processor s"
proof -
  let ?r = "r\<lparr>int_no := 14, err_code := err_code r AND 2\<rparr>"
  have e: "int_no ?r = 14" "err_code ?r AND 1 = 0" "err_code ?r AND 4 = 0" by (simp_all add: and.assoc)
  have "{p \<in> available s. p \<le> 0x3FF000} \<noteq> {}" using low by (metis card.empty not_numeral_le_zero)
  then have some: "available s \<noteq> {}" by blast
  have v: "heap_address 0x400000" "page_of 0x400000 = 0x400000" by simp_all
  obtain f t where t: "isr_handler ?r (s\<lparr>regs := (regs s)\<lparr>r_cr2 := 0x400000\<rparr>\<rparr>) = Some (Returns t)" "heap_backed t" "frame_used t 0"
    "f \<in> available s" "\<And>w. translate t w = (if page_of w = page_of 0x400000 then Some (f OR (w AND 0xFFF)) else translate s w)"
    "absent t = absent s - {page_of 0x400000}" "page_of 0x400000 \<in> absent s" "reachable_table (page_tables t 1)"
    "\<exists>x \<in> available s - {f}. available t = available s - {f, x}"
    by (rule touch_served [OF hb z v(1) none e some low]) (use tab that in simp_all)
  have run: "page_in [(r, 0x400000)] s = Some (Returns t)" using none t(1) by simp
  obtain x where x: "x \<in> available s" "x \<noteq> f" "available t = available s - {f} - {x}" using t(9) by blast
  have "card (available s - {f}) + 1 = card (available s)"
    using t(4) card_Suc_Diff1 [of "available s" f] by simp
  moreover have "card (available s - {f} - {x}) + 1 = card (available s - {f})"
    using x(1,2) card_Suc_Diff1 [of "available s - {f}" x] by simp
  ultimately have c: "card (available t) + 2 = card (available s)" by (simp add: x(3))
  have "absent s \<subseteq> (\<lambda>k. of_nat k * 4096) ` {1024..<2048}"
  proof
    fix v assume v: "v \<in> absent s"
    then have p: "page_of v = v" "heap_address v" by (simp_all add: absent_def)
    have "push_bit 12 (drop_bit 12 v) = page_of v" unfolding page_mask by (rule bit_word_eqI) (auto simp: bit_simps)
    moreover have "of_nat (unat (drop_bit 12 v)) = drop_bit 12 v" by simp
    then have "drop_bit 12 v = of_nat (unat v div 4096)" by (simp add: unat_drop_bit_div)
    ultimately have "v = of_nat (unat v div 4096) * 4096" using p(1) by (simp add: push_bit_eq_mult)
    moreover have "1024 \<le> unat v div 4096" "unat v div 4096 < 2048"
      using p(2) by (simp_all add: word_le_nat_alt word_less_nat_alt less_eq_div_iff_mult_less_eq div_less_iff_less_mult)
    ultimately show "v \<in> (\<lambda>k. of_nat k * 4096) ` {1024..<2048}" by auto
  qed
  then have "card (absent s) \<le> card {1024..<2048 :: nat}" by (rule surj_card_le [OF finite_atLeastLessThan])
  then have "card (absent t) \<le> 1023" using t(7) unfolding t(6) v(2) by (simp add: card_Diff_singleton)
  then show ?thesis
    using that [OF run t(2,3,8) _ t(4) c _ held.page_in_part [OF run] cpu.page_in_part [OF run]] t(5) unfolding v(2) by blast
qed

lemma boot_files_ok:
  fixes s :: "'a shell_scheme"
  assumes h: "heap_rep ([], 0x100000) s" "heap_end s = 0x400000"
    and new: "\<not> ramfs_initialized s" "mount_count s = 0" "length (fd_table s) = MAX_FDS"
    and pg: "heap_backed s" "frame_used s 0" "page_tables s 1 = 0" "2 \<le> card {p \<in> available s. p \<le> 0x3FF000}"
      "translate s 0x400000 = None"
  obtains f t where "boot_files im s = Some (Returns t)" "processor t = processor s" "gdt t = gdt s" "idt t = idt s" "files_ready t"
    "fd.more t = fd.more s" "unat (heap_end t) \<le> 0x400000 + 2976" "heap_backed t" "frame_used t 0" "reachable_table (page_tables t 1)"
    "\<And>w. translate t w = (if page_of w = 0x400000 then Some (f OR (w AND 0xFFF)) else translate s w)" "f \<in> available s"
    "card (available t) + 2 = card (available s)" "card (absent t) \<le> 1023"
proof -
  define s1 where "s1 = status_begin (lit ''Initializing Root Filesystem'')
    (boot_step ''Initializing FD'' fd_init (boot_step ''Initializing VFS'' vfs_init s))"
  have e: "fd_init u = u\<lparr>fd_table := map (\<lambda>d. d\<lparr>fd_used := False\<rparr>) (fd_table u)\<rparr>" for u :: "'a shell_scheme"
    by (simp add: fd_init_def)
  have tab: "fd_table (status_begin m u) = fd_table u" "fd_table (status_end_ok u) = fd_table u" for m and u :: "'a shell_scheme"
    using heap_more_fd(1) [where t = "status_begin m u" and s = u and tab = "fd_table u"]
      heap_more_fd(1) [where t = "status_end_ok u" and s = u and tab = "fd_table u"] by simp_all
  have ops: "ramfs_initialized (status_begin m u) = ramfs_initialized u" "mount_count (status_begin m u) = mount_count u"
    "ramfs_initialized (status_end_ok u) = ramfs_initialized u" "mount_count (status_end_ok u) = mount_count u"
    for m and u :: "'a shell_scheme"
    using heap_more_ops(1,8) [of "status_begin m u" u] heap_more_ops(1,8) [of "status_end_ok u" u] by simp_all
  have s1: "machine s1 = machine s" "ram s1 = ram s" "heap_start s1 = heap_start s" "heap_end s1 = heap_end s" "heap_head s1 = heap_head s"
    "\<not> ramfs_initialized s1" "mount_count s1 = 0" "fd_table s1 = map (\<lambda>d. d\<lparr>fd_used := False\<rparr>) (fd_table s)"
    using new by (simp_all add: s1_def boot_step_def vfs_init_def e tab ops) (simp add: machine_def)
  have sm: "same_memory s s1" using s1(1) by (simp add: machine_def same_memory_def)
  note sa = same_memory_available [OF sm] heap_backed_same [OF sm]
  have st: "heap_start s1 = 0x400000" using h(1) by (simp add: heap_rep_def heap_inv_def s1 adr_def)
  have z1: "frame_used s1 0" using pg(2) sm by (simp add: frame_used_def same_memory_def)
  have p1: "heap_backed s1" "page_tables s1 1 = 0" "2 \<le> card {p \<in> available s1. p \<le> 0x3FF000}" "translate s1 0x400000 = None"
    using pg(1,3-5) by (simp_all add: sa)
  obtain f s2 where s2: "page_in [(im_touch im, 0x400000)] s1 = Some (Returns s2)" "heap_backed s2" "frame_used s2 0"
    "reachable_table (page_tables s2 1)"
    "\<And>w. translate s2 w = (if page_of w = 0x400000 then Some (f OR (w AND 0xFFF)) else translate s1 w)" "f \<in> available s1"
    "card (available s2) + 2 = card (available s1)" "card (absent s2) \<le> 1023" "holdings s2 = holdings s1" "processor s2 = processor s1"
    by (rule first_touch [OF p1(1) z1 p1(2-4), of "im_touch im"]) (rule that; assumption)
  have hs: "ram s2 = ram s1" "heap_start s2 = heap_start s1" "heap_end s2 = heap_end s1" "heap_head s2 = heap_head s1"
    "heap.more s2 = heap.more s1" using s2(9) by (simp_all add: holdings_def)
  have o2: "ramfs_initialized s2 = ramfs_initialized s1" "mount_count s2 = mount_count s1" "fd_table s2 = fd_table s1"
    "gdt s2 = gdt s1" "idt s2 = idt s1" "fd.more s2 = fd.more s1"
    using hs(5) by (cases s1; cases s2; simp)+
  have rep: "heap_rep ([], 0x100000) s2" using h(1) unfolding heap_rep_def heap_inv_def hs s1 .
  have room: "unat (heap_end s2) + 3000 < 0x800000" using h(2) by (simp add: hs s1)
  have new2: "\<not> ramfs_initialized s2" "mount_count s2 = 0" using s1(6,7) o2 by simp_all
  obtain r c d s3 a where b: "boot_filesystems s2 = Some s3" "vfs_rep a s3 (boot_tree r c d)" "vfs_root s3 = r"
    "distinct [0, r, c, d]" "\<forall>x. vfs_check_mount x s3 = (if x = c then d else x)"
    "op_create s3" "op_read s3" "op_write s3" "op_list s3" "fs.more s3 = fs.more s2" "unat (heap_end s3) \<le> unat (heap_end s2) + 2976"
    by (rule boot_disk [OF rep room new2]) (rule that; assumption)
  have t3: "fd_table s3 = fd_table s2" using b(10) by (cases s2; cases s3) simp
  have "length (fd_table s3) = MAX_FDS \<and> (\<forall>i < MAX_FDS. \<not> fd_used (fd_table s3 ! i))"
    using new(3) by (simp add: t3 o2(3) s1(8))
  then have fr3: "files_ready s3" unfolding files_ready_def using b(2-9) by blast
  define t where "t = boot_step ''Initializing Keyboard'' keyboard_init (boot_step ''Initializing Console'' console_init s3)"
  have run: "boot_files im s = Some (Returns t)"
    by (simp only: boot_files_def Option.bind.simps s1_def [symmetric] st s2(1) outcome.case b(1) t_def)
  have cm: "console.more (status_begin m u) = console.more u" "console.more (status_end_ok u) = console.more u"
    for m and u :: "'a shell_scheme"
    using vga_more_status by (metis console_of_vga)+
  have ct: "console.more t = console.more s3"
    by (simp add: t_def boot_step_def keyboard_init_def cm console_init_keeps(2))
  have "machine t = machine s2"
    using filesystems_machine [OF b(1)] by (simp add: t_def boot_step_def keyboard_init_def console_init_keeps(1))
  note mt = this [unfolded machine_def prod.inject]
  have m1: "gdt s1 = gdt s" "idt s1 = idt s" "processor s1 = processor s" using s1(1) by (simp_all add: machine_def processor_def)
  have sm2: "same_memory s2 t" using mt by (simp add: same_memory_def)
  note sb = same_memory_available [OF sm2] heap_backed_same [OF sm2]
  have fm: "fd.more t = fd.more s"
  proof -
    have k: "fd.more (status_begin m u) = fd.more u" "fd.more (status_end_ok u) = fd.more u" for m and u :: "'a shell_scheme"
      by (rule console_fd_more [OF cm(1)], rule console_fd_more [OF cm(2)])
    have "fd.more s1 = fd.more s" by (simp add: s1_def boot_step_def vfs_init_def e k)
    moreover have "fd.more s3 = fd.more s2" using b(10) by (cases s2; cases s3) simp
    ultimately show ?thesis using console_fd_more [OF ct] o2(6) by simp
  qed
  have he: "unat (heap_end t) \<le> 0x400000 + 2976"
  proof -
    have "heap_end t = heap_end s3" using ct by (cases t; cases s3) simp
    then show ?thesis using b(11) h(2) by (simp add: hs s1(4))
  qed
  have pr: "processor t = processor s" "gdt t = gdt s" "idt t = idt s"
    using mt s2(10) o2(4,5) m1 by (simp_all add: processor_def)
  have pt: "heap_backed t" "frame_used t 0" "reachable_table (page_tables t 1)" "f \<in> available s"
    "card (available t) + 2 = card (available s)" "card (absent t) \<le> 1023"
    using s2(2-4,6-8) sm2 by (simp_all add: sb sa absent_def frame_used_def same_memory_def)
  have tr: "translate t w = (if page_of w = 0x400000 then Some (f OR (w AND 0xFFF)) else translate s w)" for w
    using s2(5) [of w] by (simp add: sb sa)
  show ?thesis by (rule that [OF run pr files_ready_cong [OF ct fr3] fm he pt(1-3) tr pt(4-6)])
qed


section \<open>The pauses\<close>

text \<open>What a halt may bring before the shell runs: the timer moves the clock, the keyboard fills its ring;
  nothing else is touched.\<close>

definition device_wake :: "('a descriptors_scheme \<Rightarrow> 'a descriptors_scheme) \<Rightarrow> bool" where
  "device_wake wake \<longleftrightarrow> steps_clock wake
     \<and> (\<forall>s. keyboard.more (wake s) = keyboard.more s \<and> regs (wake s) = regs s \<and> interrupts_on (wake s) = interrupts_on s)"

definition calm :: "'a descriptors_scheme \<Rightarrow> 'a descriptors_scheme \<Rightarrow> bool" where
  "calm s t \<longleftrightarrow> keyboard.more t = keyboard.more s \<and> regs t = regs s \<and> interrupts_on t = interrupts_on s"

lemma calm_refl: "calm s s"
  by (simp add: calm_def)

lemma calm_trans: "calm s t \<Longrightarrow> calm t u \<Longrightarrow> calm s u"
  by (simp add: calm_def)

lemma calm_quiet:
  assumes "quiet s t"
  shows "calm s t"
proof -
  have "vga.more t = vga.more s" using assms by (simp add: quiet_def)
  then have "keyboard.more t = keyboard.more s" by (cases s; cases t) simp
  then show ?thesis using assms by (simp add: calm_def quiet_def)
qed

lemma calm_machine:
  assumes "calm s t"
  shows "machine t = machine s" "console.more t = console.more s"
proof -
  have k: "keyboard.more t = keyboard.more s" using assms by (simp add: calm_def)
  then have "gdt t = gdt s" "idt t = idt s" "page_directory t = page_directory s" "page_tables t = page_tables s"
    "table_mem t = table_mem s" "bitmap t = bitmap s" "total_frames t = total_frames s"
    by (cases s; cases t; simp)+
  then show "machine t = machine s" using assms by (simp add: machine_def calm_def)
  show "console.more t = console.more s" using k by (cases s; cases t) simp
qed

lemma sleep_calm:
  assumes "device_wake wake"
  obtains t where "sleep wake ms s = Some t" "calm s t"
proof -
  have "calm s ((wake ^^ n) s)" for n
    using assms by (induction n) (auto simp: device_wake_def calm_def)
  then show ?thesis
    using that sleep_until_ends [of wake s "ticks s" "unat (ms div 10)" "ms div 10"] assms
    by (auto simp: sleep_def device_wake_def)
qed

lemma dots_calm: "device_wake wake \<Longrightarrow> \<exists>t. loading_dots wake delay n s = Some t \<and> calm s t"
proof (induction n arbitrary: s)
  case 0
  then show ?case by (simp add: calm_def)
next
  case (Suc n)
  let ?p = "vga_print (lit ''.'') s"
  obtain u where u: "sleep wake delay ?p = Some u" "calm ?p u" by (rule sleep_calm [OF Suc.prems])
  obtain t where t: "loading_dots wake delay n u = Some t" "calm u t" using Suc by blast
  have "calm s ?p" by (rule calm_quiet [OF quiet_step [OF screen_step_print]])
  then have "calm s t" by (rule calm_trans) (rule calm_trans [OF u(2) t(2)])
  then show ?case using u(1) t(1) by simp
qed

lemma animation_calm:
  assumes "device_wake wake"
  shows "\<exists>t. status_loading_animation wake d s = Some t \<and> calm s t"
  using dots_calm [OF assms] by (simp add: status_loading_animation_def Let_def calm_refl)

lemma boot_show_calm:
  fixes s :: "'a shell_scheme"
  assumes w: "device_wake wake"
  obtains t where "boot_show wake s = Some t" "calm s t"
proof -
  let ?b = "status_begin (lit ''Booting system'') s"
  obtain u where u: "status_loading_animation wake 823 ?b = Some u" "calm ?b u"
    using animation_calm [OF w] by blast
  obtain v where v: "sleep wake 1700 (status_end_ok u) = Some v" "calm (status_end_ok u) v" by (rule sleep_calm [OF w])
  obtain x where x: "sleep wake 2200 (boot_screen (vga_clear v)) = Some x" "calm (boot_screen (vga_clear v)) x"
    by (rule sleep_calm [OF w])
  let ?t = "vga_print_color boot_logo BOOT_LOGO_COLOR (vga_enable_cursor 14 15 (vga_clear x))"
  have c: "quiet y (vga_clear y)" for y :: "'a shell_scheme" by (rule quiet_step) (rule screen_step_clear)
  have su: "calm s u" by (rule calm_trans [OF calm_quiet [OF quiet_status(1)] u(2)])
  have uv: "calm u v" by (rule calm_trans [OF calm_quiet [OF quiet_status(2)] v(2)])
  have vx: "calm v x" by (rule calm_trans [OF calm_quiet [OF quiet_trans [OF c quiet_screen]] x(2)])
  have xt: "calm x ?t" by (rule calm_quiet) (rule quiet_trans [OF c quiet_trans [OF quiet_cursor(2) quiet_print_color]])
  have "calm s ?t" by (rule calm_trans [OF su calm_trans [OF uv calm_trans [OF vx xt]]])
  then show ?thesis using that u(1) v(1) x(1) by (simp add: boot_show_def)
qed


section \<open>Properties\<close>

text \<open>The map of the boot loader, and the frames it leaves to the kernel.\<close>

definition loader_map :: "u32 \<Rightarrow> mmap_entry list \<Rightarrow> mem \<Rightarrow> bool" where
  "loader_map mb rs m \<longleftrightarrow> bit (get32 m mb) 6 \<and> mmap_is m (get32 m (mb + 48) + get32 m (mb + 44)) (get32 m (mb + 48)) rs"

definition frames_total :: "mmap_entry list \<Rightarrow> u32" where
  "frames_total rs = fold highest_step rs 0 div FRAME_SIZE"

definition free_for_kernel :: "image \<Rightarrow> mmap_entry list \<Rightarrow> u32 \<Rightarrow> bool" where
  "free_for_kernel im rs g \<longleftrightarrow> usable rs g
     \<and> \<not> (im_kernel_start im div FRAME_SIZE \<le> g \<and> g < (im_kernel_end im + FRAME_SIZE - 1) div FRAME_SIZE)
     \<and> \<not> (im_kernel_end im div FRAME_SIZE \<le> g
          \<and> g < ((im_kernel_end im + (frames_total rs + 31) div 32 * 4 + FRAME_SIZE - 1) AND NOT (FRAME_SIZE - 1)) div FRAME_SIZE)"

text \<open>All frames that memory set-up leaves free.\<close>

definition kernel_frames :: "image \<Rightarrow> mmap_entry list \<Rightarrow> u32 set" where
  "kernel_frames im rs = {g. unat g < 32 * (unat (frames_total rs) div 32) \<and> free_for_kernel im rs g}"

lemma available_frames:
  assumes ok: "pmm_ok s" and z: "frame_used s 0" and f: "\<And>g. unat g < scanned s \<Longrightarrow> \<not> frame_used s g \<longleftrightarrow> Q g"
  defines "F \<equiv> {g. unat g < scanned s \<and> Q g}"
  shows "card (available s) = card F" "card {p \<in> available s. p \<le> 0x3FF000} = card {g \<in> F. g < 0x400}"
proof -
  let ?a = "\<lambda>g :: u32. g * FRAME_SIZE"
  have u: "unat (?a g) = unat g * 4096" if "unat g < scanned s" for g using unat_frame_addr [OF ok that] by simp
  have inj: "inj_on ?a {g. unat g < scanned s}"
  proof (rule inj_onI)
    fix g h :: u32 assume *: "g \<in> {g. unat g < scanned s}" "h \<in> {g. unat g < scanned s}" "?a g = ?a h"
    then have "unat g * 4096 = unat h * 4096" using u [of g] u [of h] by simp
    then show "g = h" by (simp add: word_unat_eq_iff)
  qed
  have av: "available s = ?a ` F"
  proof (intro equalityI subsetI)
    fix p assume "p \<in> available s"
    then obtain k where k: "p = of_nat k * FRAME_SIZE" "k < scanned s" "\<not> frame_used s (of_nat k)" by (auto simp: available_def)
    then have "unat (of_nat k :: u32) = k" using scanned_bound(1) [of s] by (intro unat_of_nat_small) simp
    then have "of_nat k \<in> F" using k(2,3) f by (simp add: F_def)
    then show "p \<in> ?a ` F" using k(1) by blast
  next
    fix p assume "p \<in> ?a ` F"
    then obtain g where g: "p = ?a g" "unat g < scanned s" "\<not> frame_used s g" using f by (auto simp: F_def)
    then have "g \<noteq> 0" using z by metis
    then have "0 < unat g" by (simp add: unat_gt_0)
    then show "p \<in> available s" using g unfolding available_def by (intro CollectI exI [of _ "unat g"]) simp
  qed
  have sub: "F \<subseteq> {g. unat g < scanned s}" "{g \<in> F. g < 0x400} \<subseteq> {g. unat g < scanned s}" by (auto simp: F_def)
  show "card (available s) = card F" unfolding av by (rule card_image) (rule inj_on_subset [OF inj sub(1)])
  have "{p \<in> available s. p \<le> 0x3FF000} = ?a ` {g \<in> F. g < 0x400}"
    unfolding av using u by (auto simp: F_def word_le_nat_alt word_less_nat_alt)
  then show "card {p \<in> available s. p \<le> 0x3FF000} = card {g \<in> F. g < 0x400}"
    using card_image [OF inj_on_subset [OF inj sub(2)]] by simp
qed

lemma print_memory_quiet:
  fixes s :: "'a descriptors_scheme"
  assumes "loader_map mb rs (ram s)"
  obtains t where "multiboot_print_memory mb s = Some t" "quiet s t"
proof -
  have f: "get32 (ram s) mb AND push_bit 6 1 \<noteq> 0" using assms unfolding loader_map_def by (simp only: and_push_bit_1 not_not)
  have p: "quiet u (print_region r u)" for r and u :: "'a descriptors_scheme"
    unfolding print_region_def by (rule quiet_seq) (auto intro: quiet_step screen_step_print screen_step_print_hex)
  let ?u = "print_text ''Memory map:\<newline>'' s"
  have "mmap_is (ram s) (get32 (ram s) (mb + 48) + get32 (ram s) (mb + 44)) (get32 (ram s) (mb + 48)) rs"
    using assms by (simp add: loader_map_def)
  from mmap_walk_fold [OF this] have "multiboot_print_memory mb s = Some (fold print_region rs ?u)"
    using f by (simp add: multiboot_print_memory_def Let_def)
  moreover have "quiet s (fold print_region rs ?u)"
    by (rule quiet_trans [OF quiet_step [OF screen_step_print] quiet_fold]) (rule p)
  ultimately show ?thesis by (rule that)
qed

lemma pmm_total_ok: "total_frames t = frames_total rs \<Longrightarrow> pmm_ok t"
proof -
  assume "total_frames t = frames_total rs"
  moreover have "unat (fold highest_step rs 0) < 2 ^ LENGTH(32)" by (rule unsigned_less)
  ultimately show ?thesis by (simp add: pmm_ok_def frames_total_def unat_div)
qed

text \<open>What the boot sequence leaves, with the fields of the shell, the extent of the heap and the frames still free.\<close>

lemma kernel_boot_state:
  fixes s :: "'a shell_scheme"
  assumes mb: "loader_map mb rs (ram s)"
    and fr: "3 \<le> card {g \<in> kernel_frames im rs. g < 0x400}" "0 \<notin> kernel_frames im rs"
    and zero: "fresh_tables s" "heap_head s = 0" "\<not> ramfs_initialized s" "mount_count s = 0" "length (fd_table s) = MAX_FDS"
    and w: "device_wake wake"
  shows "\<exists>t f. kernel_boot im wake mb s = Some (Returns t) \<and> interrupts_on t \<and> tables_ready im t \<and> files_ready t
    \<and> (\<forall>v. translate t v = (if page_of v = 0x400000 then Some (f OR (v AND 0xFFF))
                              else if 0x1000 \<le> v \<and> v < 0x400000 then Some v else None))
    \<and> f \<in> (\<lambda>g. g * FRAME_SIZE) ` kernel_frames im rs
    \<and> card (available t) + 3 = card (kernel_frames im rs) \<and> unat (heap_end t) \<le> 0x400000 + 2976
    \<and> heap_backed t \<and> frame_used t 0 \<and> reachable_table (page_tables t 1) \<and> card (absent t) \<le> 1023
    \<and> fd.more t = fd.more s"
proof -
  have c: "quiet s (vga_clear s)" by (rule quiet_step) (rule screen_step_clear)
  have mb': "loader_map mb rs (ram (vga_clear s))" using mb unfolding quiet_fields(8) [OF c] .
  obtain s1 where s1: "multiboot_print_memory mb (vga_clear s) = Some s1" "quiet (vga_clear s) s1"
    by (rule print_memory_quiet [OF mb'])
  let ?b = "status_begin (lit ''Initializing PMM'') s1"
  have q: "quiet s ?b" by (rule quiet_trans [OF c quiet_trans [OF s1(2) quiet_status(1)]])
  note fq = quiet_fields [OF q]
  have map: "bit (get32 (ram ?b) mb) 6"
    "mmap_is (ram ?b) (get32 (ram ?b) (mb + 48) + get32 (ram ?b) (mb + 44)) (get32 (ram ?b) (mb + 48)) rs"
    using mb unfolding fq(8) loader_map_def by simp_all
  obtain s2 where s2: "pmm_init (im_kernel_start im) (im_kernel_end im) mb ?b = Some (0, s2)" "total_frames s2 = frames_total rs"
    "\<And>g. unat g < scanned s2 \<Longrightarrow> \<not> frame_used s2 g \<longleftrightarrow> free_for_kernel im rs g"
    using pmm_init_ok [OF map, of "im_kernel_start im" "im_kernel_end im"]
    unfolding free_for_kernel_def frames_total_def by auto
  note shape = only_frames_fields [OF pmm_init_shape [OF s2(1) map(2)]]
  have F: "kernel_frames im rs = {g. unat g < scanned s2 \<and> free_for_kernel im rs g}"
    by (simp add: kernel_frames_def scanned_def s2(2))
  have ok: "pmm_ok s2" by (rule pmm_total_ok [OF s2(2)])
  have "\<exists>g. g \<in> kernel_frames im rs" using fr(1) by (metis (no_types, lifting) card.empty empty_Collect_eq not_numeral_le_zero)
  then have "0 < scanned s2" by (auto simp: F)
  then have z: "frame_used s2 0" using s2(3) [of 0] fr(2) by (simp add: F)
  note cards = available_frames [OF ok z s2(3), folded F]
  have low: "3 \<le> card {p \<in> available s2. p \<le> 0x3FF000}" using fr(1) cards(2) by simp
  then have "{p \<in> available s2. p \<le> 0x3FF000} \<noteq> {}" by (metis card.empty not_numeral_le_zero)
  then obtain q where q: "q \<in> available s2" by blast
  have nz: "fst (pmm_alloc_frame s2) \<noteq> 0"
    using alloc_lowest [OF ok z _ q] by (cases "pmm_alloc_frame s2") auto
  let ?s2 = "status_end_ok s2"
  have av2: "available ?s2 = available s2" by (simp add: available_def scanned_def frame_used_def)
  have p: "pmm_ok ?s2" "fst (pmm_alloc_frame ?s2) \<noteq> 0" "fresh_tables ?s2" "frame_used ?s2 0" "heap_head ?s2 = 0"
    using ok nz z zero(1,2) frames_cong [of ?s2 s2] shape fq by (simp_all add: fresh_tables_def frame_used_def)
  obtain s3 where s3: "boot_machine im ?s2 = Some s3" "tables_ready im s3" "interrupts_on s3"
    "\<forall>v. translate s3 v = (if 0x1000 \<le> v \<and> v < 0x400000 then Some v else None)"
    "heap_rep ([], 0x100000) s3" "heap_end s3 = 0x400000" "descriptors.more s3 = descriptors.more ?s2" "heap_backed s3"
    "frame_used s3 0" "page_tables s3 1 = 0" "\<exists>p \<in> available ?s2. available s3 = available ?s2 - {p}"
    by (rule boot_machine_ok [OF p, where im = im]) (rule that; assumption)
  obtain p0 where p0: "p0 \<in> available s2" "available s3 = available s2 - {p0}" using s3(11) av2 by auto
  have "descriptors.more s3 = descriptors.more s"
    using s3(7) descriptors_more [OF shape(4)] descriptors_more [OF fq(12)] by simp
  note ms = this
  then have new: "\<not> ramfs_initialized s3" "mount_count s3 = 0" "length (fd_table s3) = MAX_FDS"
    using zero(3-5) by (cases s; cases s3; simp)+
  have c3: "card (available s3) + 1 = card (kernel_frames im rs)"
    using card_Suc_Diff1 [of "available s2" p0] p0 cards(1) by simp
  have "{p \<in> available s3. p \<le> 0x3FF000} = {p \<in> available s2. p \<le> 0x3FF000} - {p0}" unfolding p0(2) by blast
  then have low3: "2 \<le> card {p \<in> available s3. p \<le> 0x3FF000}"
    using low diff_card_le_card_Diff [of "{p0}" "{p \<in> available s2. p \<le> 0x3FF000}"] by simp
  have none: "translate s3 0x400000 = None" using s3(4) by simp
  obtain f s4 where s4: "boot_files im s3 = Some (Returns s4)" "processor s4 = processor s3" "gdt s4 = gdt s3" "idt s4 = idt s3" "files_ready s4"
    "fd.more s4 = fd.more s3" "unat (heap_end s4) \<le> 0x400000 + 2976" "heap_backed s4" "frame_used s4 0" "reachable_table (page_tables s4 1)"
    "\<And>w. translate s4 w = (if page_of w = 0x400000 then Some (f OR (w AND 0xFFF)) else translate s3 w)" "f \<in> available s3"
    "card (available s4) + 2 = card (available s3)" "card (absent s4) \<le> 1023"
    by (rule boot_files_ok [OF s3(5,6) new s3(8-10) low3 none, of im]) (rule that; assumption)
  obtain t where t: "boot_show wake s4 = Some t" "calm s4 t" by (rule boot_show_calm [OF w])
  have m: "machine t = machine s4" by (rule calm_machine(1) [OF t(2)])
  then have sm: "same_memory s4 t" by (simp add: machine_def same_memory_def)
  note sa = same_memory_available [OF sm] heap_backed_same [OF sm]
  have pr: "processor t = processor s3" "gdt t = gdt s3" "idt t = idt s3"
    using m s4(2-4) by (simp_all add: machine_def processor_def)
  then have "interrupts_on t" using s3(3) by (simp add: processor_def)
  moreover have "tables_ready im t"
  proof -
    have "r_idtr_base (regs t) = r_idtr_base (regs s3)" "r_gdtr_base (regs t) = r_gdtr_base (regs s3)" "r_cs (regs t) = r_cs (regs s3)"
      "r_ds (regs t) = r_ds (regs s3)" "r_ss (regs t) = r_ss (regs s3)" "r_tr (regs t) = r_tr (regs s3)"
      using pr(1) by (cases "regs t"; cases "regs s3"; simp add: processor_def)+
    then show ?thesis using s3(2) pr(2,3) by (simp add: tables_ready_def)
  qed
  moreover have "files_ready t" by (rule files_ready_cong [OF calm_machine(2) [OF t(2)] s4(5)])
  moreover have "kernel_boot im wake mb s = Some (Returns t)"
    by (simp add: kernel_boot_def s1(1) s2(1) s3(1) s4(1) t(1))
  moreover have "fd.more t = fd.more s"
  proof -
    have "fd.more s3 = fd.more s" using ms by (cases s; cases s3) simp
    then show ?thesis using console_fd_more [OF calm_machine(2) [OF t(2)]] s4(6) by simp
  qed
  moreover have "heap_end t = heap_end s4" using calm_machine(2) [OF t(2)] by (cases t; cases s4) simp
  moreover have "translate t v = (if page_of v = 0x400000 then Some (f OR (v AND 0xFFF))
      else if 0x1000 \<le> v \<and> v < 0x400000 then Some v else None)" for v
    using s3(4) by (simp add: sa s4(11))
  moreover have "f \<in> (\<lambda>g. g * FRAME_SIZE) ` kernel_frames im rs"
  proof -
    have "f \<in> available s2" using s4(12) p0(2) by simp
    then obtain k where k: "f = of_nat k * FRAME_SIZE" "k < scanned s2" "\<not> frame_used s2 (of_nat k)" by (auto simp: available_def)
    then have "unat (of_nat k :: u32) = k" using scanned_bound(1) [of s2] by (intro unat_of_nat_small) simp
    then have "of_nat k \<in> kernel_frames im rs" using k(2,3) s2(3) by (simp add: F)
    then show ?thesis using k(1) by blast
  qed
  moreover have "frame_used t 0" using s4(9) sm by (simp add: frame_used_def same_memory_def)
  moreover have "absent t = absent s4" by (simp add: absent_def sa)
  ultimately show ?thesis using s4(7,8,10,13,14) c3 by (intro exI [of _ t] exI [of _ f]) (simp add: sa)
qed

text \<open>C7: from a well-formed record of the boot loader, on a machine whose memory map leaves at least three frames below 4 MB
  free and frame 0 reserved, \<open>kernel_boot\<close> returns with interrupts on, the gates, segments and task register set up, a root
  file system with \<open>/tmp\<close> mounted and all descriptors free. The pages from 4 KB up to 4 MB are mapped onto themselves; the
  file systems have brought in the first page of the heap, which holds all they use of it, in a frame of its own; no other
  page is mapped. Three frames are taken: the two page tables and this one.\<close>

theorem kernel_boot_ready:
  fixes s :: "'a shell_scheme"
  assumes mb: "loader_map mb rs (ram s)"
    and fr: "3 \<le> card {g \<in> kernel_frames im rs. g < 0x400}" "0 \<notin> kernel_frames im rs"
    and zero: "fresh_tables s" "heap_head s = 0" "\<not> ramfs_initialized s" "mount_count s = 0" "length (fd_table s) = MAX_FDS"
    and w: "device_wake wake"
  shows "\<exists>t f. kernel_boot im wake mb s = Some (Returns t) \<and> interrupts_on t \<and> tables_ready im t \<and> files_ready t
    \<and> (\<forall>v. translate t v = (if page_of v = 0x400000 then Some (f OR (v AND 0xFFF))
                              else if 0x1000 \<le> v \<and> v < 0x400000 then Some v else None))
    \<and> f \<in> (\<lambda>g. g * FRAME_SIZE) ` kernel_frames im rs
    \<and> card (available t) + 3 = card (kernel_frames im rs) \<and> unat (heap_end t) \<le> 0x400000 + 2976"
  using kernel_boot_state [OF assms] by blast

text \<open>A machine with 8 MB of memory, the image in its first 128 KB, and halts that bring timer interrupts.\<close>

definition small_image :: image where
  "small_image = \<lparr>im_kernel_start = 0, im_kernel_end = 0x20000, im_page_directory = 0x5000, im_gdt = 0x6000, im_tss = 0x6100,
     im_idt = 0x7000, im_isr = (\<lambda>n. 0x8000 + 16 * of_nat n), im_irq = (\<lambda>n. 0x9000 + 16 * of_nat n), im_touch = heap_touch\<rparr>"

definition loaded_mem :: mem where
  "loaded_mem = put32 0x300C 0x800000 loader_mem"

definition loaded :: shell where
  "loaded = fd.extend (fs.extend (empty_disk\<lparr>ram := loaded_mem\<rparr>)
     (fd.fields (replicate 32 \<lparr>fd_used = False, fd_node = 0, fd_offset = 0\<rparr>)))
     (shell.fields 0 0 0 (replicate 1024 0) (lit ''today''))"

definition small_map :: "mmap_entry list" where
  "small_map = [\<lparr>mm_size = 20, mm_addr = 0, mm_len = 0x800000, mm_type = 1\<rparr>]"

lemma loaded_mem_words:
  "get32 loaded_mem 0x2000 = 0x40" "get32 loaded_mem 0x202C = 24" "get32 loaded_mem 0x2030 = 0x3000"
  "mmap_entry_at loaded_mem 0x3000 = \<lparr>mm_size = 20, mm_addr = 0, mm_len = 0x800000, mm_type = 1\<rparr>"
  by (simp_all add: loaded_mem_def loader_mem_def mmap_entry_at_def get64_def get32_put32_apart apart_def)
    (simp_all add: get32_def)

lemma small_frames: "g \<in> kernel_frames small_image small_map" if "0x30 \<le> unat g" "unat g < 0x800"
proof -
  have tot: "frames_total small_map = 0x800" by (simp add: frames_total_def highest_step_def small_map_def)
  show ?thesis
    using that unfolding kernel_frames_def free_for_kernel_def tot
    by (simp add: usable_def small_image_def small_map_def word_le_nat_alt word_less_nat_alt)
qed

lemma loaded_ready:
  "loader_map 0x2000 small_map (ram loaded)"
  "3 \<le> card {g \<in> kernel_frames small_image small_map. g < 0x400}" "0 \<notin> kernel_frames small_image small_map"
  "fresh_tables loaded" "heap_head loaded = 0" "\<not> ramfs_initialized loaded" "mount_count loaded = 0" "length (fd_table loaded) = MAX_FDS"
  "1026 \<le> card (kernel_frames small_image small_map)"
proof -
  have l: "ram loaded = loaded_mem" "page_directory loaded = (\<lambda>_. 0)" "page_tables loaded = (\<lambda>_. 0)"
    by (simp_all add: loaded_def empty_disk_def boot_tables_def descriptors.defs heap.defs fs.defs fd.defs power_on_def)
  show "heap_head loaded = 0" "\<not> ramfs_initialized loaded" "mount_count loaded = 0" "length (fd_table loaded) = MAX_FDS"
    by (simp_all add: loaded_def empty_disk_def boot_tables_def descriptors.defs heap.defs fs.defs fd.defs power_on_def)
  show "loader_map 0x2000 small_map (ram loaded)" by (simp add: loader_map_def l loaded_mem_words small_map_def)
  have "{0x30, 0x31, 0x32} \<subseteq> {g \<in> kernel_frames small_image small_map. g < 0x400}" using small_frames by simp
  from card_mono [OF _ this] show "3 \<le> card {g \<in> kernel_frames small_image small_map. g < 0x400}" by simp
  show "0 \<notin> kernel_frames small_image small_map"
    by (simp add: kernel_frames_def free_for_kernel_def usable_def small_image_def)
  have u: "unat (of_nat k :: u32) = k" if "k < 0x800" for k using that by (intro unat_of_nat_small) simp
  have "of_nat ` {0x30..<0x800} \<subseteq> kernel_frames small_image small_map" using small_frames u by auto
  moreover have "inj_on (of_nat :: nat \<Rightarrow> u32) {0x30..<0x800}" by (rule inj_onI) (metis u atLeastLessThan_iff)
  ultimately have "card {0x30..<0x800 :: nat} \<le> card (kernel_frames small_image small_map)"
    using card_mono card_image finite by metis
  then show "1026 \<le> card (kernel_frames small_image small_map)" by simp
  show "fresh_tables loaded" by (simp add: fresh_tables_def l)
qed

lemma timer_tick_wakes: "device_wake (timer_tick :: shell \<Rightarrow> shell)"
  using timer_tick_steps by (simp add: device_wake_def timer_tick_def Let_def)

theorem kernel_boot_ready_witness:
  "\<exists>t f. kernel_boot small_image timer_tick 0x2000 loaded = Some (Returns t) \<and> interrupts_on t
     \<and> gate_offset (idt t 33) = 0x9010 \<and> translate t 0xB8000 = Some 0xB8000 \<and> translate t 0x400010 = Some (f OR 0x10)
     \<and> translate t 0x401000 = None \<and> files_ready t"
proof -
  obtain t f where t: "kernel_boot small_image timer_tick 0x2000 loaded = Some (Returns t)" "interrupts_on t"
    "tables_ready small_image t" "files_ready t" "\<forall>v. translate t v = (if page_of v = 0x400000 then Some (f OR (v AND 0xFFF))
                              else if 0x1000 \<le> v \<and> v < 0x400000 then Some v else None)"
    using kernel_boot_ready [OF loaded_ready(1-8) timer_tick_wakes] by blast
  have "gate_offset (idt t 33) = 0x9010" using t(3) by (simp add: tables_ready_def small_image_def)
  then show ?thesis using t by (intro exI [of _ t] exI [of _ f]) simp
qed

end
