(* ===== verification/ShellFiles.thy ===== *)
theory ShellFiles
  imports Shell
begin

text \<open>
  The file commands of the shell on the abstract tree: what \<open>write\<close> leaves in a file and what \<open>rd\<close> and
  \<open>ls\<close> show of it. A command prints and changes memory; the two parts of the state are described apart,
  the screen by \<open>vga.truncate\<close> and everything else by \<open>vga.more\<close>.
\<close>

section \<open>Screen and memory\<close>

lemma truncate_print: "vga.truncate (vga_print t s) = vga_print t (vga.truncate s)"
proof -
  have "vga.truncate (vga_putchar c s) = vga_putchar c (vga.truncate s)" for c and s :: "'a vga_scheme"
    by (cases s) (simp add: vga_putchar_def vga_scroll_def vga_update_cursor_def outb_def Let_def vga.defs)
  then show ?thesis by (induction t arbitrary: s) (auto simp: vga_print.simps)
qed

lemma more_print [simp]: "vga.more (vga_print t s) = vga.more s"
  by (rule screen_step_fields(6) [OF screen_step_print])

lemma fs_of_more:
  fixes s t :: "'a fd_scheme"
  assumes "vga.more t = vga.more s"
  shows "vfs_rep a t T \<longleftrightarrow> vfs_rep a s T" "fd_table t = fd_table s" "mnt_of t = mnt_of s" "vfs_root t = vfs_root s"
    "op_read t = op_read s" "op_write t = op_write s" "op_list t = op_list s" "op_create t = op_create s" "ram t = ram s"
proof -
  note f = vga_more_fs [OF assms]
  note o = heap_more_ops [OF f(6)]
  show "vfs_rep a t T \<longleftrightarrow> vfs_rep a s T" using tree_rep_fields [OF f(1-5)] o by (simp add: vfs_rep_def)
  show "fd_table t = fd_table s" using f(6) by (cases s; cases t) simp
  show "mnt_of t = mnt_of s" using o by (simp add: vfs_check_mount_def)
qed (use vga_more_fs [OF assms] heap_more_ops [OF vga_more_fs(6) [OF assms]] in simp_all)

lemma read_str_holds: "holds r t \<Longrightarrow> read_str r = Some t"
proof (induction t arbitrary: r)
  case Nil
  then show ?case by (simp add: holds_Nil read_str.simps [of r])
next
  case (Cons c t)
  then show ?case by (simp add: holds_Cons read_str.simps [of r])
qed

section \<open>One file, several writes\<close>

fun join_words :: "cstr list \<Rightarrow> cstr" where
  "join_words [] = []"
| "join_words [w] = w"
| "join_words (w # ws) = w @ 0x20 # join_words ws"

lemma patch_append: "off \<le> length d \<Longrightarrow> patch (off + length bs) bs' (patch off bs d) = patch off (bs @ bs') d"
  by (simp add: patch_def ac_simps)

lemma tree_write_append:
  assumes "T f = Some nd" and "off \<le> length (n_data nd)"
  shows "tree_write f (off + length bs) bs' q' cap' (tree_write f off bs q cap T) = tree_write f off (bs @ bs') q' cap' T"
  using assms by (simp add: tree_write_def patch_append)

lemma tree_write_entry: "T f = Some nd \<Longrightarrow> find_entry (tree_write f off bs q cap T) x nm = find_entry T x nm"
proof -
  assume f: "T f = Some nd"
  have "n_children (the (tree_write f off bs q cap T x)) = n_children (the (T x))"
    "n_name (the (tree_write f off bs q cap T x)) = n_name (the (T x))" for x
    using f by (simp_all add: tree_write_def)
  then show ?thesis by (simp add: find_entry_def names_def)
qed

lemma tree_write_walk: "T f = Some nd \<Longrightarrow> walk (tree_write f off bs q cap T) mnt x p = walk T mnt x p"
  by (induction p arbitrary: x) (simp_all add: tree_write_entry Let_def)

text \<open>Steps that change memory and one descriptor.\<close>

definition file_step :: "nat \<Rightarrow> 'a fd_scheme \<Rightarrow> 'a fd_scheme \<Rightarrow> bool" where
  "file_step i s t \<longleftrightarrow> heap.more t = heap.more (s\<lparr>fd_table := fd_table t\<rparr>) \<and> fd_table t = (fd_table s)[i := fd_table t ! i]"

lemma file_step_trans: "file_step i s t \<Longrightarrow> file_step i t u \<Longrightarrow> file_step i s u"
proof -
  assume st: "file_step i s t" and tu: "file_step i t u"
  have "heap.more (t\<lparr>fd_table := fd_table u\<rparr>) = heap.more (s\<lparr>fd_table := fd_table u\<rparr>)"
    using st unfolding file_step_def by (cases s; cases t; cases u) simp
  moreover have "fd_table u = (fd_table s)[i := fd_table u ! i]"
    using st tu unfolding file_step_def by (metis list_update_overwrite)
  ultimately show ?thesis using tu by (simp add: file_step_def)
qed

lemma file_stepI:
  assumes "heap.more t = heap.more (s\<lparr>fd_table := (fd_table s)[i := d]\<rparr>)" and "i < length (fd_table s)"
  shows "file_step i s t"
proof -
  have "fd_table t = (fd_table s)[i := d]" by (rule heap_more_fd(1) [OF assms(1)])
  then show ?thesis using assms by (simp add: file_step_def)
qed

lemma write_step:
  assumes fd: "fd_is i f off s" and T: "tree_rep a s T" and f: "T f = Some nd" "n_flags nd AND VFS_DIR = 0"
    and w: "op_write s" and off: "off \<le> length (n_data nd)" and r: "holds r bs" and n: "bs \<noteq> []" "heap_room (off + length bs) s"
  obtains q cap s' a' where "sys_write (of_nat i) r (of_nat (length bs)) s = Some (of_nat (length bs), s')"
    "tree_rep a' s' (tree_write f off bs q cap T)" "fd_is i f (off + length bs) s'" "file_step i s s'"
    "op_write s'" "unat (heap_end s') \<le> unat (heap_end s) + 4 * (off + length bs) + 80"
proof -
  have b: "\<forall>j < length bs. r j = Some (bs ! j)" using r by (simp add: holds_def)
  have l: "0 < length bs" using n(1) by simp
  from sys_write_file [OF fd T f w off l n(2) b]
  obtain q cap s' a' where s': "sys_write (of_nat i) r (of_nat (length bs)) s = Some (of_nat (length bs), s')"
    "tree_rep a' s' (tree_write f off bs q cap T)" "fd_is i f (off + length bs) s'"
    "heap.more s' = heap.more (s\<lparr>fd_table := (fd_table s)[i := (fd_table s ! i)\<lparr>fd_offset := of_nat (off + length bs)\<rparr>]\<rparr>)"
    "unat (heap_end s') \<le> unat (heap_end s) + 4 * (off + length bs) + 80"
    by metis
  have "i < length (fd_table s)" using fd by (simp add: fd_is_def)
  then have "file_step i s s'" by (rule file_stepI [OF s'(4)])
  moreover have "op_write s'" using heap_more_fd(6) [OF s'(4)] w by simp
  ultimately show ?thesis using that s' by blast
qed


lemma join_words_Cons: "ws \<noteq> [] \<Longrightarrow> join_words (w # ws) = w @ 0x20 # join_words ws"
  by (cases ws) simp_all

text \<open>Each word and each space in between takes at most this much of the heap.\<close>

definition words_room :: "nat \<Rightarrow> nat \<Rightarrow> 'a heap_scheme \<Rightarrow> bool" where
  "words_room k n s \<longleftrightarrow> unat (heap_end s) + 2 * k * (4 * n + 80) < 0x800000"

lemma words_room_mono: "words_room (Suc k) n s \<Longrightarrow> m \<le> n \<Longrightarrow> heap_room m s"
  by (simp add: words_room_def heap_room_def)

lemma words_room_step:
  assumes "words_room (Suc k) n s" and "unat (heap_end t) \<le> unat (heap_end s) + 4 * m + 80" and "m \<le> n"
    and "unat (heap_end u) \<le> unat (heap_end t) + 4 * m' + 80" and "m' \<le> n"
  shows "words_room k n u" "heap_room n t"
  using assms by (simp_all add: words_room_def heap_room_def algebra_simps)

lemma space: "holds (str_at (lit '' '')) [0x20]" "lit '' '' = [0x20]"
  by (simp_all add: lit_simps)

lemma write_words_file:
  assumes "list_all2 holds argv ws" and "ws \<noteq> []" and "[] \<notin> set ws"
    and "fd_is i f off s" and "tree_rep a s T" and "T f = Some nd" "n_flags nd AND VFS_DIR = 0"
    and "op_write s" and "off \<le> length (n_data nd)" and "words_room (length ws) (off + length (join_words ws)) s"
  shows "\<exists>q cap s' a'. write_words (of_nat i) argv s = Some s' \<and> tree_rep a' s' (tree_write f off (join_words ws) q cap T)
    \<and> file_step i s s'
    \<and> unat (heap_end s') \<le> unat (heap_end s) + 2 * length ws * (4 * (off + length (join_words ws)) + 80)"
  using assms
proof (induction ws arbitrary: argv off s a T nd rule: list.induct)
  case Nil
  then show ?case by simp
next
  case (Cons w ws)
  obtain r rs where argv: "argv = r # rs" "holds r w" "list_all2 holds rs ws"
    using Cons.prems(1) by (auto simp: list_all2_Cons2)
  have len: "strlen r = Some (of_nat (length w))" by (rule strlen_holds [OF argv(2)])
  let ?n = "off + length (join_words (w # ws))"
  have n: "w \<noteq> []" "off + length w \<le> ?n" using Cons.prems(3) by (cases ws; auto)+
  have room: "words_room (Suc (length ws)) ?n s" using Cons.prems(10) by simp
  obtain q cap s1 a1 where w: "sys_write (of_nat i) r (of_nat (length w)) s = Some (of_nat (length w), s1)"
    "tree_rep a1 s1 (tree_write f off w q cap T)" "fd_is i f (off + length w) s1" "file_step i s s1"
    "op_write s1" "unat (heap_end s1) \<le> unat (heap_end s) + 4 * (off + length w) + 80"
    by (rule write_step [OF Cons.prems(4-9) argv(2) n(1) words_room_mono [OF room n(2)]])
  show ?case
  proof (cases "ws = []")
    case True
    then have "rs = []" using argv(3) by simp
    then have "write_words (of_nat i) argv s = Some s1" using argv(1) len w(1) by simp
    then show ?thesis using True w(2,4,6) unfolding True join_words.simps by fastforce
  next
    case False
    let ?o = "off + length w + 1"
    let ?T1 = "tree_write f off w q cap T"
    let ?nd1 = "nd\<lparr>n_buf := q, n_cap := cap, n_data := patch off w (n_data nd)\<rparr>"
    have T1: "?T1 f = Some ?nd1" "n_flags ?nd1 AND VFS_DIR = 0" "off + length w \<le> length (n_data ?nd1)"
      using Cons.prems(6,7,9) patch_nth(1) [of off "n_data nd" w] by (simp_all add: tree_write_def)
    have jw: "length (join_words (w # ws)) = length w + 1 + length (join_words ws)" using join_words_Cons [OF False, of w] by simp
    have o: "off + length w + length [0x20 :: u8] \<le> ?n" using jw by simp
    have step: "unat (heap_end s1) \<le> unat (heap_end s) + 4 * (off + length w) + 80" by (rule w(6))
    have r1: "heap_room (off + length w + length [0x20 :: u8]) s1"
      using words_room_step(2) [OF room step n(2), of s1 0] o by (simp add: heap_room_def)
    obtain q2 cap2 s2 a2 where sp: "sys_write (of_nat i) (str_at (lit '' '')) (of_nat (length [0x20 :: u8])) s1 = Some (of_nat (length [0x20 :: u8]), s2)"
      "tree_rep a2 s2 (tree_write f (off + length w) [0x20] q2 cap2 ?T1)" "fd_is i f (off + length w + length [0x20 :: u8]) s2"
      "file_step i s1 s2" "op_write s2" "unat (heap_end s2) \<le> unat (heap_end s1) + 4 * (off + length w + length [0x20 :: u8]) + 80"
      by (rule write_step [OF w(3,2) T1(1,2) w(5) T1(3) space(1) _ r1]) simp
    let ?T2 = "tree_write f off (w @ [0x20]) q2 cap2 T"
    have T2: "tree_rep a2 s2 ?T2" using sp(2) tree_write_append [where T = T and f = f, OF Cons.prems(6,9)] by simp
    let ?nd2 = "nd\<lparr>n_buf := q2, n_cap := cap2, n_data := patch off (w @ [0x20]) (n_data nd)\<rparr>"
    have f2: "?T2 f = Some ?nd2" "n_flags ?nd2 AND VFS_DIR = 0" "off + length (w @ [0x20]) \<le> length (n_data ?nd2)"
      using Cons.prems(6,7,9) patch_nth(1) [of off "n_data nd" "w @ [0x20]"] by (simp_all add: tree_write_def)
    have fd2: "fd_is i f (off + length (w @ [0x20])) s2" using sp(3) by (simp add: add.assoc)
    have rm: "words_room (length ws) (off + length (w @ [0x20]) + length (join_words ws)) s2"
      using words_room_step(1) [OF room step n(2) sp(6) o] jw by (simp add: ac_simps)
    have "[] \<notin> set ws" using Cons.prems(3) by simp
    from Cons.IH [OF argv(3) False this fd2 T2 f2(1,2) sp(5) f2(3) rm]
    obtain q3 cap3 s3 a3 where ih: "write_words (of_nat i) rs s2 = Some s3"
      "tree_rep a3 s3 (tree_write f (off + length (w @ [0x20])) (join_words ws) q3 cap3 ?T2)" "file_step i s2 s3"
      "unat (heap_end s3) \<le> unat (heap_end s2) + 2 * length ws * (4 * (off + length (w @ [0x20]) + length (join_words ws)) + 80)"
      by blast
    have en: "off + length (w @ [0x20]) + length (join_words ws) = ?n" using jw by simp
    have "unat (heap_end s3) \<le> unat (heap_end s2) + 2 * length ws * (4 * ?n + 80)" using ih(4) unfolding en .
    moreover have "unat (heap_end s2) \<le> unat (heap_end s) + 2 * (4 * ?n + 80)" using step sp(6) n(2) o by simp
    ultimately have end3: "unat (heap_end s3) \<le> unat (heap_end s) + 2 * length (w # ws) * (4 * ?n + 80)"
      by (simp add: algebra_simps)
    have "tree_write f (off + length (w @ [0x20])) (join_words ws) q3 cap3 ?T2 = tree_write f off (join_words (w # ws)) q3 cap3 T"
      using tree_write_append [where T = T and f = f, OF Cons.prems(6,9), of "w @ [0x20]"] join_words_Cons [OF False, of w] by simp
    moreover have "rs \<noteq> []" using argv(3) False by auto
    then have "write_words (of_nat i) argv s = Some s3" using argv(1) len w(1) sp(1) ih(1) by simp
    moreover have "file_step i s s3" by (rule file_step_trans [OF w(4) file_step_trans [OF sp(4) ih(3)]])
    ultimately show ?thesis using ih(2) end3 by metis
  qed
qed


section \<open>\<open>write\<close> and \<open>rd\<close>\<close>

lemma fd_close:
  assumes "i < MAX_FDS"
  shows "sys_close (of_nat i) s = s\<lparr>fd_table := (fd_table s)[i := (fd_table s ! i)\<lparr>fd_used := False\<rparr>]\<rparr>"
proof -
  have "0 \<le> sint (of_nat i :: i32) \<and> sint (of_nat i :: i32) < int MAX_FDS" "unat (of_nat i :: i32) = i"
    using small_fd [of i] assms by simp_all
  then show ?thesis by (simp add: sys_close_def set_fd_def)
qed

lemma free_fds_step:
  assumes "length t = n" and "i < n" and "\<not> fd_used (t ! i)"
  shows "free_fds (t[i := d\<lparr>fd_used := False\<rparr>]) = free_fds t"
  using assms by (auto simp: free_fds_def nth_list_update split: if_splits)

lemma cmd_write_file:
  assumes R: "vfs_rep a s T" and p: "holds path p" "\<forall>w \<in> set (pieces 0x2F p). length w < 64"
    and f: "walk T (mnt_of s) (vfs_root s) (pieces 0x2F p) = f" "T f = Some nd" "n_flags nd AND VFS_DIR = 0"
    and ops: "op_write s" and tab: "length (fd_table s) = MAX_FDS" "free_fds (fd_table s) \<noteq> {}"
    and ws: "list_all2 holds argv ws" "ws \<noteq> []" "[] \<notin> set ws" and room: "words_room (length ws) (length (join_words ws)) s"
  obtains q cap s' a' where "cmd_write (c # path # argv) s = Some s'" "vfs_rep a' s' (tree_write f 0 (join_words ws) q cap T)"
    "free_fds (fd_table s') = free_fds (fd_table s)" "length (fd_table s') = MAX_FDS"
    "mnt_of s' = mnt_of s" "vfs_root s' = vfs_root s" "op_read s' = op_read s"
    "\<exists>tab. heap.more s' = heap.more (s\<lparr>fd_table := tab\<rparr>)"
    "unat (heap_end s') \<le> unat (heap_end s) + 2 * length ws * (4 * length (join_words ws) + 80)"
proof -
  have T: "tree_rep a s T" using R by (simp add: vfs_rep_def)
  have f0: "f \<noteq> 0" by (rule tree_node(6) [OF T f(2)])
  obtain i s1 where o: "sys_open path s = Some (of_nat i, s1)" "fd_is i f 0 s1" "i \<in> free_fds (fd_table s)"
    "s1 = s\<lparr>fd_table := (fd_table s)[i := \<lparr>fd_used = True, fd_node = f, fd_offset = 0\<rparr>]\<rparr>" "vfs_rep a s1 T"
    by (rule sys_open_ok [OF R p f(1) f0 tab])
  have i: "i < MAX_FDS" "\<not> fd_used (fd_table s ! i)" using o(3) tab(1) by (simp_all add: free_fds_def)
  have s01: "file_step i s s1" by (rule file_stepI) (use o(4) i(1) tab(1) in simp_all)
  let ?s2 = "snd (sys_seek (of_nat i) 0 s1)"
  have k: "?s2 = s1\<lparr>fd_table := (fd_table s1)[i := (fd_table s1 ! i)\<lparr>fd_offset := of_nat 0\<rparr>]\<rparr>"
    using sys_seek_ok [OF o(2), of 0] by simp
  have s12: "file_step i s1 ?s2" by (rule file_stepI) (use k i(1) tab(1) o(4) in simp_all)
  have fd2: "fd_is i f 0 ?s2" using fd_is_seek [OF o(2), of 0] by simp
  have "vfs_rep a ?s2 T" unfolding k vfs_rep_table by (rule o(5))
  then have T2: "tree_rep a ?s2 T" by (simp add: vfs_rep_def)
  have w2: "op_write ?s2" "words_room (length ws) (0 + length (join_words ws)) ?s2"
    using ops room unfolding k unfolding o(4) by (simp_all add: words_room_def)
  have off: "0 \<le> length (n_data nd)" by simp
  obtain q cap s3 a3 where w: "write_words (of_nat i) argv ?s2 = Some s3"
    "tree_rep a3 s3 (tree_write f 0 (join_words ws) q cap T)" "file_step i ?s2 s3"
    "unat (heap_end s3) \<le> unat (heap_end ?s2) + 2 * length ws * (4 * (0 + length (join_words ws)) + 80)"
    using write_words_file [OF ws fd2 T2 f(2,3) w2(1) off w2(2)] by blast
  let ?s' = "print_text ''Written.\<newline>'' (sys_close (of_nat i) s3)"
  have st: "file_step i s s3" by (rule file_step_trans [OF s01 file_step_trans [OF s12 w(3)]])
  then have h: "heap.more s3 = heap.more (s\<lparr>fd_table := fd_table s3\<rparr>)" and t3: "fd_table s3 = (fd_table s)[i := fd_table s3 ! i]"
    by (simp_all add: file_step_def)
  have vm: "vga.more ?s' = vga.more (sys_close (of_nat i) s3)" by simp
  note e = fs_of_more [OF vm] and m = heap_more_fd [OF h]
  have run: "cmd_write (c # path # argv) s = Some ?s'"
  proof -
    have "argv \<noteq> []" using ws(1,2) by auto
    then have "\<not> length (c # path # argv) < 3" by (cases argv) auto
    then show ?thesis unfolding cmd_write_def if_not_P using o(1) w(1) small_fd(2) [of i] i(1) by simp
  qed
  have "vfs_rep a3 s3 (tree_write f 0 (join_words ws) q cap T)"
    using w(2) R m tree_write_dom [where T = T and f = f, OF f(2)] by (simp add: vfs_rep_def)
  then have V: "vfs_rep a3 ?s' (tree_write f 0 (join_words ws) q cap T)"
    unfolding e(1) unfolding fd_close [OF i(1)] by (simp add: vfs_rep_table)
  have "free_fds (fd_table ?s') = free_fds (fd_table s)" "length (fd_table ?s') = MAX_FDS"
    unfolding e(2) unfolding fd_close [OF i(1)] using free_fds_step [OF tab(1) i] t3 tab(1)
    by (metis (no_types) fd.select_convs(1) fd.surjective fd.update_convs(1) list_update_overwrite length_list_update)+
  moreover have "mnt_of ?s' = mnt_of s" "vfs_root ?s' = vfs_root s" "op_read ?s' = op_read s"
    unfolding e(3-5) unfolding fd_close [OF i(1)] using m by (simp_all add: vfs_check_mount_def)
  moreover have "heap.more ?s' = heap.more (s\<lparr>fd_table := fd_table ?s'\<rparr>)"
    unfolding vga_more_fs(6) [OF vm] e(2) unfolding fd_close [OF i(1)] using h by (cases s; cases s3) simp
  moreover have "unat (heap_end ?s') \<le> unat (heap_end s) + 2 * length ws * (4 * length (join_words ws) + 80)"
    unfolding vga_more_fs(3) [OF vm] unfolding fd_close [OF i(1)] using w(4) unfolding k unfolding o(4) by simp
  ultimately show ?thesis using that [OF run V] by blast
qed

lemma upto_nul_zero: "upto_nul (xs @ 0 # ys) = upto_nul xs"
  by (induction xs) auto

lemma read_buffer:
  fixes d :: "u8 list"
  assumes "k = min 255 (length d)"
  shows "read_str (buf_at (take 255 d @ drop k (replicate 256 0)) 0) = Some (upto_nul (take 255 d))"
proof -
  let ?b = "take 255 d @ drop k (replicate 256 0)"
  have z: "drop k (replicate 256 0) = 0 # replicate (255 - k) (0 :: u8)"
    using assms by (simp add: drop_replicate Suc_diff_le flip: replicate_Suc)
  have "upto_nul ?b = upto_nul (take 255 d)" unfolding z by (rule upto_nul_zero)
  moreover have "0 \<in> set ?b" unfolding z by simp
  ultimately show ?thesis using read_str_holds [OF holds_buf [of 0 ?b]] by simp
qed

lemma more_table:
  fixes u v :: "'a fd_scheme"
  assumes "vga.more u = vga.more v"
  shows "vga.more (u\<lparr>fd_table := tab\<rparr>) = vga.more (v\<lparr>fd_table := tab\<rparr>)"
  using assms by (cases u; cases v) simp

lemma cmd_rd_file:
  fixes s :: "'a shell_scheme"
  assumes R: "vfs_rep a s T" and p: "holds path p" "\<forall>w \<in> set (pieces 0x2F p). length w < 64"
    and f: "walk T (mnt_of s) (vfs_root s) (pieces 0x2F p) = f" "T f = Some nd" "n_flags nd AND VFS_DIR = 0"
    and ops: "op_read s" and tab: "length (fd_table s) = MAX_FDS" "free_fds (fd_table s) \<noteq> {}"
  obtains s' where "cmd_rd [c, path] s = Some s'" "vfs_rep a s' T" "free_fds (fd_table s') = free_fds (fd_table s)"
    "vga.truncate s' = vga_print [10] (vga_print (upto_nul (take 255 (n_data nd))) (vga.truncate s))"
    "vga.more s' = vga.more (s\<lparr>fd_table := fd_table s'\<rparr>)" "length (fd_table s') = MAX_FDS"
proof -
  have T: "tree_rep a s T" using R by (simp add: vfs_rep_def)
  have f0: "f \<noteq> 0" by (rule tree_node(6) [OF T f(2)])
  obtain i s1 where o: "sys_open path s = Some (of_nat i, s1)" "fd_is i f 0 s1" "i \<in> free_fds (fd_table s)"
    "s1 = s\<lparr>fd_table := (fd_table s)[i := \<lparr>fd_used = True, fd_node = f, fd_offset = 0\<rparr>]\<rparr>" "vfs_rep a s1 T"
    by (rule sys_open_ok [OF R p f(1) f0 tab])
  have i: "i < MAX_FDS" "\<not> fd_used (fd_table s ! i)" using o(3) tab(1) by (simp_all add: free_fds_def)
  let ?s2 = "snd (sys_seek (of_nat i) 0 s1)"
  have k: "?s2 = s1\<lparr>fd_table := (fd_table s1)[i := (fd_table s1 ! i)\<lparr>fd_offset := of_nat 0\<rparr>]\<rparr>"
    using sys_seek_ok [OF o(2), of 0] by simp
  have fd2: "fd_is i f 0 ?s2" using fd_is_seek [OF o(2), of 0] by simp
  have "vfs_rep a ?s2 T" unfolding k vfs_rep_table by (rule o(5))
  then have T2: "tree_rep a ?s2 T" by (simp add: vfs_rep_def)
  have r2: "op_read ?s2" using ops unfolding k unfolding o(4) by simp
  let ?d = "n_data nd" and ?k = "min 255 (length (n_data nd) - 0)"
  have n: "0 + 255 < (2 :: nat) ^ 31" and room: "?k \<le> length (replicate 256 (0 :: u8))" by simp_all
  obtain s3 where r: "sys_read (of_nat i) (replicate 256 0) (of_nat 255) ?s2 = Some (of_nat ?k, take 255 (drop 0 ?d) @ drop ?k (replicate 256 0), s3)"
    "s3 = ?s2\<lparr>fd_table := (fd_table ?s2)[i := (fd_table ?s2 ! i)\<lparr>fd_offset := of_nat (0 + ?k)\<rparr>]\<rparr>"
    using sys_read_file [OF fd2 T2 f(2,3) r2 n room] by blast
  let ?t = "upto_nul (take 255 ?d)"
  let ?s' = "sys_close (of_nat i) (print_text ''\<newline>'' (vga_print ?t s3))"
  have sk: "sint (of_nat ?k :: i32) = int ?k" by (rule small_fd(2)) simp
  have "cmd_rd [c, path] s = Some ?s'"
  proof (cases "?k = 0")
    case True
    then have "n_data nd = []" by (simp add: min_def split: if_splits)
    then show ?thesis
      using o(1) r(1) small_fd(2) [of i] i(1) by (simp add: cmd_rd_def vga_print.simps)
  next
    case False
    then have "0 < sint (of_nat ?k :: i32)" unfolding sk by simp
    then show ?thesis
      using o(1) r(1) small_fd(2) [of i] i(1) read_buffer [of ?k ?d] by (simp add: cmd_rd_def del: of_nat_min)
  qed
  moreover have "vfs_rep a ?s' T"
  proof -
    have vm: "vga.more (print_text ''\<newline>'' (vga_print ?t s3)) = vga.more s3" by simp
    show ?thesis unfolding fd_close [OF i(1)] vfs_rep_table fs_of_more(1) [OF vm]
      unfolding r(2) vfs_rep_table unfolding k vfs_rep_table by (rule o(5))
  qed
  moreover have "free_fds (fd_table ?s') = free_fds (fd_table s)"
  proof -
    have vm: "vga.more (print_text ''\<newline>'' (vga_print ?t s3)) = vga.more s3" by simp
    show ?thesis unfolding fd_close [OF i(1)] using fs_of_more(2) [OF vm] free_fds_step [OF tab(1) i]
      unfolding r(2) unfolding k unfolding o(4) by simp
  qed
  moreover have "vga.truncate ?s' = vga_print [10] (vga_print ?t (vga.truncate s))"
  proof -
    have c: "vga.truncate (t\<lparr>fd_table := x\<rparr>) = vga.truncate t" for t :: "'a shell_scheme" and x by (simp add: vga.defs)
    show ?thesis unfolding fd_close [OF i(1)] c truncate_print r(2) unfolding c k unfolding c o(4) by (simp add: c lit_simps)
  qed
  moreover have "vga.more ?s' = vga.more (s\<lparr>fd_table := fd_table ?s'\<rparr>)" "length (fd_table ?s') = MAX_FDS"
  proof -
    let ?q = "print_text ''\<newline>'' (vga_print ?t s3)"
    have vm: "vga.more ?q = vga.more s3" by simp
    have s3: "vga.more s3 = vga.more (s\<lparr>fd_table := fd_table s3\<rparr>)" "length (fd_table s3) = MAX_FDS"
      unfolding r(2) unfolding k unfolding o(4) using tab(1) by (cases s, simp)+
    show "vga.more ?s' = vga.more (s\<lparr>fd_table := fd_table ?s'\<rparr>)"
      unfolding fd_close [OF i(1)] using more_table [OF vm] more_table [OF s3(1)] by simp
    show "length (fd_table ?s') = MAX_FDS" unfolding fd_close [OF i(1)] using fs_of_more(2) [OF vm] s3(2) by simp
  qed
  ultimately show ?thesis by (rule that)
qed


section \<open>Properties\<close>

text \<open>C36: \<open>write\<close> puts its words, with single spaces in between, at the start of the file and leaves the rest of
  the file, the other nodes and the open files as they were; \<open>rd\<close> then shows the contents up to 255 bytes, and a
  new line, changes no file, and closes what it opened.\<close>

theorem write_rd_roundtrip:
  fixes s :: "'a shell_scheme"
  assumes R: "vfs_rep a s T" and p: "holds path p" "\<forall>w \<in> set (pieces 0x2F p). length w < 64"
    and f: "walk T (mnt_of s) (vfs_root s) (pieces 0x2F p) = f" "T f = Some nd" "n_flags nd AND VFS_DIR = 0"
    and ops: "op_write s" "op_read s" and tab: "length (fd_table s) = MAX_FDS" "free_fds (fd_table s) \<noteq> {}"
    and ws: "list_all2 holds argv ws" "ws \<noteq> []" "[] \<notin> set ws" and room: "words_room (length ws) (length (join_words ws)) s"
  shows "\<exists>s1 s2 a' q cap. cmd_write (c # path # argv) s = Some s1 \<and> cmd_rd [c', path] s1 = Some s2
    \<and> vfs_rep a' s1 (tree_write f 0 (join_words ws) q cap T) \<and> vfs_rep a' s2 (tree_write f 0 (join_words ws) q cap T)
    \<and> vga.truncate s2 = vga_print [10]
        (vga_print (upto_nul (take 255 (patch 0 (join_words ws) (n_data nd)))) (vga.truncate s1))
    \<and> free_fds (fd_table s2) = free_fds (fd_table s)"
proof -
  obtain q cap s1 a' where w: "cmd_write (c # path # argv) s = Some s1" "vfs_rep a' s1 (tree_write f 0 (join_words ws) q cap T)"
    "free_fds (fd_table s1) = free_fds (fd_table s)" "length (fd_table s1) = MAX_FDS"
    "mnt_of s1 = mnt_of s" "vfs_root s1 = vfs_root s" "op_read s1 = op_read s"
    by (rule cmd_write_file [OF R p f ops(1) tab ws room])
  let ?T = "tree_write f 0 (join_words ws) q cap T"
  let ?nd = "nd\<lparr>n_buf := q, n_cap := cap, n_data := patch 0 (join_words ws) (n_data nd)\<rparr>"
  have f1: "walk ?T (mnt_of s1) (vfs_root s1) (pieces 0x2F p) = f" "?T f = Some ?nd" "n_flags ?nd AND VFS_DIR = 0"
    using f tree_write_walk [where T = T and f = f, OF f(2)] by (simp_all add: w(5,6) tree_write_def)
  have t1: "op_read s1" "free_fds (fd_table s1) \<noteq> {}" using w(3,7) ops(2) tab(2) by simp_all
  obtain s2 where r: "cmd_rd [c', path] s1 = Some s2" "vfs_rep a' s2 ?T" "free_fds (fd_table s2) = free_fds (fd_table s1)"
    "vga.truncate s2 = vga_print [10] (vga_print (upto_nul (take 255 (n_data ?nd))) (vga.truncate s1))"
    by (rule cmd_rd_file [OF w(2) p f1 t1(1) w(4) t1(2)])
  have v: "vga.truncate s2 = vga_print [10]
      (vga_print (upto_nul (take 255 (patch 0 (join_words ws) (n_data nd)))) (vga.truncate s1))"
    using r(4) by simp
  have "free_fds (fd_table s2) = free_fds (fd_table s)" using r(3) w(3) by simp
  then show ?thesis using w(1,2) r(1,2) v by blast
qed

lemma log_shell:
  obtains f nd a T and s :: shell where "vfs_rep a s T" "walk T (mnt_of s) (vfs_root s) (pieces 0x2F (lit ''/log'')) = f"
    "T f = Some nd" "n_flags nd AND VFS_DIR = 0" "op_write s" "op_read s"
    "fd_table s = replicate 32 \<lparr>fd_used = False, fd_node = 0, fd_offset = 0\<rparr>" "heap_room 100 s" "n_data nd = []"
proof -
  obtain f nd a T and s :: fd where f: "vfs_rep a s T" "walk T (mnt_of s) (vfs_root s) (pieces 0x2F (lit ''/log'')) = f"
    "T f = Some nd" "n_flags nd AND VFS_DIR = 0" "op_write s" "op_read s"
    "fd_table s = replicate 32 \<lparr>fd_used = False, fd_node = 0, fd_offset = 0\<rparr>" "heap_room 100 s" "n_data nd = []"
    by (rule log_file) (rule that; assumption)
  let ?s = "fd.extend s (shell.fields 0 0 0 (replicate 1024 0) (lit ''today''))"
  have h: "ram ?s = ram s" "heap_start ?s = heap_start s" "heap_end ?s = heap_end s" "heap_head ?s = heap_head s"
    "ramfs_ops_at ?s = ramfs_ops_at s" "mounts ?s = mounts s" "mount_count ?s = mount_count s" "vfs_root ?s = vfs_root s"
    "op_lookup ?s = op_lookup s" "op_read ?s = op_read s" "op_write ?s = op_write s" "fd_table ?s = fd_table s"
    by (simp_all add: fd.defs)
  have "vfs_rep a ?s T" using f(1) tree_rep_fields [OF h(1-5)] by (simp add: vfs_rep_def h)
  moreover have "mnt_of ?s = mnt_of s" by (simp add: vfs_check_mount_def h)
  ultimately show ?thesis using that [of a ?s T f nd] f by (simp add: h heap_room_def)
qed

theorem write_rd_roundtrip_witness:
  "\<exists>s :: shell. \<exists>s1 s2. cmd_write [str_at (lit ''write''), str_at (lit ''/log''), str_at (lit ''hi''), str_at (lit ''you'')] s = Some s1
     \<and> cmd_rd [str_at (lit ''rd''), str_at (lit ''/log'')] s1 = Some s2
     \<and> vga.truncate s2 = vga_print [10] (vga_print (lit ''hi you'') (vga.truncate s1))"
proof -
  obtain f nd a T and s :: shell where f: "vfs_rep a s T" "walk T (mnt_of s) (vfs_root s) (pieces 0x2F (lit ''/log'')) = f"
    "T f = Some nd" "n_flags nd AND VFS_DIR = 0" "op_write s" "op_read s"
    "fd_table s = replicate 32 \<lparr>fd_used = False, fd_node = 0, fd_offset = 0\<rparr>" "heap_room 100 s" "n_data nd = []"
    by (rule log_shell)
  have tab: "length (fd_table s) = MAX_FDS" "free_fds (fd_table s) \<noteq> {}"
    using f(7) by (auto simp: free_fds_def intro!: exI [of _ 0])
  let ?ws = "[lit ''hi'', lit ''you'']"
  have ws: "list_all2 holds [str_at (lit ''hi''), str_at (lit ''you'')] ?ws" "?ws \<noteq> []" "[] \<notin> set ?ws"
    by (simp_all add: lit_simps)
  have room: "words_room (length ?ws) (length (join_words ?ws)) s" using f(8) by (simp add: words_room_def heap_room_def)
  have sm: "\<forall>w \<in> set (pieces 0x2F (lit ''/log'')). length w < 64" by (simp add: pieces_log(2))
  have t: "upto_nul (take 255 (patch 0 (join_words ?ws) (n_data nd))) = lit ''hi you''"
    by (simp add: f(9) patch_def lit_simps)
  show ?thesis
    using write_rd_roundtrip [OF f(1) pieces_log(1) sm f(2-6) tab ws room, of "str_at (lit ''write'')" "str_at (lit ''rd'')"]
    unfolding t by blast
qed

end
