(* ===== verification/ShellDirs.thy ===== *)
theory ShellDirs
  imports ShellFiles
begin

text \<open>
  The directory commands of the shell: \<open>mk\<close> adds an entry to the working directory, \<open>ls\<close> shows the names
  in the order of their creation.
\<close>

definition listing :: "cstr list \<Rightarrow> cstr" where
  "listing ns = concat (map (\<lambda>n. n @ [10]) ns)"

lemma list_children_names:
  fixes s :: "'a fs_scheme"
  assumes "list_all2 (\<lambda>c n. holds (mem_at m c) n) cs ns" and "ram s = m"
    and "\<forall>j < length cs. ld32 m (x + NODE_CHILDREN + 4 * of_nat (i + j)) = Some (cs ! j)"
  shows "list_children x i (length cs) s = Some (vga_print (listing ns) s)"
  using assms
proof (induction cs ns arbitrary: i s rule: list_all2_induct)
  case Nil
  then show ?case by (simp add: listing_def vga_print.simps)
next
  case (Cons c cs n ns)
  let ?t = "print_text ''\<newline>'' (vga_print n s)"
  have v: "vga.more ?t = vga.more s" by simp
  have r: "ram ?t = m" using vga_more_fs(1) [OF v] Cons.prems(1) by simp
  have h: "holds (mem_at m c) n" using Cons.hyps(1) by simp
  have c: "ld32 m (x + NODE_CHILDREN + 4 * of_nat i) = Some c" using Cons.prems(2) [rule_format, of 0] by simp
  have n: "read_str (mem_at m c) = Some n" by (rule read_str_holds [OF h])
  have "\<forall>j < length cs. ld32 m (x + NODE_CHILDREN + 4 * of_nat (Suc i + j)) = Some (cs ! j)"
  proof (intro allI impI)
    fix j assume "j < length cs"
    then show "ld32 m (x + NODE_CHILDREN + 4 * of_nat (Suc i + j)) = Some (cs ! j)"
      using Cons.prems(2) [rule_format, of "Suc j"] by simp
  qed
  then have "list_children x (Suc i) (length cs) ?t = Some (vga_print (listing ns) ?t)"
    by (rule Cons.IH [OF r])
  moreover have "vga_print (listing (n # ns)) s = vga_print (listing ns) ?t"
  proof -
    have "0 \<notin> set n" using h by (simp add: holds_def)
    then have "vga_print (n @ [10] @ listing ns) s = vga_print ([10] @ listing ns) (vga_print n s)" by (rule vga_print_append)
    also have "\<dots> = vga_print (listing ns) ?t" 
    proof -
      have "0 \<notin> set [10 :: u8]" by simp
      then have "vga_print ([10] @ listing ns) u = vga_print (listing ns) (vga_print [10] u)" for u :: "'a fs_scheme"
        by (rule vga_print_append)
      then show ?thesis by (simp add: lit_simps)
    qed
    finally show ?thesis by (simp add: listing_def)
  qed
  ultimately show ?case using c n Cons.prems(1) by simp
qed

lemma ramfs_list_names:
  assumes T: "tree_rep a s T" and d: "T d = Some nd"
  shows "ramfs_list d s = Some (0, vga_print (listing (names T nd)) s)"
proof -
  note td = tree_node [OF T d]
  have n: "ld32 (ram s) (d + NODE_PRIVATE) = Some d" "ld32 (ram s) (d + NODE_COUNT) = Some (of_nat (length (n_children nd)))"
    "length (n_children nd) \<le> 32"
    "\<forall>j < length (n_children nd). ld32 (ram s) (d + NODE_CHILDREN + 4 * of_nat (0 + j)) = Some (n_children nd ! j)"
    using td(2) by (simp_all add: node_at_def)
  have "holds (mem_at (ram s) c) (n_name (the (T c)))" if c: "c \<in> set (n_children nd)" for c
  proof -
    obtain nc where "T c = Some nc" using td(4) c by blast
    then show ?thesis using tree_node(2) [OF T] by (simp add: node_at_def)
  qed
  then have "list_all2 (\<lambda>c n. holds (mem_at (ram s) c) n) (n_children nd) (names T nd)"
    by (simp add: names_def list_all2_conv_all_nth)
  from list_children_names [OF this refl n(4)] n(1-3) show ?thesis by (simp add: ramfs_list_def)
qed

lemma cmd_ls_names:
  fixes s :: "'a shell_scheme"
  assumes R: "vfs_rep a s T" and d: "T (cwd s) = Some nd" "n_flags nd AND VFS_DIR \<noteq> 0" and l: "op_list s"
  shows "cmd_ls [c] s = Some (vga_print (listing (names T nd)) s)"
proof -
  have T: "tree_rep a s T" using R by (simp add: vfs_rep_def)
  have "ramfs_node (cwd s) s = Some ()" by (rule ramfs_node_ok [OF T]) (use d in blast)
  moreover have "ld32 (ram s) (cwd s + NODE_FLAGS) = Some (n_flags nd)" "cwd s \<noteq> 0"
    using tree_node(2,6) [OF T d(1)] by (simp_all add: node_at_def)
  ultimately show ?thesis using ramfs_list_names [OF T d(1)] d(2) l by (simp add: cmd_ls_def)
qed

lemma names_create:
  assumes "tree_rep a s T" and "T d = Some nd" and "T f = None"
  shows "tree_create d nm fl f T d = Some (nd\<lparr>n_children := n_children nd @ [f]\<rparr>)"
    "names (tree_create d nm fl f T) (nd\<lparr>n_children := n_children nd @ [f]\<rparr>) = names T nd @ [nm]"
proof -
  have fd: "f \<noteq> d" using assms(2,3) by auto
  then show "tree_create d nm fl f T d = Some (nd\<lparr>n_children := n_children nd @ [f]\<rparr>)"
    using assms(2) by (simp add: tree_create_def)
  have "n_name (the (tree_create d nm fl f T c)) = n_name (the (T c))" if "c \<in> set (n_children nd)" for c
  proof -
    have "c \<noteq> f" using tree_node(4) [OF assms(1,2)] that assms(3) by auto
    then show ?thesis using assms(2) by (simp add: tree_create_def)
  qed
  then show "names (tree_create d nm fl f T) (nd\<lparr>n_children := n_children nd @ [f]\<rparr>) = names T nd @ [nm]"
    using fd by (simp add: names_def tree_create_def empty_node_def)
qed

lemma shell_of_more:
  fixes s t :: "'a shell_scheme"
  assumes "heap.more t = heap.more s"
  shows "cwd t = cwd s" "fd_table t = fd_table s"
  using assms by (cases s; cases t; simp)+

lemma cmd_mk_entry:
  fixes s :: "'a shell_scheme"
  assumes R: "vfs_rep a s T" and d: "T (cwd s) = Some nd" and nm: "holds name nm" "length nm < 64"
    and room: "length (n_children nd) < 32" "heap_room NODE_SIZEOF s" and o: "op_create s"
  obtains f s' a' where "cmd_mk [c, name] s = Some s'" "vfs_rep a' s' (tree_create (cwd s) nm VFS_FILE f T)" "T f = None"
    "cwd s' = cwd s" "op_list s' = op_list s"
proof -
  have T: "tree_rep a s T" using R by (simp add: vfs_rep_def)
  obtain f s1 a1 where f: "ramfs_create (cwd s) name VFS_FILE s = Some (0, s1)" "T f = None" "f \<noteq> 0"
    "tree_rep a1 s1 (tree_create (cwd s) nm VFS_FILE f T)" "heap.more s1 = heap.more s"
    "unat (heap_end s1) \<le> unat (heap_end s) + 4 * NODE_SIZEOF + 80"
    by (rule ramfs_create_tree [OF T d nm room])
  let ?s = "print_text ''File created\<newline>'' s1"
  have v: "vga.more ?s = vga.more s1" by simp
  have "ramfs_node (cwd s) s = Some ()" by (rule ramfs_node_ok [OF T]) (use d in blast)
  then have run: "cmd_mk [c, name] s = Some ?s"
    using f(1) o tree_node(6) [OF T d] by (simp add: cmd_mk_def create_file_def)
  have "dom T \<subseteq> dom (tree_create (cwd s) nm VFS_FILE f T)" by (auto simp: tree_create_def)
  then have "vfs_root s \<in> dom (tree_create (cwd s) nm VFS_FILE f T)"
    "\<forall>i < mount_count s. snd (mounts s i) \<in> dom (tree_create (cwd s) nm VFS_FILE f T)"
    using R unfolding vfs_rep_def by blast+
  then have "vfs_rep a1 s1 (tree_create (cwd s) nm VFS_FILE f T)"
    using R f(4) heap_more_ops(2,7-9) [OF f(5)] unfolding vfs_rep_def by simp
  then have "vfs_rep a1 ?s (tree_create (cwd s) nm VFS_FILE f T)" unfolding fs_of_more(1) [OF v] .
  moreover have "cwd ?s = cwd s" using shell_of_more(1) [OF vga_more_fs(6) [OF v]] shell_of_more(1) [OF f(5)] by simp
  moreover have "op_list ?s = op_list s" using fs_of_more(7) [OF v] heap_more_ops(6) [OF f(5)] by simp
  ultimately show ?thesis using that [OF run] f(2) by blast
qed

section \<open>Properties\<close>

text \<open>C37: \<open>mk\<close> in a working directory with room adds one new, empty file under the name given and changes no other
  node; \<open>ls\<close> then shows the names of the directory, one to a line, the new one last, and changes only the screen.\<close>

theorem mk_ls:
  fixes s :: "'a shell_scheme"
  assumes R: "vfs_rep a s T" and d: "T (cwd s) = Some nd" "n_flags nd AND VFS_DIR \<noteq> 0" and nm: "holds name nm" "length nm < 64"
    and room: "length (n_children nd) < 32" "heap_room NODE_SIZEOF s" and o: "op_create s" "op_list s"
  shows "\<exists>f s1 s2 a'. cmd_mk [c, name] s = Some s1 \<and> T f = None \<and> vfs_rep a' s1 (tree_create (cwd s) nm VFS_FILE f T)
    \<and> cmd_ls [c'] s1 = Some s2 \<and> vga.more s2 = vga.more s1
    \<and> vga.truncate s2 = vga_print (listing (names T nd @ [nm])) (vga.truncate s1)"
proof -
  obtain f s1 a1 where m: "cmd_mk [c, name] s = Some s1" "vfs_rep a1 s1 (tree_create (cwd s) nm VFS_FILE f T)" "T f = None"
    "cwd s1 = cwd s" "op_list s1 = op_list s"
    by (rule cmd_mk_entry [OF R d(1) nm room o(1)])
  have T: "tree_rep a s T" using R by (simp add: vfs_rep_def)
  note n = names_create [OF T d(1) m(3), of nm VFS_FILE]
  have "cmd_ls [c'] s1 = Some (vga_print (listing (names T nd @ [nm])) s1)"
    using cmd_ls_names [OF m(2), of "nd\<lparr>n_children := n_children nd @ [f]\<rparr>" c'] n d(2) m(4,5) o(2) by simp
  then show ?thesis using m(1-3) truncate_print more_print by blast
qed

theorem mk_ls_witness:
  "\<exists>s :: shell. \<exists>s1 s2. cmd_mk [str_at (lit ''mk''), str_at (lit ''log'')] s = Some s1 \<and> cmd_ls [str_at (lit ''ls'')] s1 = Some s2
     \<and> vga.truncate s2 = vga_print (lit ''tmp\<newline>log\<newline>'') (vga.truncate s1)"
proof -
  obtain r c t s0 a where b: "boot_filesystems empty_disk = Some s0" "vfs_rep a s0 (boot_tree r c t)" "vfs_root s0 = r"
    "distinct [0, r, c, t]" "\<forall>x. vfs_check_mount x s0 = (if x = c then t else x)"
    "op_create s0" "op_read s0" "op_write s0" "op_list s0" "fs.more s0 = ()" "unat (heap_end s0) \<le> 0x400000 + 2976"
    by (rule booted) (rule that; assumption)
  let ?s = "fd.extend (fs.extend s0 (fd.fields (replicate 32 \<lparr>fd_used = False, fd_node = 0, fd_offset = 0\<rparr>)))
     (shell.fields 0 r 0 (replicate 1024 0) (lit ''today''))"
  let ?nd = "(empty_node (lit ''/'') VFS_DIR)\<lparr>n_children := [c]\<rparr>"
  have h: "ram ?s = ram s0" "heap_start ?s = heap_start s0" "heap_end ?s = heap_end s0" "heap_head ?s = heap_head s0"
    "ramfs_ops_at ?s = ramfs_ops_at s0" "mounts ?s = mounts s0" "mount_count ?s = mount_count s0" "vfs_root ?s = vfs_root s0"
    "op_lookup ?s = op_lookup s0" "op_create ?s = op_create s0" "op_list ?s = op_list s0" "cwd ?s = r"
    by (simp_all add: fs.defs fd.defs shell.defs)
  have R: "vfs_rep a ?s (boot_tree r c t)" using b(2) tree_rep_fields [OF h(1-5)] by (simp add: vfs_rep_def h)
  have d: "boot_tree r c t (cwd ?s) = Some ?nd" "n_flags ?nd AND VFS_DIR \<noteq> 0"
    using b(4) by (simp_all add: boot_tree_def h(12) empty_node_def)
  have room: "length (n_children ?nd) < 32" "heap_room NODE_SIZEOF ?s" using b(11) by (simp_all add: heap_room_def h(3))
  have nm: "holds (str_at (lit ''log'')) (lit ''log'')" "length (lit ''log'') < 64" by (simp_all add: lit_simps)
  have o: "op_create ?s" "op_list ?s" using b(6,9) h by simp_all
  have "names (boot_tree r c t) ?nd = [lit ''tmp'']" using b(4) by (simp add: names_def boot_tree_def empty_node_def)
  then have l: "listing (names (boot_tree r c t) ?nd @ [lit ''log'']) = lit ''tmp\<newline>log\<newline>''" by (simp add: listing_def lit_simps)
  show ?thesis using mk_ls [OF R d nm room o, of "str_at (lit ''mk'')" "str_at (lit ''ls'')"] unfolding l by blast
qed

end
