(* ===== verification/ShellLoop.thy ===== *)
theory ShellLoop
  imports Shell
begin

text \<open>
  What the shell does with a line: which command runs on which arguments, and how typed characters become
  lines (\<open>execute_command\<close> and \<open>shell_update\<close> of \<open>shell/shell.c\<close>).
\<close>

section \<open>From a line to a command\<close>

definition command_named :: "cstr \<Rightarrow> (string \<times> 'h) list \<Rightarrow> 'h option" where
  "command_named w cs = map_option snd (find (\<lambda>c. lit (fst c) = w) cs)"

lemma dispatch_named:
  assumes "holds (argv ! 0) w" and "\<forall>c \<in> set cs. 0 \<notin> set (lit (fst c))"
  shows "dispatch cs argv s = (case command_named w cs of
      None \<Rightarrow> Some (Returns (print_text ''Unknown command\<newline>'' s)) | Some h \<Rightarrow> h argv s)"
  using assms(2)
proof (induction cs)
  case Nil
  then show ?case by (simp add: command_named_def)
next
  case (Cons c cs)
  obtain name h where c: "c = (name, h)" by (cases c)
  have "holds (str_at (lit name)) (lit name)" using Cons.prems c by simp
  then obtain d where "strcmp (argv ! 0) (str_at (lit name)) = Some d" "d = 0 \<longleftrightarrow> w = lit name"
    using strcmp_zero [OF assms(1)] by blast
  then show ?case using Cons.IH Cons.prems by (auto simp: c command_named_def)
qed

lemma command_names: "\<forall>c \<in> set (commands wake). 0 \<notin> set (lit (fst c))"
  by (simp add: commands_def lit_simps)

lemma strcpy_local:
  assumes "holds input t" and "length t < length bs"
  shows "\<exists>bs'. strcpy buf_put (\<lambda>_. input) 0 bs = Some bs' \<and> length bs' = length bs \<and> 0 \<in> set bs' \<and> upto_nul bs' = t"
proof -
  have t0: "0 \<notin> set t" using assms(1) by (simp add: holds_def)
  obtain bs' where bs': "strcpy buf_put (\<lambda>_. input) 0 bs = Some bs'" "length bs' = length bs"
    "\<And>j. j < length bs \<Longrightarrow> bs' ! j = (if j < length t + 1 then (t @ [0]) ! j else bs ! j)"
    using buf.strcpy_writes [of 0 t bs "\<lambda>_. input"] assms by (auto simp: buf.wrote_def)
  have "bs' = t @ 0 # drop (length t + 1) bs"
    by (rule nth_equalityI) (use assms(2) bs'(2,3) in \<open>auto simp: nth_append nth_Cons'\<close>)
  then have "0 \<in> set bs'" "upto_nul bs' = t" using upto_nul_append_nul [OF t0] by simp_all
  then show ?thesis using bs' by blast
qed

lemma execute_words:
  assumes "holds input t" and "length t < 256"
  obtains argv where "list_all2 holds argv (take 8 (pieces 0x20 t))"
    "execute_command wake input s = (if pieces 0x20 t = [] then Some (Returns s)
       else case command_named (hd (pieces 0x20 t)) (commands wake) of
         None \<Rightarrow> Some (Returns (print_text ''Unknown command\<newline>'' s)) | Some h \<Rightarrow> h argv s)"
proof -
  have l: "length t < length (replicate 256 (0 :: u8))" using assms(2) by simp
  obtain bs where bs: "strcpy buf_put (\<lambda>_. input) 0 (replicate 256 0) = Some bs" "0 \<in> set bs" "upto_nul bs = t"
    using strcpy_local [OF assms(1) l] by blast
  obtain ps buf where p: "parse_arguments bs = Some (ps, buf)"
    "list_all2 (\<lambda>p w. holds (buf_at buf p) w) ps (take MAX_ARGS (pieces 0x20 (upto_nul bs)))"
    by (rule parse_line [OF bs(2)])
  let ?argv = "map (buf_at buf) ps"
  have a: "list_all2 holds ?argv (take 8 (pieces 0x20 t))" using p(2) bs(3) by (simp add: list.rel_map)
  have e: "ps = [] \<longleftrightarrow> pieces 0x20 t = []" using list_all2_lengthD [OF a] by (cases "pieces 0x20 t") auto
  have e1: "execute_command wake input s = (if pieces 0x20 t = [] then Some (Returns s)
       else dispatch (commands wake) ?argv s)"
    using bs(1) p(1) e by (simp add: execute_command_def)
  have "execute_command wake input s = (if pieces 0x20 t = [] then Some (Returns s)
       else case command_named (hd (pieces 0x20 t)) (commands wake) of
         None \<Rightarrow> Some (Returns (print_text ''Unknown command\<newline>'' s)) | Some h \<Rightarrow> h ?argv s)"
  proof (cases "pieces 0x20 t = []")
    case False
    then have "holds (?argv ! 0) (hd (pieces 0x20 t))" using a by (cases "pieces 0x20 t"; cases ps) auto
    from e1 dispatch_named [OF this command_names, of wake s] False show ?thesis by simp
  qed (simp add: e1)
  then show ?thesis by (rule that [OF a])
qed

section \<open>From keys to a line\<close>

lemma getchar_console:
  fixes s :: "'a console_scheme"
  shows "line_buffer (snd (keyboard_getchar s)) = line_buffer s" "line_length (snd (keyboard_getchar s)) = line_length s"
    "console.more (snd (keyboard_getchar s)) = console.more s"
  by (simp_all add: keyboard_getchar_def)

lemma console_char_pending:
  fixes s :: "'a console_scheme"
  shows "pending (console_handle_char c s) = pending s" "ring_ok (console_handle_char c s) = ring_ok s"
    "console.more (console_handle_char c s) = console.more s"
proof -
  have p: "keyboard_buffer (vga_putchar c s) = keyboard_buffer s" "buffer_head (vga_putchar c s) = buffer_head s"
    "buffer_tail (vga_putchar c s) = buffer_tail s" "console.more (vga_putchar c s) = console.more s"
    for c and s :: "'a console_scheme"
    by (rule screen_stepE [OF screen_step_putchar [of s c]], simp)+
  show "pending (console_handle_char c s) = pending s" "ring_ok (console_handle_char c s) = ring_ok s"
    "console.more (console_handle_char c s) = console.more s"
    by (auto simp: console_handle_char_def Let_def p pending_def ring_count_def ring_ok_def)
qed

text \<open>The characters in front of a newline go to the line editor.\<close>

lemma shell_update_chars:
  fixes s :: "'a shell_scheme"
  assumes "ring_ok s" and "console_ok s" and "pending s = cs @ rest" and "10 \<notin> set cs"
  shows "\<exists>t. shell_update wake s = shell_update wake t \<and> ring_ok t \<and> console_ok t \<and> pending t = rest
    \<and> line t = fold edit cs (line s) \<and> console.more t = console.more s"
  using assms
proof (induction cs arbitrary: s)
  case Nil
  then show ?case by auto
next
  case (Cons c cs)
  let ?g = "keyboard_getchar s"
  have ne: "pending s \<noteq> []" using Cons.prems(3) by simp
  note g = getchar_pending [OF Cons.prems(1) ne]
  let ?t = "console_handle_char c (snd ?g)"
  have ok: "console_ok (snd ?g)" "line (snd ?g) = line s"
    using Cons.prems(2) getchar_console [of s] by (simp_all add: console_ok_def line_def)
  have c: "fst ?g = c" "c \<noteq> 10" using g(1) Cons.prems(3,4) by auto
  have t: "ring_ok ?t" "console_ok ?t" "pending ?t = cs @ rest" "line ?t = edit c (line s)" "console.more ?t = console.more s"
    using console_char_pending [of c "snd ?g"] console_edit [OF ok(1) c(2)] ok(2) g Cons.prems(3) getchar_console(3) [of s]
    by simp_all
  have "keyboard_has_input s" using has_input_pending [OF Cons.prems(1)] ne by simp
  then have "shell_update wake s = shell_update wake ?t"
    using c by (subst shell_update.simps) (simp add: split_beta Let_def)
  moreover obtain u where "shell_update wake ?t = shell_update wake u" "ring_ok u" "console_ok u" "pending u = rest"
    "line u = fold edit cs (line ?t)" "console.more u = console.more ?t"
    using Cons.IH [OF t(1,2,3)] Cons.prems(4) by auto
  ultimately show ?case using t(4,5) by (intro exI [of _ u]) simp
qed

lemma shell_update_enter:
  fixes s :: "'a shell_scheme"
  assumes "ring_ok s" and "pending s = 10 # rest"
  shows "shell_update wake s = do {
      r \<leftarrow> shell_line wake (snd (keyboard_getchar s));
      case r of Returns s \<Rightarrow> shell_update wake s | Halts s \<Rightarrow> Some (Halts s) }"
    "pending (snd (keyboard_getchar s)) = rest"
proof -
  have ne: "pending s \<noteq> []" using assms(2) by simp
  note g = getchar_pending [OF assms(1) ne]
  show "pending (snd (keyboard_getchar s)) = rest" using g(2) assms(2) by simp
  have "keyboard_has_input s" using has_input_pending [OF assms(1)] ne by simp
  moreover have "fst (keyboard_getchar s) = 10" using g(1) assms(2) by simp
  ultimately show "shell_update wake s = do {
      r \<leftarrow> shell_line wake (snd (keyboard_getchar s));
      case r of Returns s \<Rightarrow> shell_update wake s | Halts s \<Rightarrow> Some (Halts s) }"
    by (subst shell_update.simps) (simp add: split_beta Let_def)
qed

section \<open>Properties\<close>

text \<open>C34: a line of less than 256 bytes is cut into words; an empty one does nothing, otherwise exactly the
  command named by the first word runs, on the first eight words, and a name that is not in the table
  is reported.\<close>

theorem execute_command_dispatch:
  assumes "holds input t" and "length t < 256"
  shows "\<exists>argv. list_all2 holds argv (take 8 (pieces 0x20 t))
    \<and> execute_command wake input s =
        (if pieces 0x20 t = [] then Some (Returns s)
         else case command_named (hd (pieces 0x20 t)) (commands wake) of
             None \<Rightarrow> Some (Returns (print_text ''Unknown command\<newline>'' s)) | Some h \<Rightarrow> h argv s)"
  by (rule execute_words [OF assms]) blast

theorem execute_command_dispatch_witness:
  "\<exists>argv. list_all2 holds argv [lit ''clear'', lit ''now'']
     \<and> (\<forall>s :: shell. execute_command (\<lambda>s. s) (str_at (lit ''clear now'')) s = Some (Returns (vga_clear s)))"
proof -
  let ?t = "lit ''clear now''"
  have p: "pieces 0x20 ?t = [lit ''clear'', lit ''now'']" by (simp add: lit_simps pieces_def)
  have h: "holds (str_at ?t) ?t" "length ?t < 256" by (simp_all add: lit_simps)
  have c: "command_named (lit ''clear'') (commands (\<lambda>s. s)) = Some (returns cmd_clear)"
    by (simp add: command_named_def commands_def lit_simps)
  have *: "\<exists>argv. list_all2 holds argv [lit ''clear'', lit ''now''] \<and> execute_command (\<lambda>s. s) (str_at ?t) s = Some (Returns (vga_clear s))"
    for s :: shell
    using execute_command_dispatch [OF h, of "\<lambda>s. s" s] unfolding p by (auto simp: c returns_def cmd_clear_def)
  then show ?thesis by blast
qed

text \<open>C35: what is typed before the next newline, edited with backspaces and cut at 255 characters, is the
  line whose words are executed: the command sees the memory unchanged, the newline echoed and the keys
  behind the line still waiting; when it returns, the shell goes on with a fresh prompt, and when it
  halts, the shell does.\<close>

theorem shell_runs_line:
  fixes s :: "'a shell_scheme"
  assumes ok: "ring_ok s" "console_ok s" "line s = []" and p: "pending s = cs @ 10 # rest" "10 \<notin> set cs" "0 \<notin> set cs"
  shows "\<exists>t argv. console.more t = console.more s \<and> pending t = rest
    \<and> list_all2 holds argv (take 8 (pieces 0x20 (fold edit cs [])))
    \<and> shell_update wake s = do {
        r \<leftarrow> (if pieces 0x20 (fold edit cs []) = [] then Some (Returns t)
             else case command_named (hd (pieces 0x20 (fold edit cs []))) (commands wake) of
                 None \<Rightarrow> Some (Returns (print_text ''Unknown command\<newline>'' t)) | Some h \<Rightarrow> h argv t);
        case r of Returns u \<Rightarrow> shell_update wake (shell_prompt (console_clear_line u)) | Halts u \<Rightarrow> Some (Halts u) }"
proof -
  obtain t where t: "shell_update wake s = shell_update wake t" "ring_ok t" "console_ok t" "pending t = 10 # rest"
    "line t = fold edit cs (line s)" "console.more t = console.more s"
    using shell_update_chars [OF ok(1,2) p(1,2)] by blast
  let ?g = "snd (keyboard_getchar t)" and ?l = "fold edit cs []"
  let ?u = "vga_putchar 10 ?g"
  note e = shell_update_enter(1) [OF t(2,4), of wake] shell_update_enter(2) [OF t(2,4)]
  have g: "console_ok ?g" "line ?g = ?l"
  proof -
    show "console_ok ?g" using t(3) getchar_console [of t] by (simp add: console_ok_def)
    have "line ?g = line t" using getchar_console [of t] by (simp add: line_def)
    then show "line ?g = ?l" using t(5) ok(3) by simp
  qed
  have nul: "0 \<notin> set ?l" using edit_no_nul [of "[]" cs] p(3) by simp
  have "length (line ?g) < 256" using g(1) by (auto simp: console_ok_def line_def)
  then have len: "length ?l < 256" using g(2) by simp
  have str: "upto_nul (console_get_line ?g) = ?l" using console_line_string [OF g(1)] g(2) nul by simp
  have "0 \<in> set (console_get_line ?g)"
  proof -
    have "length (line_buffer ?g) = 256" "line_buffer ?g ! 255 = 0" using g(1) by (simp_all add: console_ok_def)
    then show ?thesis using nth_mem [of 255 "line_buffer ?g"] by (simp add: console_get_line_def)
  qed
  then have h: "holds (buf_at (console_get_line ?g) 0) ?l" using holds_buf [of 0 "console_get_line ?g"] str by simp
  obtain argv where a: "list_all2 holds argv (take 8 (pieces 0x20 ?l))"
    "execute_command wake (buf_at (console_get_line ?g) 0) ?u = (if pieces 0x20 ?l = [] then Some (Returns ?u)
       else case command_named (hd (pieces 0x20 ?l)) (commands wake) of
         None \<Rightarrow> Some (Returns (print_text ''Unknown command\<newline>'' ?u)) | Some h \<Rightarrow> h argv ?u)"
    by (rule execute_words [OF h len])
  have u: "pending ?u = rest" "console.more ?u = console.more s"
  proof -
    have q: "keyboard_buffer (vga_putchar 10 ?g) = keyboard_buffer ?g" "buffer_head (vga_putchar 10 ?g) = buffer_head ?g"
      "buffer_tail (vga_putchar 10 ?g) = buffer_tail ?g" "console.more (vga_putchar 10 ?g) = console.more ?g"
      by (rule screen_stepE [OF screen_step_putchar [of ?g 10]], simp)+
    show "pending ?u = rest" using e(2) q by (simp add: pending_def ring_count_def)
    show "console.more ?u = console.more s" using q t(6) getchar_console(3) [of t] by simp
  qed
  have "shell_update wake s = do {
        r \<leftarrow> execute_command wake (buf_at (console_get_line ?g) 0) ?u;
        case r of Returns u \<Rightarrow> shell_update wake (shell_prompt (console_clear_line u)) | Halts u \<Rightarrow> Some (Halts u) }"
    unfolding t(1) e(1) shell_line_def by (auto split: bind_splits outcome.splits)
  then show ?thesis unfolding a(2) using a(1) u by blast
qed

text \<open>The keys of \<open>clear\<close>, with a slip taken back, and the return key.\<close>

definition typed :: "'a shell_scheme \<Rightarrow> 'a shell_scheme" where
  "typed s = s\<lparr>keyboard_buffer := (\<lambda>i. (lit ''clx'' @ [8] @ lit ''ear'' @ [10]) ! unat i),
     buffer_head := 8, buffer_tail := 0, line_buffer := replicate 256 0, line_length := 0\<rparr>"

theorem shell_runs_line_witness:
  "\<forall>s :: shell. \<exists>t. console.more t = console.more s \<and> pending t = []
     \<and> shell_update (\<lambda>s. s) (typed s) = shell_update (\<lambda>s. s) (shell_prompt (console_clear_line (vga_clear t)))"
proof (rule allI)
  fix s :: shell
  have r: "ring_ok (typed s)" "console_ok (typed s)" "line (typed s) = []"
    by (simp_all add: typed_def ring_ok_def console_ok_def line_def)
  have p: "pending (typed s) = (lit ''clx'' @ [8] @ lit ''ear'') @ 10 # []"
    by (simp add: typed_def pending_def ring_count_def lit_simps upt_rec)
  have l: "fold edit (lit ''clx'' @ [8] @ lit ''ear'') [] = lit ''clear''" by (simp add: lit_simps edit_def)
  have w: "pieces 0x20 (lit ''clear'') = [lit ''clear'']" by (simp add: lit_simps pieces_def)
  have c: "command_named (lit ''clear'') (commands (\<lambda>s. s)) = Some (returns cmd_clear)"
    by (simp add: command_named_def commands_def lit_simps)
  have n: "10 \<notin> set (lit ''clx'' @ [8] @ lit ''ear'')" "0 \<notin> set (lit ''clx'' @ [8] @ lit ''ear'')"
    by (simp_all add: lit_simps)
  have m: "console.more (typed s) = console.more s" by (simp add: typed_def)
  show "\<exists>t. console.more t = console.more s \<and> pending t = []
     \<and> shell_update (\<lambda>s. s) (typed s) = shell_update (\<lambda>s. s) (shell_prompt (console_clear_line (vga_clear t)))"
    using shell_runs_line [OF r p n, of "\<lambda>s. s"] unfolding l w m
    by (auto simp: c returns_def cmd_clear_def)
qed

end
