(* ===== verification/ShellText.thy ===== *)
theory ShellText
  imports ShellFiles ShellLoop
begin

text \<open>
  The text commands of the shell: arithmetic with \<open>calc\<close> and joining words with \<open>echo\<close>.
\<close>

section \<open>Decimal numbers\<close>

definition decimal :: "u32 \<Rightarrow> cstr" where
  "decimal v = (if v = 0 then lit ''0'' else map digit_char (rev (digit_values 10 v)))"

definition number :: "u32 list \<Rightarrow> u32" where
  "number ts = foldl (\<lambda>r t. r * 10 + t) 0 ts"

lemma atoi_number: "holds r (map digit_char ts) \<Longrightarrow> \<forall>t \<in> set ts. t < 10 \<Longrightarrow> atoi r = Some (number ts)"
  using atoi_from_digits [of r ts 0] by (simp add: atoi_def number_def)

lemma utoa_decimal:
  assumes "11 \<le> length bs"
  obtains d where "utoa buf_put (\<lambda>b. buf_at b 0) v 10 bs = Some d" "holds (buf_at d 0) (decimal v)"
proof (cases "v = 0")
  case True
  have b: "bs \<noteq> []" "1 < length bs" using assms by auto
  then have "utoa buf_put (\<lambda>b. buf_at b 0) v 10 bs = Some (bs[0 := 0x30, 1 := 0])"
    using True by (simp add: utoa_def buf_put_def)
  moreover have "holds (buf_at (bs[0 := 0x30, 1 := 0]) 0) (decimal v)"
    using b True by (simp add: holds_def buf_at_def decimal_def lit_simps)
  ultimately show ?thesis by (rule that)
next
  case False
  have "unat v < 2 ^ LENGTH(32)" by (rule unsigned_less)
  then have "unat v < unat (10 :: u32) ^ 10" by simp
  then have l: "length (digit_values 10 v) < length bs" using digit_values_length assms by fastforce
  have "t < 10 \<Longrightarrow> digit_char t \<noteq> 0" for t using digit_char_dec [of t] by auto
  then show ?thesis
    using that utoa_buffer [OF _ False l] digit_values_range [of 10 v] False by (auto simp: decimal_def rev_map)
qed

section \<open>Joining words\<close>

interpretation tail_of: destination "\<lambda>i. buf_put (e + i)" "\<lambda>bs i. bs ! (e + i)" "\<lambda>bs. length bs - e" "\<lambda>bs. (take e bs, length bs)"
  for e
  by unfold_locales (auto simp: buf_put_def)

lemma strcat_holds:
  assumes "holds (buf_at bs 0) t" and "holds r w" and "length t + length w < length bs"
  obtains bs' where "strcat buf_put (\<lambda>b. buf_at b 0) (\<lambda>_. r) bs = Some bs'" "holds (buf_at bs' 0) (t @ w)" "length bs' = length bs"
proof -
  let ?e = "length t"
  have e: "strlen_from (buf_at bs 0) 0 = Some ?e" using strlen_from_holds [of "buf_at bs 0" 0 t] assms(1) by simp
  have m: "length w < length bs - ?e" using assms(3) by linarith
  obtain bs' where c: "strcpy (\<lambda>i. buf_put (?e + i)) (\<lambda>_. r) 0 bs = Some bs'"
    "tail_of.wrote ?e 0 (length w + 1) (\<lambda>j. (w @ [0]) ! (j - 0)) bs bs'"
    using tail_of.strcpy_writes [of 0 w bs ?e "\<lambda>_. r"] m assms(2) by auto
  have l: "length bs' = length bs" "take ?e bs' = take ?e bs"
    and v: "\<And>j. j < length bs - ?e \<Longrightarrow> bs' ! (?e + j) = (if j < length w + 1 then (w @ [0]) ! j else bs ! (?e + j))"
    using c(2) by (auto simp: tail_of.wrote_def)
  have old: "bs ! i = t ! i" if "i < ?e" for i using assms(1,3) that by (auto simp: holds_def buf_at_def split: if_splits)
  have "bs' ! i = (t @ w @ [0]) ! i" if "i \<le> ?e + length w" for i
  proof (cases "i < ?e")
    case True
    then show ?thesis using l(2) old [OF True] by (metis nth_append nth_take)
  next
    case False
    then show ?thesis using v [of "i - ?e"] that assms(3) by (auto simp: nth_append)
  qed
  moreover have "0 \<notin> set (t @ w)" using assms(1,2) by (simp add: holds_def)
  ultimately have "holds (buf_at bs' 0) (t @ w)"
    using assms(3) l(1) by (auto simp: holds_def buf_at_def nth_append)
  then show ?thesis using that e c(1) l(1) by (simp add: strcat_def)
qed

lemma join_more:
  assumes "list_all2 holds as ws" and "holds (buf_at bs 0) t" and "length t + length (concat (map (\<lambda>w. 0x20 # w) ws)) < length bs"
  shows "\<exists>bs'. join_args False as bs = Some bs' \<and> holds (buf_at bs' 0) (t @ concat (map (\<lambda>w. 0x20 # w) ws)) \<and> length bs' = length bs"
  using assms
proof (induction as ws arbitrary: bs t rule: list_all2_induct)
  case Nil
  then show ?case by simp
next
  case (Cons a as w ws)
  have r1: "length t + length [0x20 :: u8] < length bs" using Cons.prems(2) by simp
  obtain b1 where b1: "strcat buf_put (\<lambda>b. buf_at b 0) (\<lambda>_. str_at (lit '' '')) bs = Some b1" "holds (buf_at b1 0) (t @ [0x20])"
    "length b1 = length bs"
    by (rule strcat_holds [OF Cons.prems(1) space(1) r1])
  have r2: "length (t @ [0x20]) + length w < length b1" using Cons.prems(2) b1(3) by simp
  obtain b2 where b2: "strcat buf_put (\<lambda>b. buf_at b 0) (\<lambda>_. a) b1 = Some b2" "holds (buf_at b2 0) ((t @ [0x20]) @ w)"
    "length b2 = length b1"
    by (rule strcat_holds [OF b1(2) Cons.hyps(1) r2])
  have "length ((t @ [0x20]) @ w) + length (concat (map (\<lambda>w. 0x20 # w) ws)) < length b2" using Cons.prems(2) b1(3) b2(3) by simp
  from Cons.IH [OF b2(2) this] show ?case using b1(1,3) b2(1,3) by auto
qed

lemma join_words_concat: "join_words (w # ws) = w @ concat (map (\<lambda>w. 0x20 # w) ws)"
  by (induction ws arbitrary: w) simp_all

lemma join_args_holds:
  assumes "list_all2 holds as ws" and "holds (buf_at bs 0) []" and "length (join_words ws) < length bs"
  shows "\<exists>bs'. join_args True as bs = Some bs' \<and> holds (buf_at bs' 0) (join_words ws) \<and> length bs' = length bs"
proof (cases ws)
  case Nil
  then show ?thesis using assms by simp
next
  case (Cons w vs)
  then obtain a bs0 where a: "as = a # bs0" "holds a w" "list_all2 holds bs0 vs" using assms(1) by (auto simp: list_all2_Cons2)
  have "length ([] :: cstr) + length w < length bs" using assms(3) by (simp add: Cons join_words_concat)
  then obtain b1 where b1: "strcat buf_put (\<lambda>b. buf_at b 0) (\<lambda>_. a) bs = Some b1" "holds (buf_at b1 0) ([] @ w)" "length b1 = length bs"
    by (rule strcat_holds [OF assms(2) a(2)])
  have "length ([] @ w) + length (concat (map (\<lambda>w. 0x20 # w) vs)) < length b1"
    using assms(3) b1(3) by (simp add: Cons join_words_concat)
  from join_more [OF a(3) b1(2) this] show ?thesis using b1 by (auto simp: a(1) Cons join_words_concat)
qed


lemma echo_words:
  fixes s :: "'a shell_scheme"
  assumes "list_all2 holds argv ws" and "length (echo_buffer s) = 1024" and "length (join_words ws) < 1024"
  obtains b where "cmd_echo (c # argv) s = Some (print_text ''\<newline>'' (vga_print (join_words ws) (s\<lparr>echo_buffer := b\<rparr>)))" "length b = 1024"
proof -
  let ?b = "(echo_buffer s)[0 := 0]"
  have "holds (buf_at ?b 0) []" using assms(2) by (simp add: holds_Nil buf_at_def)
  then obtain b where b: "join_args True argv ?b = Some b" "holds (buf_at b 0) (join_words ws)" "length b = length ?b"
    using join_args_holds [OF assms(1), of ?b] assms(2,3) by auto
  have "cmd_echo (c # argv) s = Some (print_text ''\<newline>'' (vga_print (join_words ws) (s\<lparr>echo_buffer := b\<rparr>)))"
    using b(1) read_str_holds [OF b(2)] by (simp add: cmd_echo_def)
  then show ?thesis using that b(3) assms(2) by simp
qed

text \<open>The words of a line are never longer than the line.\<close>

lemma split_at_length: "length (concat (map (\<lambda>w. c # w) (split_at c t))) = length t + 1"
proof (induction t)
  case (Cons x t)
  then show ?case using split_at_sound [of c t] by (cases "split_at c t") auto
qed simp

lemma concat_filter_le: "length (concat (map f (filter P xs))) \<le> length (concat (map f xs))"
  by (induction xs) auto

lemma concat_take_le: "length (concat (map f (take n xs))) \<le> length (concat (map f xs))"
proof (induction xs arbitrary: n)
  case (Cons x xs)
  then show ?case by (cases n) auto
qed simp

lemma join_words_le: "length (join_words ws) \<le> length (concat (map (\<lambda>w. 0x20 # w) ws))"
  by (cases ws) (simp_all add: join_words_concat)

lemma pieces_tail_length: "pieces 0x20 t = c # ws \<Longrightarrow> length (join_words (take n ws)) \<le> length t + 1"
proof -
  assume p: "pieces 0x20 t = c # ws"
  have "length (join_words (take n ws)) \<le> length (concat (map (\<lambda>w. 0x20 # w) (take n ws)))" by (rule join_words_le)
  also have "\<dots> \<le> length (concat (map (\<lambda>w. 0x20 # w) ws))" by (rule concat_take_le)
  also have "\<dots> \<le> length (concat (map (\<lambda>w. 0x20 # w) (pieces 0x20 t)))" using p by simp
  also have "\<dots> \<le> length (concat (map (\<lambda>w. 0x20 # w) (split_at 0x20 t)))" unfolding pieces_def by (rule concat_filter_le)
  finally show ?thesis unfolding split_at_length .
qed

section \<open>Properties\<close>

text \<open>C38: \<open>calc\<close> on two decimal numbers prints the sum, difference or product, modulo 2 to the 32, in decimal;
  a division prints nothing but the complaint about a zero divisor and leaves the state alone, except that it faults (a divide
  error) on the operands that wrap to -2147483648 and -1; any other operator prints 0.\<close>

theorem cmd_calc_result:
  fixes s :: "'a shell_scheme"
  assumes "holds x (map digit_char as)" and "\<forall>t \<in> set as. t < 10" and "holds y (map digit_char bs)" and "\<forall>t \<in> set bs. t < 10"
    and "holds opr (c # cs)"
  shows "cmd_calc [w, x, opr, y] s =
    (if c = 0x2F \<and> number as = 0x80000000 \<and> number bs = - 1 then None
     else Some (if c = 0x2F then (if number bs = 0 then print_text ''Division by zero!\<newline>'' s else s)
     else print_text ''\<newline>'' (vga_print (decimal
       (if c = 0x2B then number as + number bs else if c = 0x2D then number as - number bs
        else if c = 0x2A then number as * number bs else 0)) s)))"
proof -
  have "Option.bind (utoa buf_put (\<lambda>b. buf_at b 0) v 10 (replicate 32 0)) (\<lambda>d. Option.bind (read_str (buf_at d 0)) f)
      = f (decimal v)" for v and f :: "cstr \<Rightarrow> 'a shell_scheme option"
  proof -
    have "11 \<le> length (replicate 32 (0 :: u8))" by simp
    then show ?thesis by (rule utoa_decimal [where v = v]) (use read_str_holds in fastforce)
  qed
  then show ?thesis
    using atoi_number [OF assms(1,2)] atoi_number [OF assms(3,4)] assms(5)
    by (simp add: cmd_calc_def Let_def holds_Cons)
qed

theorem cmd_calc_result_witness:
  "\<forall>s :: shell. cmd_calc [str_at (lit ''calc''), str_at (lit ''12''), str_at (lit ''-''), str_at (lit ''7'')] s
     = Some (print_text ''\<newline>'' (vga_print (lit ''5'') s))"
proof
  fix s :: shell
  have h: "holds (str_at (lit ''12'')) (map digit_char [1, 2])" "holds (str_at (lit ''7'')) (map digit_char [7])"
    "holds (str_at (lit ''-'')) (0x2D # [])"
    by (simp_all add: lit_simps digit_char_def)
  have d: "\<forall>t \<in> set [1, 2 :: u32]. t < 10" "\<forall>t \<in> set [7 :: u32]. t < 10" by simp_all
  have "decimal 5 = lit ''5''" by (simp add: decimal_def digit_values_step digit_char_def lit_simps)
  then show "cmd_calc [str_at (lit ''calc''), str_at (lit ''12''), str_at (lit ''-''), str_at (lit ''7'')] s
      = Some (print_text ''\<newline>'' (vga_print (lit ''5'') s))"
    using cmd_calc_result [OF h(1) d(1) h(2) d(2) h(3), of "str_at (lit ''calc'')" s]
    by (simp add: number_def)
qed

text \<open>C39: on a line \<open>echo\<close> with words, the shell shows the first seven of them with single spaces in between and a
  new line, and changes nothing but the screen and the static buffer, whatever the length of the line.\<close>

theorem echo_line:
  fixes s :: "'a shell_scheme"
  assumes "holds input t" and "length t < 256" and "pieces 0x20 t = lit ''echo'' # ws" and "length (echo_buffer s) = 1024"
  shows "\<exists>b s'. execute_command wake input s = Some (Returns s') \<and> length b = 1024
    \<and> vga.truncate s' = vga_print [10] (vga_print (join_words (take 7 ws)) (vga.truncate s))
    \<and> vga.more s' = vga.more (s\<lparr>echo_buffer := b\<rparr>)"
proof -
  obtain argv where a: "list_all2 holds argv (take 8 (pieces 0x20 t))"
    "execute_command wake input s = (if pieces 0x20 t = [] then Some (Returns s)
       else case command_named (hd (pieces 0x20 t)) (commands wake) of
         None \<Rightarrow> Some (Returns (print_text ''Unknown command\<newline>'' s)) | Some h \<Rightarrow> h argv s)"
    by (rule execute_words [OF assms(1,2)])
  obtain c args where argv: "argv = c # args" "list_all2 holds args (take 7 ws)"
    using a(1) by (auto simp: assms(3) list_all2_Cons2)
  have l: "length (join_words (take 7 ws)) < 1024" using pieces_tail_length [OF assms(3), of 7] assms(2) by simp
  obtain b where b: "cmd_echo (c # args) s = Some (print_text ''\<newline>'' (vga_print (join_words (take 7 ws)) (s\<lparr>echo_buffer := b\<rparr>)))"
    "length b = 1024"
    by (rule echo_words [OF argv(2) assms(4) l])
  let ?s = "print_text ''\<newline>'' (vga_print (join_words (take 7 ws)) (s\<lparr>echo_buffer := b\<rparr>))"
  have "command_named (lit ''echo'') (commands wake) = Some (returns cmd_echo)"
    by (simp add: command_named_def commands_def lit_simps)
  then have "execute_command wake input s = Some (Returns ?s)" using a(2) b(1) by (simp add: assms(3) returns_def argv(1))
  moreover have "vga.truncate (s\<lparr>echo_buffer := b\<rparr>) = vga.truncate s" by (simp add: vga.defs)
  ultimately show ?thesis using b(2) by (intro exI [of _ b] exI [of _ ?s]) (simp add: truncate_print lit_simps)
qed

theorem echo_line_witness:
  "\<forall>s :: shell. \<exists>s'. execute_command (\<lambda>s. s) (str_at (lit ''echo  so   so'')) (s\<lparr>echo_buffer := replicate 1024 0\<rparr>) = Some (Returns s')
     \<and> vga.truncate s' = vga_print [10] (vga_print (lit ''so so'') (vga.truncate s))"
proof
  fix s :: shell
  let ?t = "lit ''echo  so   so''" and ?s = "s\<lparr>echo_buffer := replicate 1024 0\<rparr>"
  have p: "pieces 0x20 ?t = lit ''echo'' # [lit ''so'', lit ''so'']" by (simp add: lit_simps pieces_def)
  have h: "holds (str_at ?t) ?t" "length ?t < 256" "length (echo_buffer ?s) = 1024" by (simp_all add: lit_simps)
  have j: "join_words (take 7 [lit ''so'', lit ''so'']) = lit ''so so''" "vga.truncate ?s = vga.truncate s"
    by (simp_all add: lit_simps vga.defs)
  show "\<exists>s'. execute_command (\<lambda>s. s) (str_at ?t) ?s = Some (Returns s')
     \<and> vga.truncate s' = vga_print [10] (vga_print (lit ''so so'') (vga.truncate s))"
    using echo_line [OF h(1,2) p h(3), of "\<lambda>s. s"] unfolding j by blast
qed

end
