(* ===== verification/ShellInv.thy ===== *)
theory ShellInv
  imports BootProps ShellDirs ShellText
begin

text \<open>
  What holds of the kernel between two lines of the shell, and the commands of \<open>shell/shell.c\<close> that only
  write to the screen: each returns, whatever its arguments.
\<close>

section \<open>The invariant\<close>

definition is_dir :: "tree \<Rightarrow> u32 \<Rightarrow> bool" where
  "is_dir T x \<longleftrightarrow> (\<exists>nd. T x = Some nd \<and> n_flags nd AND VFS_DIR \<noteq> 0)"

definition plain_dirs :: "tree \<Rightarrow> bool" where
  "plain_dirs T \<longleftrightarrow> (\<forall>x nd. T x = Some nd \<longrightarrow> n_flags nd AND VFS_DIR \<noteq> 0 \<longrightarrow> n_data nd = [])"

text \<open>A file tree in memory behind the mounts, the root and the working directory directories of it, all operations
  installed, no file open, and the static buffer of \<open>echo\<close>.\<close>

definition shell_inv :: "'a shell_scheme \<Rightarrow> tree \<Rightarrow> bool" where
  "shell_inv s T \<longleftrightarrow> (\<exists>a. vfs_rep a s T) \<and> plain_dirs T \<and> is_dir T (vfs_root s) \<and> is_dir T (cwd s)
     \<and> op_create s \<and> op_read s \<and> op_write s \<and> op_list s
     \<and> length (fd_table s) = MAX_FDS \<and> free_fds (fd_table s) = {..<MAX_FDS} \<and> length (echo_buffer s) = 1024"

lemma shell_invD:
  assumes "shell_inv s T"
  obtains a where "vfs_rep a s T" "tree_rep a s T" "heap_rep a s" "plain_dirs T" "is_dir T (vfs_root s)" "is_dir T (cwd s)"
    "vfs_root s \<in> dom T" "cwd s \<in> dom T" "op_create s" "op_read s" "op_write s" "op_list s"
    "length (fd_table s) = MAX_FDS" "free_fds (fd_table s) \<noteq> {}" "length (echo_buffer s) = 1024"
proof -
  obtain a where a: "vfs_rep a s T" using assms by (auto simp: shell_inv_def)
  have "{..<MAX_FDS} \<noteq> {}" by (simp add: lessThan_empty_iff)
  then show ?thesis using that [of a] a assms by (auto simp: shell_inv_def vfs_rep_def tree_rep_def is_dir_def)
qed

text \<open>It is about the heap, the file system, the open files and the shell.\<close>

lemma shell_fields:
  fixes s t :: "'a shell_scheme"
  assumes "console.more t = console.more s"
  shows "cwd t = cwd s" "echo_buffer t = echo_buffer s" "last_alloc t = last_alloc s" "heap_end t = heap_end s"
  using assms by (cases s; cases t; simp)+

lemma shell_inv_cong: "console.more t = console.more s \<Longrightarrow> shell_inv t T \<longleftrightarrow> shell_inv s T"
  using fs_of_console [of t s] shell_fields [of t s] by (simp add: shell_inv_def)

lemma shell_inv_holdings:
  fixes s t :: "'a shell_scheme"
  assumes "holdings t = holdings s"
  shows "shell_inv t T \<longleftrightarrow> shell_inv s T" "heap_end t = heap_end s"
proof -
  have h: "ram t = ram s" "heap_start t = heap_start s" "heap_end t = heap_end s" "heap_head t = heap_head s" "heap.more t = heap.more s"
    using assms by (simp_all add: holdings_def)
  then have "cwd t = cwd s" "echo_buffer t = echo_buffer s" by (cases s; cases t; simp)+
  then show "shell_inv t T \<longleftrightarrow> shell_inv s T" using fs_of_heap [OF h] by (simp add: shell_inv_def)
  show "heap_end t = heap_end s" by (rule h)
qed

lemma quiet_console: "quiet s t \<Longrightarrow> console.more t = console.more s"
  by (rule console_of_vga) (simp add: quiet_def)

text \<open>A command ends well: it returns, the invariant holds again, for some tree, and the heap has grown by at most
  \<open>n\<close> bytes.\<close>

definition ends_well :: "nat \<Rightarrow> 'a shell_scheme \<Rightarrow> 'a shell_scheme option \<Rightarrow> bool" where
  "ends_well n s r \<longleftrightarrow> (\<exists>t T. r = Some t \<and> shell_inv t T \<and> unat (heap_end t) \<le> unat (heap_end s) + n)"

definition only_shows :: "'a shell_scheme \<Rightarrow> 'a shell_scheme option \<Rightarrow> bool" where
  "only_shows s r \<longleftrightarrow> (\<exists>t. r = Some t \<and> quiet s t)"

lemma ends_wellI:
  "shell_inv t T \<Longrightarrow> unat (heap_end t) \<le> unat (heap_end s) + n \<Longrightarrow> ends_well n s (Some t)"
  by (auto simp: ends_well_def)

lemma same_ends:
  assumes "shell_inv s T" and "console.more t = console.more s"
  shows "ends_well n s (Some t)"
  using assms shell_inv_cong [OF assms(2)] shell_fields(4) [OF assms(2)] by (intro ends_wellI) simp_all

lemma shows_ends: "shell_inv s T \<Longrightarrow> only_shows s r \<Longrightarrow> ends_well n s r"
  using same_ends [OF _ quiet_console] by (auto simp: only_shows_def)

lemma ends_print:
  assumes "ends_well n s r"
  shows "ends_well n s (map_option (print_text m) r)"
proof -
  obtain t T where t: "r = Some t" "shell_inv t T" "unat (heap_end t) \<le> unat (heap_end s) + n"
    using assms by (auto simp: ends_well_def)
  have "console.more (print_text m t) = console.more t" by (rule quiet_console [OF quiet_step [OF screen_step_print]])
  note c = shell_inv_cong [OF this] shell_fields(4) [OF this]
  show ?thesis unfolding t(1) option.map by (rule ends_wellI [of _ T]) (use t(2,3) c in simp_all)
qed

section \<open>Commands that only write to the screen\<close>

lemma quiet_print: "quiet s (vga_print t s)" "quiet s (vga_print_dec n s)" "quiet s (vga_print_hex n s)"
    "quiet s (vga_putchar c s)" "quiet s (vga_clear s)"
  by (rule quiet_step; rule screen_steps)+

lemma quiet_disable: "quiet s (vga_disable_cursor s)"
  by (simp add: quiet_def vga_disable_cursor_def outb_def)

text \<open>Steps one after the other, the last one first.\<close>

lemmas quiet_then = quiet_trans [OF _ quiet_print(1)] quiet_trans [OF _ quiet_print(2)] quiet_trans [OF _ quiet_print(3)]
  quiet_trans [OF _ quiet_print(4)] quiet_trans [OF _ quiet_print_color]

lemmas quiet_all = quiet_then quiet_print quiet_print_color quiet_refl

lemma seq_do_steps [simp]: "seq_do [] s = s" "seq_do (f # fs) s = seq_do fs (f s)"
  by (simp_all add: seq_do_def)

lemma quiet_print_all: "quiet s (print_all ts s)"
  unfolding print_all_def by (rule quiet_seq) (auto intro: quiet_print)

fun leading :: "i32 \<Rightarrow> cstr \<Rightarrow> i32" where
  "leading k [] = k"
| "leading k (c # cs) = (if sint c < 0x30 \<or> 0x39 < sint c then k else leading (k * 10 + (scast c - 0x30)) cs)"

lemma atoi_leading: "holds r t \<Longrightarrow> atoi r = Some (leading 0 t)"
proof -
  have "holds r t \<Longrightarrow> atoi_from r k = Some (leading k t)" for r k
  proof (induction t arbitrary: r k)
    case Nil
    then show ?case by (subst atoi_from.simps) (simp add: holds_Nil)
  next
    case (Cons c t)
    then show ?case by (subst atoi_from.simps) (simp add: holds_Cons)
  qed
  then show "holds r t \<Longrightarrow> atoi r = Some (leading 0 t)" by (simp add: atoi_def)
qed

text \<open>The words the arguments hold.\<close>

lemma held_word:
  assumes "list_all2 holds argv ws" and "i < length argv"
  shows "holds (argv ! i) (ws ! i)" "ws ! i \<in> set ws"
  using assms by (auto simp: list_all2_conv_all_nth)

lemma held_atoi: "list_all2 holds argv ws \<Longrightarrow> i < length argv \<Longrightarrow> atoi (argv ! i) = Some (leading 0 (ws ! i))"
  by (rule atoi_leading) (rule held_word)

lemma cur_shows: "list_all2 holds argv ws \<Longrightarrow> only_shows s (cmd_cur argv s)"
  using held_atoi [of argv ws 1]
  by (auto simp: cmd_cur_def only_shows_def intro!: quiet_all quiet_cursor(2) quiet_disable)

lemma codes_show: "list_all2 holds argv ws \<Longrightarrow> only_shows s (print_codes argv s)"
proof (induction argv ws arbitrary: s rule: list_all2_induct)
  case Nil
  then show ?case by (simp add: only_shows_def quiet_print)
next
  case (Cons r rs w ws)
  show ?case
    using Cons.IH [of "vga_putchar (ucast (leading 0 w)) s"] atoi_leading [OF Cons.hyps(1)] quiet_trans [OF quiet_print(4)]
    by (auto simp: only_shows_def quiet_print)
qed

lemma only_shows_trans: "quiet s t \<Longrightarrow> only_shows t r \<Longrightarrow> only_shows s r"
  by (auto simp: only_shows_def intro: quiet_trans)

lemma only_shows_map: "only_shows s r \<Longrightarrow> (\<And>t. quiet t (f t)) \<Longrightarrow> only_shows s (map_option f r)"
  by (auto simp: only_shows_def intro: quiet_trans)

lemma list_all2_drop_holds: "list_all2 holds argv ws \<Longrightarrow> list_all2 holds (drop n argv) (drop n ws)"
  by (rule list_all2_dropI)

lemma inttoascii_shows: "list_all2 holds argv ws \<Longrightarrow> only_shows s (cmd_inttoascii argv s)"
  unfolding cmd_inttoascii_def
  using only_shows_trans [OF quiet_print(1) codes_show [OF list_all2_drop_holds]] quiet_print(1)
  by (auto simp: only_shows_def)

lemma bytes_show: "holds r t \<Longrightarrow> only_shows s (print_bytes r s)"
proof (induction t arbitrary: r s)
  case Nil
  then show ?case by (subst print_bytes.simps) (simp add: holds_Nil only_shows_def)
next
  case (Cons c t)
  have "quiet s (vga_print_dec (scast c) (print_text '' '' s))" by (intro quiet_all)
  from only_shows_trans [OF this Cons.IH] show ?case
    using Cons.prems by (subst print_bytes.simps) (simp add: holds_Cons)
qed

lemma asciitoint_shows: "list_all2 holds argv ws \<Longrightarrow> only_shows s (cmd_asciitoint argv s)"
proof -
  assume h: "list_all2 holds argv ws"
  have "only_shows s (map_option (print_text ''\<newline>'') (print_bytes (argv ! 1) (print_text ''\<newline>ASCII code: '' s)))" if "length argv = 2"
    by (intro only_shows_map only_shows_trans [OF quiet_print(1) bytes_show] quiet_print(1))
      (rule held_word(1) [OF h], simp add: that)
  then show ?thesis by (auto simp: cmd_asciitoint_def only_shows_def intro: quiet_print)
qed

text \<open>The words of a \<open>calc\<close> whose quotient does not fit.\<close>

definition quotient_overflows :: "cstr list \<Rightarrow> bool" where
  "quotient_overflows ws \<longleftrightarrow>
     length ws = 4 \<and> hd (ws ! 2) = 0x2F \<and> leading 0 (ws ! 1) = 0x80000000 \<and> leading 0 (ws ! 3) = - 1"

lemma calc_shows:
  "list_all2 holds argv ws \<Longrightarrow> [] \<notin> set ws \<Longrightarrow> \<not> quotient_overflows ws \<Longrightarrow> only_shows s (cmd_calc argv s)"
proof -
  assume h: "list_all2 holds argv ws" and ne: "[] \<notin> set ws" and q: "\<not> quotient_overflows ws"
  show ?thesis
  proof (cases "length argv = 4")
    case True
    have "ws ! 2 \<in> set ws" by (rule held_word(2) [OF h]) (simp add: True)
    then have "ws ! 2 \<noteq> []" using ne by metis
    then obtain c cs where c: "ws ! 2 = c # cs" by (cases "ws ! 2") simp_all
    have q': "\<not> (c = 0x2F \<and> leading 0 (ws ! 1) = 0x80000000 \<and> leading 0 (ws ! 3) = - 1)"
      using q True list_all2_lengthD [OF h] by (simp add: quotient_overflows_def c)
    from c have op: "(argv ! 2) 0 = Some c" using held_word(1) [OF h, of 2] True by (simp add: holds_Cons)
    have u: "\<exists>d. utoa buf_put (\<lambda>b. buf_at b 0) v 10 (replicate 32 0) = Some d \<and> read_str (buf_at d 0) = Some (decimal v)" for v
    proof -
      have "11 \<le> length (replicate 32 (0 :: u8))" by simp
      then show ?thesis by (rule utoa_decimal [where v = v]) (use read_str_holds in blast)
    qed
    obtain d where "utoa buf_put (\<lambda>b. buf_at b 0) (if c = 0x2B then leading 0 (ws ! 1) + leading 0 (ws ! 3)
        else if c = 0x2D then leading 0 (ws ! 1) - leading 0 (ws ! 3)
        else if c = 0x2A then leading 0 (ws ! 1) * leading 0 (ws ! 3) else 0) 10 (replicate 32 0) = Some d"
      "\<exists>x. read_str (buf_at d 0) = Some x"
      using u by blast
    then show ?thesis
      using True op q' held_atoi [OF h, of 1] held_atoi [OF h, of 3]
      by (auto simp: cmd_calc_def only_shows_def Let_def intro!: quiet_all)
  qed (simp add: cmd_calc_def only_shows_def quiet_print)
qed

lemma help_shows: "list_all2 holds argv ws \<Longrightarrow> argv \<noteq> [] \<Longrightarrow> only_shows s (cmd_help argv s)"
proof -
  assume h: "list_all2 holds argv ws" and ne: "argv \<noteq> []"
  have p: "only_shows s (Some (print_all ts s))" "only_shows s (Some (print_text m s))" for ts m
    by (simp_all add: only_shows_def quiet_print_all quiet_print)
  show ?thesis
  proof (cases "length argv = 1")
    case False
    then have l: "1 < length argv" using ne by (cases argv) auto
    have z: "holds (str_at (lit m)) (lit m)" if "0 \<notin> set (lit m)" for m using that by simp
    have st: "\<exists>d. strcmp (argv ! 1) (str_at (lit m)) = Some d" if "0 \<notin> set (lit m)" for m
      using strcmp_zero [OF held_word(1) [OF h l] z [OF that]] by blast
    have "\<exists>d. strcmp (argv ! 1) (str_at (lit ''sys'')) = Some d" "\<exists>d. strcmp (argv ! 1) (str_at (lit ''mem'')) = Some d"
      "\<exists>d. strcmp (argv ! 1) (str_at (lit ''util'')) = Some d"
      by (rule st, simp add: lit_simps)+
    then show ?thesis using False p by (auto simp: cmd_help_def)
  qed (simp add: cmd_help_def p)
qed

text \<open>The reports take no arguments.\<close>

lemma reports_show:
  "only_shows s (cmd_clear argv s)" "only_shows s (cmd_cpuid argv s)" "only_shows s (cmd_uptime argv s)"
  "only_shows s (cmd_meminfo argv s)" "only_shows s (cmd_sysfetch argv s)" "only_shows s (cmd_state argv s)"
proof -
  show "only_shows s (cmd_clear argv s)" by (simp add: cmd_clear_def only_shows_def quiet_print)
  show "only_shows s (cmd_cpuid argv s)" by (auto simp: cmd_cpuid_def only_shows_def intro!: quiet_all)
  show "only_shows s (cmd_uptime argv s)" by (auto simp: cmd_uptime_def only_shows_def Let_def intro!: quiet_all)
  show "only_shows s (cmd_meminfo argv s)" by (auto simp: cmd_meminfo_def only_shows_def Let_def intro!: quiet_all)
  show "only_shows s (cmd_sysfetch argv s)" by (auto simp: cmd_sysfetch_def only_shows_def Let_def intro!: quiet_all)
  have "quiet s (debug_print_segments s)"
    unfolding debug_print_segments_def Let_def split_beta
    by (rule quiet_trans [OF quiet_print(1) quiet_seq]) (auto intro: quiet_print)
  then show "only_shows s (cmd_state argv s)" by (simp add: cmd_state_def only_shows_def)
qed

end
