(* ===== verification/FdSafe.thy ===== *)
theory FdSafe
  imports Fd
begin

text \<open>
  Type safety of the calls on descriptors: in a state where the table has its 32 entries and every open
  descriptor points at a file of the tree, each call within its limits returns, and leaves such a state.
\<close>

datatype call = Open cstr | Close i32 | Seek i32 u32 | Read i32 nat | Write i32 cstr

text \<open>Reads go to a fresh buffer of the size asked for, writes take all of their buffer.\<close>

fun do_call :: "call \<Rightarrow> 'a fd_scheme \<Rightarrow> (i32 \<times> 'a fd_scheme) option" where
  "do_call (Open p) s = sys_open (str_at p) s"
| "do_call (Close fd) s = Some (0, sys_close fd s)"
| "do_call (Seek fd off) s = Some (sys_seek fd off s)"
| "do_call (Read fd n) s = map_option (\<lambda>(r, _, t). (r, t)) (sys_read fd (replicate n 0) (of_nat n) s)"
| "do_call (Write fd bs) s = sys_write fd (buf_at bs 0) (of_nat (length bs)) s"

definition is_file :: "tree \<Rightarrow> u32 \<Rightarrow> bool" where
  "is_file T f \<longleftrightarrow> (\<exists>nd. T f = Some nd \<and> n_flags nd AND VFS_DIR = 0)"

definition fds_ok :: "'a fd_scheme \<Rightarrow> tree \<Rightarrow> bool" where
  "fds_ok s T \<longleftrightarrow> (\<exists>a. vfs_rep a s T) \<and> op_read s \<and> op_write s \<and> length (fd_table s) = MAX_FDS
     \<and> (\<forall>d \<in> set (fd_table s). fd_used d \<longrightarrow> is_file T (fd_node d))"

text \<open>The limits: paths of short components that lead to a file or nowhere, positions below 2 GB, writes at a
  position inside of the file or at its end, with memory left.\<close>

fun within :: "call \<Rightarrow> 'a fd_scheme \<Rightarrow> tree \<Rightarrow> bool" where
  "within (Open p) s T \<longleftrightarrow> 0 \<notin> set p \<and> (\<forall>w \<in> set (pieces 0x2F p). length w < 64)
     \<and> (let f = walk T (mnt_of s) (vfs_root s) (pieces 0x2F p) in f = 0 \<or> is_file T f)"
| "within (Close fd) s T \<longleftrightarrow> True"
| "within (Seek fd off) s T \<longleftrightarrow> True"
| "within (Read fd n) s T \<longleftrightarrow> bad_fd fd s \<or> unat (fd_offset (fd_table s ! unat fd)) + n < 2 ^ 31"
| "within (Write fd bs) s T \<longleftrightarrow> bad_fd fd s \<or> (bs \<noteq> []
     \<and> unat (fd_offset (fd_table s ! unat fd)) \<le> length (n_data (the (T (fd_node (fd_table s ! unat fd)))))
     \<and> heap_room (unat (fd_offset (fd_table s ! unat fd)) + length bs) s)"

lemma sint_unat:
  fixes w :: i32
  assumes "0 \<le> sint w"
  shows "sint w = int (unat w)"
proof -
  have "uint w = take_bit 32 (sint w)" using uint_sint [of w] by simp
  also have "\<dots> = sint w" using assms sint_lt [of w] by (intro take_bit_int_eq_self) simp_all
  finally show ?thesis by simp
qed

lemma good_fd:
  fixes s :: "'a fd_scheme"
  assumes "\<not> bad_fd fd s" and "fds_ok s T"
  obtains i f off nd where "fd = of_nat i" "i < MAX_FDS" "fd_is i f off s" "T f = Some nd" "n_flags nd AND VFS_DIR = 0"
    "unat fd = i" "f = fd_node (fd_table s ! i)" "off = unat (fd_offset (fd_table s ! i))"
proof -
  have b: "0 \<le> sint fd" "sint fd < 32" "fd_used (fd_table s ! unat fd)" using assms(1) by (simp_all add: bad_fd_def)
  have "sint fd = int (unat fd)" by (rule sint_unat [OF b(1)])
  then have i: "unat fd < 32" using b(2) by linarith
  have len: "length (fd_table s) = 32" using assms(2) by (simp add: fds_ok_def)
  have "is_file T (fd_node (fd_table s ! unat fd))" using assms(2) b(3) i len by (simp add: fds_ok_def)
  then obtain nd where nd: "T (fd_node (fd_table s ! unat fd)) = Some nd" "n_flags nd AND VFS_DIR = 0" by (auto simp: is_file_def)
  have "fd_is (unat fd) (fd_node (fd_table s ! unat fd)) (unat (fd_offset (fd_table s ! unat fd))) s"
    using i len b(3) by (simp add: fd_is_def)
  then show ?thesis using that [of "unat fd"] i nd by simp
qed

lemma fds_ok_update:
  assumes "fds_ok s T" and "i < MAX_FDS" and "fd_used d \<Longrightarrow> is_file T (fd_node d)"
  shows "fds_ok (s\<lparr>fd_table := (fd_table s)[i := d]\<rparr>) T"
  using assms set_update_subset_insert [of "fd_table s" i d] by (auto simp: fds_ok_def vfs_rep_table)

lemma is_file_used: "fds_ok s T \<Longrightarrow> i < MAX_FDS \<Longrightarrow> fd_used (fd_table s ! i) \<Longrightarrow> is_file T (fd_node (fd_table s ! i))"
  by (simp add: fds_ok_def)

lemma call_sound:
  fixes s :: "'a fd_scheme"
  assumes ok: "fds_ok s T" and w: "within c s T"
  shows "\<exists>r t T'. do_call c s = Some (r, t) \<and> fds_ok t T' \<and> dom T' = dom T"
proof (cases c)
  case (Open p)
  obtain a where R: "vfs_rep a s T" using ok by (auto simp: fds_ok_def)
  let ?f = "walk T (mnt_of s) (vfs_root s) (pieces 0x2F p)"
  have p: "holds (str_at p) p" "\<forall>w \<in> set (pieces 0x2F p). length w < 64" "?f = 0 \<or> is_file T ?f"
    using w by (simp_all add: Open Let_def)
  have lk: "vfs_lookup (str_at p) s = Some ?f" by (rule lookup_walk [OF R p(1,2)])
  have len: "length (fd_table s) = MAX_FDS" using ok by (simp add: fds_ok_def)
  show ?thesis
  proof (cases "?f = 0 \<or> free_fds (fd_table s) = {}")
    case True
    then show ?thesis using sys_open_result [OF len lk] ok Open by auto
  next
    case False
    then have "lowest_fd (fd_table s) < MAX_FDS" using lowest_fd [of "fd_table s"] len by (auto simp: free_fds_def)
    from fds_ok_update [OF ok this, of "\<lparr>fd_used = True, fd_node = ?f, fd_offset = 0\<rparr>"] False p(3)
    have "fds_ok (s\<lparr>fd_table := (fd_table s)[lowest_fd (fd_table s) := \<lparr>fd_used = True, fd_node = ?f, fd_offset = 0\<rparr>]\<rparr>) T" by simp
    then show ?thesis using sys_open_result [OF len lk] False Open by auto
  qed
next
  case (Close fd)
  have "fds_ok (sys_close fd s) T"
  proof (cases "0 \<le> sint fd \<and> sint fd < int MAX_FDS")
    case True
    then have "sint fd = int (unat fd)" by (intro sint_unat) simp
    then have "unat fd < MAX_FDS" using True by linarith
    from fds_ok_update [OF ok this, of "(fd_table s ! unat fd)\<lparr>fd_used := False\<rparr>"] True
    show ?thesis by (simp add: sys_close_def set_fd_def)
  next
    case False
    then have "sys_close fd s = s" by (auto simp: sys_close_def)
    then show ?thesis using ok by simp
  qed
  then show ?thesis using Close by auto
next
  case (Seek fd off)
  have "fds_ok (snd (sys_seek fd off s)) T"
  proof (cases "bad_fd fd s")
    case True
    then show ?thesis using ok by (simp add: sys_seek_def)
  next
    case False
    then obtain i f k nd where i: "fd = of_nat i" "i < MAX_FDS" "fd_is i f k s" "T f = Some nd" "n_flags nd AND VFS_DIR = 0" "unat fd = i"
      by (rule good_fd [OF _ ok])
    from fds_ok_update [OF ok i(2), of "(fd_table s ! i)\<lparr>fd_offset := off\<rparr>"] is_file_used [OF ok i(2)]
    show ?thesis using False i(6) by (simp add: sys_seek_def set_fd_def)
  qed
  then show ?thesis using Seek by (cases "sys_seek fd off s") auto
next
  case (Read fd n)
  show ?thesis
  proof (cases "bad_fd fd s")
    case True
    then show ?thesis using ok Read by (auto simp: sys_read_def)
  next
    case False
    then obtain i f off nd where i: "fd = of_nat i" "i < MAX_FDS" "fd_is i f off s" "T f = Some nd" "n_flags nd AND VFS_DIR = 0" "unat fd = i"
      "f = fd_node (fd_table s ! i)" "off = unat (fd_offset (fd_table s ! i))"
      by (rule good_fd [OF _ ok])
    obtain a where T: "tree_rep a s T" using ok by (auto simp: fds_ok_def vfs_rep_def)
    have r: "op_read s" "off + n < 2 ^ 31" "min n (length (n_data nd) - off) \<le> length (replicate n (0 :: u8))"
      using ok w False i(6,8) by (simp_all add: fds_ok_def Read)
    obtain t x b where t: "sys_read (of_nat i) (replicate n 0) (of_nat n) s = Some (x, b, t)"
      "t = s\<lparr>fd_table := (fd_table s)[i := (fd_table s ! i)\<lparr>fd_offset := of_nat (off + min n (length (n_data nd) - off))\<rparr>]\<rparr>"
      using sys_read_file [OF i(3) T i(4,5) r] by blast
    have "fds_ok t T" unfolding t(2) by (rule fds_ok_update [OF ok i(2)]) (use is_file_used [OF ok i(2)] in simp)
    then show ?thesis using t(1) Read i(1) by auto
  qed
next
  case (Write fd bs)
  show ?thesis
  proof (cases "bad_fd fd s")
    case True
    then show ?thesis using ok Write by (auto simp: sys_write_def)
  next
    case False
    then obtain i f off nd where i: "fd = of_nat i" "i < MAX_FDS" "fd_is i f off s" "T f = Some nd" "n_flags nd AND VFS_DIR = 0" "unat fd = i"
      "f = fd_node (fd_table s ! i)" "off = unat (fd_offset (fd_table s ! i))"
      by (rule good_fd [OF _ ok])
    obtain a where R: "vfs_rep a s T" using ok by (auto simp: fds_ok_def)
    then have T: "tree_rep a s T" by (simp add: vfs_rep_def)
    have ws: "op_write s" "off \<le> length (n_data nd)" "0 < length bs" "heap_room (off + length bs) s"
      using ok w False i(4,6,7,8) by (simp_all add: fds_ok_def Write)
    have b: "\<forall>j < length bs. buf_at bs 0 j = Some (bs ! j)" by (simp add: buf_at_def)
    from sys_write_file [OF i(3) T i(4,5) ws b]
    obtain q cap t a' where t: "sys_write (of_nat i) (buf_at bs 0) (of_nat (length bs)) s = Some (of_nat (length bs), t)"
      "tree_rep a' t (tree_write f off bs q cap T)" "fd_is i f (off + length bs) t"
      "heap.more t = heap.more (s\<lparr>fd_table := (fd_table s)[i := (fd_table s ! i)\<lparr>fd_offset := of_nat (off + length bs)\<rparr>]\<rparr>)"
      by metis
    let ?T = "tree_write f off bs q cap T"
    note m = heap_more_fd [OF t(4)]
    have d: "dom ?T = dom T" by (rule tree_write_dom [where T = T and f = f, OF i(4)])
    have keep: "is_file ?T x = is_file T x" for x using i(4) by (simp add: is_file_def tree_write_def)
    have "vfs_rep a' t ?T" using t(2) R m d by (simp add: vfs_rep_def)
    then have "\<exists>a. vfs_rep a t ?T" by blast
    moreover have "\<forall>e \<in> set (fd_table t). fd_used e \<longrightarrow> is_file ?T (fd_node e)"
      using fds_ok_update [OF ok i(2), of "(fd_table s ! i)\<lparr>fd_offset := of_nat (off + length bs)\<rparr>"] is_file_used [OF ok i(2)]
      unfolding m(1) keep by (simp add: fds_ok_def)
    ultimately have "fds_ok t ?T" using ok m(5,6) unfolding fds_ok_def m(1) by simp
    then show ?thesis using t(1) Write i(1) d by auto
  qed
qed


section \<open>Properties\<close>

text \<open>C33: calls on descriptors are type safe: when every open descriptor points at a file of the tree, a call within
  its limits, on whatever descriptor, returns, no node appears or disappears, and again every open descriptor points at a file.\<close>

theorem fd_calls_typed:
  fixes s :: "'a fd_scheme"
  assumes "fds_ok s T" and "within c s T"
  shows "\<exists>r t T'. do_call c s = Some (r, t) \<and> fds_ok t T' \<and> dom T' = dom T"
  using assms by (rule call_sound)

theorem fd_calls_typed_witness:
  "\<exists>s :: fd. \<exists>T :: tree. \<exists>r t T'. do_call (Open (lit ''/log'')) s = Some (r, t) \<and> fds_ok t T' \<and> dom T' = dom T"
proof -
  obtain f nd a T and s :: fd where f: "vfs_rep a s T" "walk T (mnt_of s) (vfs_root s) (pieces 0x2F (lit ''/log'')) = f"
    "T f = Some nd" "n_flags nd AND VFS_DIR = 0" "op_write s" "op_read s"
    "fd_table s = replicate 32 \<lparr>fd_used = False, fd_node = 0, fd_offset = 0\<rparr>"
    by (rule log_file) (rule that; assumption)
  have "\<exists>a. vfs_rep a s T" using f(1) by blast
  then have "fds_ok s T" using f(5-7) by (simp add: fds_ok_def)
  moreover have "within (Open (lit ''/log'')) s T"
    using f pieces_log by (simp add: Let_def is_file_def)
  ultimately have "\<exists>r t T'. do_call (Open (lit ''/log'')) s = Some (r, t) \<and> fds_ok t T' \<and> dom T' = dom T"
    by (rule fd_calls_typed)
  then show ?thesis by (intro exI [of _ s] exI [of _ T])
qed

end
