(* ===== verification/ShellSafe.thy ===== *)
theory ShellSafe
  imports ShellInv FdSafe HeapProps
begin

text \<open>
  Progress and preservation for the commands of \<open>shell/shell.c\<close> that change files or memory: each returns and
  keeps the invariant of theory \<open>ShellInv\<close>, on every path: missing files, directories in place of files,
  full directories, failed allocations.
\<close>

section \<open>Changes of the tree\<close>

text \<open>A step that may change memory, the tree and the table of open files, but no other global.\<close>

lemma shell_inv_step:
  fixes s t :: "'a shell_scheme"
  assumes I: "shell_inv s T" and T: "tree_rep a t T'" and m: "heap.more t = heap.more (s\<lparr>fd_table := tab\<rparr>)"
    and tab: "length tab = MAX_FDS" "free_fds tab = {..<MAX_FDS}" and T': "dom T \<subseteq> dom T'" "plain_dirs T'" "\<And>x. is_dir T x \<Longrightarrow> is_dir T' x"
  shows "shell_inv t T'"
proof -
  note f = heap_more_fd [OF m]
  have c: "cwd t = cwd s" "echo_buffer t = echo_buffer s" using f(2) by (cases s; cases t; simp)+
  obtain a0 where "vfs_rep a0 s T" using I by (auto simp: shell_inv_def)
  then have "op_lookup s" "mount_count s \<le> 8" "\<forall>i < mount_count s. snd (mounts s i) \<in> dom T'" "vfs_root s \<in> dom T'"
    using T'(1) unfolding vfs_rep_def by blast+
  then have "vfs_rep a t T'" using T unfolding vfs_rep_def f by simp
  then have "\<exists>a. vfs_rep a t T'" by blast
  then show ?thesis using I tab T'(2,3) f c unfolding shell_inv_def by simp
qed

lemma same_table:
  fixes s :: "'a shell_scheme"
  assumes "shell_inv s T"
  shows "heap.more (s\<lparr>fd_table := fd_table s\<rparr>) = heap.more s" "length (fd_table s) = MAX_FDS" "free_fds (fd_table s) = {..<MAX_FDS}"
  using assms by (simp_all add: shell_inv_def)

lemma dir_create: "is_dir T x \<Longrightarrow> T c = None \<Longrightarrow> is_dir (tree_create d nm fl c T) x"
  by (auto simp: is_dir_def tree_create_def)

lemma plain_create: "plain_dirs T \<Longrightarrow> T d = Some nd \<Longrightarrow> plain_dirs (tree_create d nm fl c T)"
  by (auto simp: plain_dirs_def tree_create_def empty_node_def)

lemma dir_write: "T f = Some nd \<Longrightarrow> is_dir (tree_write f off bs q cap T) x = is_dir T x"
  by (auto simp: is_dir_def tree_write_def)

lemma plain_write: "plain_dirs T \<Longrightarrow> T f = Some nd \<Longrightarrow> n_flags nd AND VFS_DIR = 0 \<Longrightarrow> plain_dirs (tree_write f off bs q cap T)"
  by (auto simp: plain_dirs_def tree_write_def)

text \<open>An allocation of the shell leaves the tree alone, also when it fails.\<close>

lemma kmalloc_end:
  assumes rep: "heap_rep a s" and sz: "unat sz < 2 ^ 31" and k: "kmalloc sz s = Some (p, s')"
  shows "unat (heap_end s') \<le> unat (heap_end s) + unat sz + 40"
proof -
  obtain bs e where a: "a = (bs, e)" by (cases a)
  have inv: "heap_inv bs s" "heap_end s = adr e" "e < 0x200000" using rep by (auto simp: heap_rep_def a)
  obtain r bs' e' where r: "abs_kmalloc sz bs e = (r, bs', e')" by (cases "abs_kmalloc sz bs e")
  have s': "heap_end s' = adr e'" using kmalloc_refines_abs [OF inv sz r] k by auto
  have "e' < 0x200000 \<and> e' \<le> e + words_of sz + 6"
    using r inv(3) by (auto simp: abs_kmalloc_def abs_alloc_def Let_def split: if_splits option.splits)
  moreover have "4 * words_of sz \<le> unat sz + 7" by (simp add: words_of_def)
  ultimately show ?thesis using inv(2,3) s' by (simp add: unat_adr)
qed

lemma kmalloc_tree:
  assumes T: "tree_rep a s T" and sz: "unat sz < 2 ^ 31"
  obtains p s' a' where "kmalloc sz s = Some (p, s')" "tree_rep a' s' T" "heap.more s' = heap.more s"
    "unat (heap_end s') \<le> unat (heap_end s) + unat sz + 40"
proof -
  have rep: "heap_rep a s" using T by (simp add: tree_rep_def)
  obtain p s' a' where fp: "kmalloc sz s = Some (p, s') \<and> heap_rep a' s'
    \<and> (p = 0 \<and> used (fst a') = used (fst a)
       \<or> p \<noteq> 0 \<and> (\<exists>P. {unat p ..< unat p + unat sz} \<subseteq> P \<and> P \<inter> \<Union>(used (fst a)) = {} \<and> used (fst a') = insert P (used (fst a))))
    \<and> (\<forall>x \<in> \<Union>(used (fst a)). ram s' (of_nat x) = ram s (of_nat x))"
    using kmalloc_fresh_payload [OF rep sz] by (elim exE) (rule that)
  then have k: "kmalloc sz s = Some (p, s')" "heap_rep a' s'" "used (fst a) \<subseteq> used (fst a')"
    "\<forall>x \<in> \<Union>(used (fst a)). ram s' (of_nat x) = ram s (of_nat x)"
    by auto
  have m: "heap.more s' = heap.more s" by (rule kmalloc_more [OF k(1)])
  have ops: "ramfs_ops_at s' = ramfs_ops_at s" using m by (cases s; cases s') simp
  have same: "same_outside (- \<Union>(used (fst a)) \<union> {}) (ram s) (ram s')"
    unfolding same_outside_def
  proof (intro allI impI)
    fix x :: u32 assume "unat x \<notin> - \<Union>(used (fst a)) \<union> {}"
    then show "ram s' x = ram s x" using k(4) [rule_format, of "unat x"] by simp
  qed
  have "node_at (ram s') (ramfs_ops_at s') y ny \<and> placed a' y ny" if "T y = Some ny" for y ny
    using tree_others [OF T same k(3) that] ops by simp
  then have "tree_rep a' s' T" using T k(2) unfolding tree_rep_def by blast
  then show ?thesis using that k(1) m kmalloc_end [OF rep sz k(1)] by blast
qed

section \<open>Paths\<close>

lemma concat_member_le: "x \<in> set xs \<Longrightarrow> length (f x) \<le> length (concat (map f xs))"
  by (induction xs) auto

lemma pieces_length: "w \<in> set (pieces c t) \<Longrightarrow> length w \<le> length t"
  using concat_member_le [of w "split_at c t" "\<lambda>w. c # w"] by (simp add: pieces_def split_at_length)

text \<open>Walking from a directory ends at a node of the tree or nowhere.\<close>

lemma walk_in:
  assumes R: "vfs_rep a s T" and "x \<in> dom T"
  shows "walk T (mnt_of s) x p = 0 \<or> walk T (mnt_of s) x p \<in> dom T"
  using assms(2)
proof (induction p arbitrary: x)
  case (Cons nm p)
  have T: "tree_rep a s T" using R by (simp add: vfs_rep_def)
  show ?case using Cons find_entry_in [OF T Cons.prems, of nm] check_mount_in [OF R] by (simp add: Let_def)
qed simp

lemma resolve_arg_in:
  fixes s :: "'a shell_scheme"
  assumes I: "shell_inv s T" and p: "holds r p" "length p < 64"
  obtains x where "resolve_arg r s = Some x" "x = 0 \<or> x \<in> dom T"
proof -
  obtain a where a: "vfs_rep a s T" "vfs_root s \<in> dom T" "cwd s \<in> dom T" using I by (rule shell_invD)
  have w: "\<forall>w \<in> set (pieces 0x2F p). length w < 64" using pieces_length p(2) by fastforce
  obtain c where c: "r 0 = Some c" using p(1) by (cases p) (auto simp: holds_Nil holds_Cons)
  have pr: "path_resolve (cwd s) r s = Some (walk T (mnt_of s) (cwd s) (pieces 0x2F p))"
    unfolding path_resolve_def by (rule resolve_from_walk [OF a(1,3) p(1) w]) simp
  show ?thesis
  proof (cases "c = 0x2F")
    case True
    then show ?thesis using that lookup_walk [OF a(1) p(1) w] walk_in [OF a(1,2)] c by (simp add: resolve_arg_def)
  next
    case False
    then show ?thesis using that pr walk_in [OF a(1,3)] c by (simp add: resolve_arg_def)
  qed
qed

lemma node_flags:
  assumes "tree_rep a s T" and "x \<in> dom T"
  obtains nd where "T x = Some nd" "ld32 (ram s) (x + NODE_FLAGS) = Some (n_flags nd)" "x \<noteq> 0" "ramfs_node x s = Some ()"
  using assms tree_node(2,6) [OF assms(1)] ramfs_node_ok [OF assms] by (auto simp: node_at_def)

section \<open>Directories\<close>

lemma cd_ends:
  fixes s :: "'a shell_scheme"
  assumes I: "shell_inv s T" and h: "list_all2 holds argv ws" and l: "2 \<le> length argv \<Longrightarrow> length (ws ! 1) < 64"
  shows "ends_well n s (cmd_cd argv s)"
proof -
  obtain a where a: "tree_rep a s T" "is_dir T (vfs_root s)" using I by (rule shell_invD)
  have to: "ends_well n s (Some (s\<lparr>cwd := x\<rparr>))" if "is_dir T x" for x
  proof (rule ends_wellI)
    have "vfs_rep b (s\<lparr>cwd := x\<rparr>) T = vfs_rep b s T" for b
      using tree_rep_fields [of "s\<lparr>cwd := x\<rparr>" s b T] by (simp add: vfs_rep_def)
    then show "shell_inv (s\<lparr>cwd := x\<rparr>) T" using I that by (simp add: shell_inv_def)
  qed simp
  have pr: "ends_well n s (Some (print_text m s))" for m
    by (rule same_ends [OF I quiet_console [OF quiet_print(1)]])
  show ?thesis
  proof (cases "length argv < 2")
    case True
    then show ?thesis using to [OF a(2)] by (simp add: cmd_cd_def)
  next
    case False
    then have l1: "1 < length argv" by simp
    have l2: "length (ws ! 1) < 64" using l l1 by simp
    obtain x where x: "resolve_arg (argv ! 1) s = Some x" "x = 0 \<or> x \<in> dom T"
      by (rule resolve_arg_in [OF I held_word(1) [OF h l1] l2])
    show ?thesis
    proof (cases "x = 0")
      case True
      then show ?thesis using False x(1) pr by (simp add: cmd_cd_def)
    next
      case nz: False
      then obtain nd where "T x = Some nd" "ld32 (ram s) (x + NODE_FLAGS) = Some (n_flags nd)"
        using node_flags [OF a(1), of x] x(2) by blast
      then show ?thesis using False x(1) nz pr to [of x] by (simp add: cmd_cd_def is_dir_def)
    qed
  qed
qed

lemma ls_ends:
  fixes s :: "'a shell_scheme"
  assumes I: "shell_inv s T" and h: "list_all2 holds argv ws" and l: "2 \<le> length argv \<Longrightarrow> length (ws ! 1) < 64"
  shows "ends_well n s (cmd_ls argv s)"
proof -
  obtain a where a: "tree_rep a s T" "cwd s \<in> dom T" "op_list s" using I by (rule shell_invD)
  have pr: "ends_well n s (Some (vga_print m s))" for m
    by (rule same_ends [OF I quiet_console [OF quiet_print(1)]])
  obtain x where x: "(if 2 \<le> length argv then resolve_arg (argv ! 1) s else Some (cwd s)) = Some x" "x = 0 \<or> x \<in> dom T"
  proof (cases "2 \<le> length argv")
    case True
    then have l1: "1 < length argv" by simp
    show ?thesis by (rule resolve_arg_in [OF I held_word(1) [OF h l1] l [OF True]]) (use True that in simp)
  qed (use a(2) that in simp)
  show ?thesis
  proof (cases "x = 0")
    case True
    then show ?thesis using x(1) pr by (simp add: cmd_ls_def)
  next
    case False
    then obtain nd where nd: "T x = Some nd" "ld32 (ram s) (x + NODE_FLAGS) = Some (n_flags nd)" "ramfs_node x s = Some ()"
      using node_flags [OF a(1), of x] x(2) by blast
    then show ?thesis using x(1) False pr ramfs_list_names [OF a(1) nd(1)] a(3) by (simp add: cmd_ls_def)
  qed
qed

lemma create_ends:
  fixes s :: "'a shell_scheme"
  assumes I: "shell_inv s T" and d: "d \<in> dom T" and nm: "holds name nm" "length nm < 64" and room: "heap_room NODE_SIZEOF s"
  shows "ends_well (4 * NODE_SIZEOF + 80) s (create_file d name m s)"
proof -
  obtain a where a: "tree_rep a s T" "op_create s" "plain_dirs T" using I by (rule shell_invD)
  obtain nd where nd: "T d = Some nd" "d \<noteq> 0" "ramfs_node d s = Some ()" by (rule node_flags [OF a(1) d]) (rule that; assumption)
  show ?thesis
  proof (cases "length (n_children nd) < 32")
    case True
    obtain c s1 a1 where c: "ramfs_create d name VFS_FILE s = Some (0, s1)" "T c = None" "c \<noteq> 0"
      "tree_rep a1 s1 (tree_create d nm VFS_FILE c T)" "heap.more s1 = heap.more s"
      "unat (heap_end s1) \<le> unat (heap_end s) + 4 * NODE_SIZEOF + 80"
      by (rule ramfs_create_tree [OF a(1) nd(1) nm True room])
    have "shell_inv s1 (tree_create d nm VFS_FILE c T)"
    proof (rule shell_inv_step [OF I c(4)])
      show "heap.more s1 = heap.more (s\<lparr>fd_table := fd_table s\<rparr>)" using c(5) by simp
      show "dom T \<subseteq> dom (tree_create d nm VFS_FILE c T)" by (auto simp: tree_create_def)
    qed (use same_table [OF I] plain_create [OF a(3) nd(1)] dir_create c(2) in blast)+
    then have "ends_well (4 * NODE_SIZEOF + 80) s (Some s1)" using c(6) by (intro ends_wellI) simp_all
    from ends_print [OF this, of m] show ?thesis using c(1) a(2) nd(3) by (simp add: create_file_def)
  next
    case False
    then have "ld32 (ram s) (d + NODE_PRIVATE) = Some d" "ld32 (ram s) (d + NODE_COUNT) = Some 32"
      using tree_node(2) [OF a(1) nd(1)] by (auto simp: node_at_def)
    then have "ramfs_create d name VFS_FILE s = Some (- 1, s)" using nd(2) by (simp add: ramfs_create_def)
    moreover have "ends_well (4 * NODE_SIZEOF + 80) s (Some (print_text ''Failed to create file\<newline>'' s))"
      by (rule same_ends [OF I quiet_console [OF quiet_print(1)]])
    ultimately show ?thesis using a(2) nd(3) by (simp add: create_file_def)
  qed
qed

lemma ends_mono: "ends_well n s r \<Longrightarrow> n \<le> k \<Longrightarrow> ends_well k s r"
  by (fastforce simp: ends_well_def)

lemma mk_ends:
  fixes s :: "'a shell_scheme"
  assumes I: "shell_inv s T" and h: "list_all2 holds argv ws" and l: "2 \<le> length argv \<Longrightarrow> length (ws ! 1) < 64"
    and room: "heap_room NODE_SIZEOF s"
  shows "ends_well (4 * NODE_SIZEOF + 80) s (cmd_mk argv s)" "ends_well (4 * NODE_SIZEOF + 80) s (cmd_mkr argv s)"
proof -
  obtain a where a: "vfs_rep a s T" "tree_rep a s T" "cwd s \<in> dom T" "vfs_root s \<in> dom T" using I by (rule shell_invD)
  have pr: "ends_well (4 * NODE_SIZEOF + 80) s (Some (print_text m s))" for m
    by (rule same_ends [OF I quiet_console [OF quiet_print(1)]])
  have cr: "ends_well (4 * NODE_SIZEOF + 80) s (create_file d (argv ! 1) m s)" if "d \<in> dom T" "\<not> length argv < 2" for d m
  proof -
    have "1 < length argv" using that(2) by simp
    then show ?thesis by (intro create_ends [OF I that(1) held_word(1) [OF h]] l room) simp_all
  qed
  show "ends_well (4 * NODE_SIZEOF + 80) s (cmd_mk argv s)" using pr cr a(3) by (simp add: cmd_mk_def)
  let ?tmp = "walk T (mnt_of s) (vfs_root s) (pieces 0x2F (lit ''/tmp''))"
  have "\<forall>w \<in> set (pieces 0x2F (lit ''/tmp'')). length w < 64" using tmp_path(2) tmp_word(2) by simp
  then have lk: "vfs_lookup (str_at (lit ''/tmp'')) s = Some ?tmp" by (rule lookup_walk [OF a(1) tmp_path(1)])
  show "ends_well (4 * NODE_SIZEOF + 80) s (cmd_mkr argv s)"
  proof (cases "?tmp = 0")
    case True
    then show ?thesis using pr lk by (simp add: cmd_mkr_def)
  next
    case False
    then have t: "?tmp \<in> dom T" using walk_in [OF a(1,4)] by blast
    have "\<exists>fl. ld32 (ram s) (?tmp + NODE_FLAGS) = Some fl" by (rule node_flags [OF a(2) t]) blast
    then show ?thesis using pr cr [OF t] lk False by (auto simp: cmd_mkr_def)
  qed
qed

section \<open>Files\<close>

lemma table_inv:
  assumes I: "shell_inv s T" and tab: "length tab = MAX_FDS" "free_fds tab = {..<MAX_FDS}"
  shows "shell_inv (s\<lparr>fd_table := tab\<rparr>) T"
  using I tab by (simp add: shell_inv_def vfs_rep_table vfs_check_mount_def)

lemma table_ends:
  fixes t :: "'a shell_scheme"
  assumes I: "shell_inv s T" and tab: "length tab = MAX_FDS" "free_fds tab = {..<MAX_FDS}"
    and t: "vga.more t = vga.more (s\<lparr>fd_table := tab\<rparr>)"
  shows "ends_well n s (Some t)"
proof -
  have c: "console.more t = console.more (s\<lparr>fd_table := tab\<rparr>)" by (rule console_of_vga [OF t])
  show ?thesis
    using table_inv [OF I tab] shell_inv_cong [OF c] shell_fields(4) [OF c] by (intro ends_wellI) simp_all
qed

text \<open>Opening and closing without a change in between.\<close>

lemma open_close_table:
  assumes "length tab = MAX_FDS" and "free_fds tab = {..<MAX_FDS}" and "i < MAX_FDS"
  shows "free_fds (tab[i := d\<lparr>fd_used := False\<rparr>]) = {..<MAX_FDS}"
proof -
  have "\<not> fd_used (tab ! i)" using assms by (auto simp: free_fds_def)
  then show ?thesis using free_fds_step [OF assms(1,3)] assms(2) by simp
qed

text \<open>A directory refuses writes and reads as empty.\<close>

lemma write_words_dir:
  assumes "list_all2 holds argv ws" and fd: "fd_is i f off s" and T: "tree_rep a s T" and f: "T f = Some nd" "n_flags nd AND VFS_DIR \<noteq> 0"
    and w: "op_write s"
  shows "write_words (of_nat i) argv s = Some s"
proof -
  have n: "ramfs_node f s = Some ()" using ramfs_node_ok [OF T] f(1) by blast
  have "ramfs_write f k sz b s = Some (- 1, s)" for k sz b
    using tree_node(2,6) [OF T f(1)] f(2) by (simp add: ramfs_write_def node_at_def)
  then have "sys_write (of_nat i) b sz s = Some (- 1, s)" for b sz
    using fd_is_good [OF fd] fd n w small_fd(1) [of i] by (simp add: sys_write_def fd_is_def)
  note w = this
  from assms(1) show ?thesis
    by (induction argv ws rule: list_all2_induct) (auto simp: strlen_holds w)
qed

lemma sys_read_dir:
  assumes fd: "fd_is i f off s" and T: "tree_rep a s T" and f: "T f = Some nd" "n_data nd = []" and r: "op_read s"
  shows "sys_read (of_nat i) b n s = Some (0, b, s)"
proof -
  have n: "ramfs_node f s = Some ()" using ramfs_node_ok [OF T] f(1) by blast
  have "ramfs_read f k n b s = Some (0, b)" for k
    using tree_node(2) [OF T f(1)] f(2) by (simp add: ramfs_read_def node_at_def)
  then show ?thesis using fd_is_good [OF fd] fd n r small_fd(1) [of i] by (simp add: sys_read_def fd_is_def)
qed

text \<open>What an argument path leads to.\<close>

lemma path_target:
  assumes R: "vfs_rep a s T" and p: "holds path p" "length p < 64"
  obtains (nothing) e where "sys_open path s = Some (e, s)" "sint e < 0"
    | (found) nd where "walk T (mnt_of s) (vfs_root s) (pieces 0x2F p) \<noteq> 0" "T (walk T (mnt_of s) (vfs_root s) (pieces 0x2F p)) = Some nd"
        "\<forall>w \<in> set (pieces 0x2F p). length w < 64"
proof -
  let ?f = "walk T (mnt_of s) (vfs_root s) (pieces 0x2F p)"
  have w: "\<forall>w \<in> set (pieces 0x2F p). length w < 64" using pieces_length p(2) by fastforce
  have root: "vfs_root s \<in> dom T" using R by (simp add: vfs_rep_def)
  show ?thesis
  proof (cases "?f = 0")
    case True
    have "vfs_lookup path s = Some 0" using lookup_walk [OF R p(1) w] True by simp
    then have "sys_open path s = Some (- 1, s)" by (simp add: sys_open_def)
    then show ?thesis by (rule nothing) simp
  next
    case False
    then show ?thesis using found w walk_in [OF R root, of "pieces 0x2F p"] by blast
  qed
qed

text \<open>Opening a node and, later, closing it again.\<close>

lemma open_node:
  fixes s :: "'a shell_scheme"
  assumes I: "shell_inv s T" and R: "vfs_rep a s T" and p: "holds path p" "\<forall>w \<in> set (pieces 0x2F p). length w < 64"
    and f: "walk T (mnt_of s) (vfs_root s) (pieces 0x2F p) = f" "f \<noteq> 0"
  obtains i s1 where "sys_open path s = Some (of_nat i, s1)" "\<not> sint (of_nat i :: i32) < 0" "sys_seek (of_nat i) 0 s1 = (0, s1)"
    "fd_is i f 0 s1" "tree_rep a s1 T" "op_read s1" "op_write s1"
    "\<And>t n. vga.more t = vga.more s1 \<Longrightarrow> ends_well n s (Some (sys_close (of_nat i) t))"
proof -
  have a: "op_read s" "op_write s" "length (fd_table s) = MAX_FDS" "free_fds (fd_table s) = {..<MAX_FDS}" "free_fds (fd_table s) \<noteq> {}"
    using I shell_invD [OF I] by (auto simp: shell_inv_def lessThan_empty_iff)
  obtain i s1 where o: "sys_open path s = Some (of_nat i, s1)" "fd_is i f 0 s1" "i \<in> free_fds (fd_table s)"
    "s1 = s\<lparr>fd_table := (fd_table s)[i := \<lparr>fd_used = True, fd_node = f, fd_offset = 0\<rparr>]\<rparr>" "vfs_rep a s1 T"
    by (rule sys_open_ok [OF R p f a(3,5)])
  have i: "i < MAX_FDS" using o(3) a(4) by simp
  have "ends_well n s (Some (sys_close (of_nat i) t))" if t: "vga.more t = vga.more s1" for t :: "'a shell_scheme" and n
  proof (rule table_ends [OF I])
    let ?tab = "(fd_table s)[i := (fd_table s1 ! i)\<lparr>fd_used := False\<rparr>]"
    show "length ?tab = MAX_FDS" "free_fds ?tab = {..<MAX_FDS}" using a(3) open_close_table [OF a(3,4) i] by simp_all
    have "vga.more (sys_close (of_nat i) t) = vga.more (s1\<lparr>fd_table := (fd_table s1)[i := (fd_table s1 ! i)\<lparr>fd_used := False\<rparr>]\<rparr>)"
      unfolding fd_close [OF i] fs_of_more(2) [OF t] by (rule more_table [OF t])
    then show "vga.more (sys_close (of_nat i) t) = vga.more (s\<lparr>fd_table := ?tab\<rparr>)" by (simp add: o(4))
  qed
  moreover have "sys_seek (of_nat i) 0 s1 = (0, s1)" using sys_seek_ok [OF o(2), of 0] i a(3) by (simp add: o(4))
  moreover have "\<not> sint (of_nat i :: i32) < 0" using small_fd(2) [of i] i by simp
  moreover have "tree_rep a s1 T" "op_read s1" "op_write s1" using o(5) a(1,2) by (simp_all add: vfs_rep_def o(4))
  ultimately show ?thesis using that [OF o(1) _ _ o(2)] by blast
qed

lemma rd_ends:
  fixes s :: "'a shell_scheme"
  assumes I: "shell_inv s T" and h: "list_all2 holds argv ws" and l: "2 \<le> length argv \<Longrightarrow> length (ws ! 1) < 64"
  shows "ends_well n s (cmd_rd argv s)"
proof -
  have pr: "ends_well n s (Some (print_text m s))" for m
    by (rule same_ends [OF I quiet_console [OF quiet_print(1)]])
  show ?thesis
  proof (cases "length argv < 2")
    case True
    then show ?thesis using pr by (simp add: cmd_rd_def)
  next
    case False
    then have l1: "1 < length argv" and l2: "length (ws ! 1) < 64" using l by simp_all
    have argv: "cmd_rd argv s = cmd_rd [argv ! 0, argv ! 1] s" using False by (simp add: cmd_rd_def)
    obtain a where a: "vfs_rep a s T" "tree_rep a s T" "plain_dirs T" "op_read s" "length (fd_table s) = MAX_FDS" "free_fds (fd_table s) \<noteq> {}"
      using I by (rule shell_invD)
    have all: "free_fds (fd_table s) = {..<MAX_FDS}" using I by (simp add: shell_inv_def)
    have hp: "holds (argv ! 1) (ws ! 1)" by (rule held_word(1) [OF h l1])
    let ?f = "walk T (mnt_of s) (vfs_root s) (pieces 0x2F (ws ! 1))"
    from a(1) hp l2 show ?thesis
    proof (cases rule: path_target)
      case nothing
      then show ?thesis unfolding argv using pr by (simp add: cmd_rd_def)
    next
      case (found nd)
      show ?thesis
      proof (cases "n_flags nd AND VFS_DIR = 0")
        case True
        obtain t where t: "cmd_rd [argv ! 0, argv ! 1] s = Some t" "free_fds (fd_table t) = free_fds (fd_table s)"
          "vga.more t = vga.more (s\<lparr>fd_table := fd_table t\<rparr>)" "length (fd_table t) = MAX_FDS"
          by (rule cmd_rd_file [OF a(1) hp found(3) refl found(2) True a(4-6)])
        show ?thesis unfolding argv t(1) by (rule table_ends [OF I t(4) _ t(3)]) (use t(2) all in simp)
      next
        case False
        obtain i s1 where o: "sys_open (argv ! 1) s = Some (of_nat i, s1)" "\<not> sint (of_nat i :: i32) < 0" "sys_seek (of_nat i) 0 s1 = (0, s1)"
          "fd_is i ?f 0 s1" "tree_rep a s1 T" "op_read s1"
          "\<And>t n. vga.more t = vga.more s1 \<Longrightarrow> ends_well n s (Some (sys_close (of_nat i) t))"
          by (rule open_node [OF I a(1) hp found(3) refl found(1)]) (rule that; assumption)
        have "n_data nd = []" using a(3) found(2) False by (simp add: plain_dirs_def)
        then have "sys_read (of_nat i) (replicate 256 0) 255 s1 = Some (0, replicate 256 0, s1)"
          using sys_read_dir [where T = T and nd = nd] o(4-6) found(2) by blast
        then have "cmd_rd argv s = Some (sys_close (of_nat i) (print_text ''\<newline>'' s1))" using o(1-3) l1 by (simp add: cmd_rd_def)
        then show ?thesis using o(7) [OF more_print] by simp
      qed
    qed
  qed
qed

lemma write_ends:
  fixes s :: "'a shell_scheme"
  assumes I: "shell_inv s T" and h: "list_all2 holds argv ws" and l: "2 \<le> length argv \<Longrightarrow> length (ws ! 1) < 64"
    and ws: "[] \<notin> set ws" "length ws \<le> 8" "length (join_words (drop 2 ws)) \<le> 256" and room: "unat (heap_end s) + 0x4000 < 0x800000"
  shows "ends_well 0x4000 s (cmd_write argv s)"
proof -
  have pr: "ends_well n s (Some (print_text m s))" for m n
    by (rule same_ends [OF I quiet_console [OF quiet_print(1)]])
  show ?thesis
  proof (cases "length argv < 3")
    case True
    then show ?thesis using pr by (simp add: cmd_write_def)
  next
    case False
    then have l1: "1 < length argv" and l2: "length (ws ! 1) < 64" using l by simp_all
    have argv: "argv = argv ! 0 # argv ! 1 # drop 2 argv" using False by (cases argv; cases "tl argv") auto
    have hw: "list_all2 holds (drop 2 argv) (drop 2 ws)" by (rule list_all2_drop_holds [OF h])
    have nw: "drop 2 ws \<noteq> []" "[] \<notin> set (drop 2 ws)" "length (drop 2 ws) \<le> 6"
      using list_all2_lengthD [OF h] False ws(1,2) by (auto dest: in_set_dropD)
    obtain a where a: "vfs_rep a s T" "tree_rep a s T" "plain_dirs T" "op_write s" "length (fd_table s) = MAX_FDS" "free_fds (fd_table s) \<noteq> {}"
      using I by (rule shell_invD)
    have hp: "holds (argv ! 1) (ws ! 1)" by (rule held_word(1) [OF h l1])
    let ?f = "walk T (mnt_of s) (vfs_root s) (pieces 0x2F (ws ! 1))"
    from a(1) hp l2 show ?thesis
    proof (cases rule: path_target)
      case nothing
      then show ?thesis using pr False by (simp add: cmd_write_def)
    next
      case (found nd)
      show ?thesis
      proof (cases "n_flags nd AND VFS_DIR = 0")
        case True
        have "2 * length (drop 2 ws) * (4 * length (join_words (drop 2 ws)) + 80) \<le> 2 * 6 * (4 * 256 + 80)"
          using nw(3) ws(3) by (intro mult_le_mono add_le_mono) simp_all
        then have cost: "2 * length (drop 2 ws) * (4 * length (join_words (drop 2 ws)) + 80) \<le> 0x4000" by simp
        then have wr: "words_room (length (drop 2 ws)) (length (join_words (drop 2 ws))) s"
          using room unfolding words_room_def by linarith
        obtain q cap t a' where t: "cmd_write (argv ! 0 # argv ! 1 # drop 2 argv) s = Some t"
          "vfs_rep a' t (tree_write ?f 0 (join_words (drop 2 ws)) q cap T)"
          "free_fds (fd_table t) = free_fds (fd_table s)" "length (fd_table t) = MAX_FDS"
          "\<exists>tab. heap.more t = heap.more (s\<lparr>fd_table := tab\<rparr>)"
          "unat (heap_end t) \<le> unat (heap_end s) + 2 * length (drop 2 ws) * (4 * length (join_words (drop 2 ws)) + 80)"
          by (rule cmd_write_file [OF a(1) hp found(3) refl found(2) True a(4-6) hw nw(1,2) wr])
        let ?T = "tree_write ?f 0 (join_words (drop 2 ws)) q cap T"
        obtain tab where tab: "heap.more t = heap.more (s\<lparr>fd_table := tab\<rparr>)" using t(5) by blast
        have tt: "fd_table t = tab" by (rule heap_more_fd(1) [OF tab])
        have "shell_inv t ?T"
        proof (rule shell_inv_step [OF I _ tab])
          show "tree_rep a' t ?T" using t(2) by (simp add: vfs_rep_def)
          show "length tab = MAX_FDS" "free_fds tab = {..<MAX_FDS}" using t(3,4) I by (simp_all add: tt shell_inv_def)
          show "dom T \<subseteq> dom ?T" using tree_write_dom [where T = T and f = ?f, OF found(2)] by simp
        qed (use plain_write [where T = T, OF a(3) found(2) True] dir_write [where T = T, OF found(2)] in simp_all)
        then have "ends_well 0x4000 s (Some t)" using t(6) cost by (intro ends_wellI) simp_all
        then show ?thesis using t(1) argv by simp
      next
        case False
        obtain i s1 where o: "sys_open (argv ! 1) s = Some (of_nat i, s1)" "\<not> sint (of_nat i :: i32) < 0" "sys_seek (of_nat i) 0 s1 = (0, s1)"
          "fd_is i ?f 0 s1" "tree_rep a s1 T" "op_write s1"
          "\<And>t n. vga.more t = vga.more s1 \<Longrightarrow> ends_well n s (Some (sys_close (of_nat i) t))"
          by (rule open_node [OF I a(1) hp found(3) refl found(1)]) (rule that; assumption)
        have w: "write_words (of_nat i) (drop 2 argv) s1 = Some s1"
          by (rule write_words_dir [where T = T and nd = nd, OF hw o(4,5) found(2) False o(6)])
        have "cmd_write argv s = map_option (print_text ''Written.\<newline>'') (Some (sys_close (of_nat i) s1))"
          using o(1-3) w \<open>\<not> length argv < 3\<close> by (simp add: cmd_write_def)
        then show ?thesis using ends_print [OF o(7) [OF refl]] by simp
      qed
    qed
  qed
qed

section \<open>Memory\<close>

lemma heap_reports:
  fixes s :: "'a shell_scheme"
  assumes I: "shell_inv s T"
  shows "only_shows s (cmd_heapval argv s)" "only_shows s (cmd_heapinfo argv s)"
proof -
  obtain a where a: "heap_rep a s" using I by (rule shell_invD)
  then have inv: "heap_inv (fst a) s" by (simp add: heap_rep_def)
  show "only_shows s (cmd_heapval argv s)"
    using heap_validate_inv [OF inv] quiet_print(1) by (simp add: cmd_heapval_def only_shows_def)
  have lines: "quiet s (dump_lines i bs s)" for i bs and s :: "'a shell_scheme"
    by (induction bs arbitrary: i s) (auto intro: quiet_trans [OF quiet_step [OF screen_step_dump_line]])
  show "only_shows s (cmd_heapinfo argv s)"
  proof (cases "heap_head s = 0")
    case True
    then show ?thesis using quiet_print(1) by (simp add: cmd_heapinfo_def heap_dump_def only_shows_def)
  next
    case False
    then have "fst a \<noteq> []" using inv by (auto simp: heap_inv_def adr_def)
    from heap_dump_blocks [OF inv this] show ?thesis
      using quiet_trans [OF quiet_print(1) lines] by (simp add: cmd_heapinfo_def only_shows_def)
  qed
qed

lemma positive_small:
  fixes w :: i32
  assumes "0 < sint w"
  shows "unat w < 2 ^ 31"
proof -
  have "int (unat w) < int (2 ^ 31)" using sint_lt [of w] sint_unat [of w] assms by simp
  then show ?thesis by (simp only: of_nat_less_iff)
qed

lemma alloc_ends:
  fixes s :: "'a shell_scheme"
  assumes I: "shell_inv s T" and h: "list_all2 holds argv ws"
  shows "ends_well (if 2 \<le> length ws \<and> 0 < sint (leading 0 (ws ! 1)) then unat (leading 0 (ws ! 1)) + 40 else 0) s (cmd_alloc argv s)"
proof -
  have pr: "ends_well n s (Some (print_text m s))" for m n
    by (rule same_ends [OF I quiet_console [OF quiet_print(1)]])
  have len: "length argv = length ws" by (rule list_all2_lengthD [OF h])
  let ?n = "leading 0 (ws ! 1)"
  show ?thesis
  proof (cases "2 \<le> length argv \<and> 0 < sint ?n")
    case False
    then show ?thesis using pr held_atoi [OF h, of 1] len by (auto simp: cmd_alloc_def not_le not_less)
  next
    case True
    then have at: "atoi (argv ! 1) = Some ?n" using held_atoi [OF h, of 1] by simp
    obtain a where a: "tree_rep a s T" "plain_dirs T" using I by (rule shell_invD)
    have sz: "unat ?n < 2 ^ 31" by (rule positive_small) (use True in simp)
    obtain q s1 a1 where k: "kmalloc ?n s = Some (q, s1)" "tree_rep a1 s1 T" "heap.more s1 = heap.more s"
      "unat (heap_end s1) \<le> unat (heap_end s) + unat ?n + 40"
      by (rule kmalloc_tree [OF a(1) sz])
    have I1: "shell_inv s1 T"
      by (rule shell_inv_step [OF I k(2), of "fd_table s"]) (use k(3) same_table(2,3) [OF I] a(2) in simp_all)
    define u where "u = s1\<lparr>last_alloc := q\<rparr>"
    have I2: "shell_inv u T"
    proof -
      have "vfs_rep b u T = vfs_rep b s1 T" for b
        using tree_rep_fields [of u s1 b T] by (simp add: vfs_rep_def u_def)
      then show ?thesis using I1 by (simp add: shell_inv_def u_def)
    qed
    have e: "ends_well (unat ?n + 40) s (Some t)" if "shell_inv v T" "heap_end v = heap_end s1" "quiet v t" for v t :: "'a shell_scheme"
      using that(1,2) k(4) shell_inv_cong [OF quiet_console [OF that(3)]] shell_fields(4) [OF quiet_console [OF that(3)]]
      by (intro ends_wellI) simp_all
    have "ends_well (unat ?n + 40) s (Some (print_text ''Allocation failed\<newline>'' s1))" by (rule e [OF I1 refl quiet_print(1)])
    moreover have "ends_well (unat ?n + 40) s (Some (print_text ''\<newline>'' (vga_print_hex q (print_text ''Allocated at: '' u))))"
      by (rule e [OF I2]) (simp add: u_def, intro quiet_all)
    ultimately have "ends_well (unat ?n + 40) s (cmd_alloc argv s)"
      using True at k(1) by (simp add: cmd_alloc_def u_def)
    then show ?thesis using True len by simp
  qed
qed

section \<open>\<open>echo\<close>, \<open>panic\<close> and the power commands\<close>

lemma echo_ends:
  fixes s :: "'a shell_scheme"
  assumes I: "shell_inv s T" and h: "list_all2 holds argv ws" and ne: "ws \<noteq> []" and l: "length (join_words (tl ws)) < 1024"
  shows "ends_well n s (cmd_echo argv s)"
proof -
  have e: "length (echo_buffer s) = 1024" using I by (rule shell_invD)
  obtain c as where argv: "argv = c # as" "list_all2 holds as (tl ws)" using h ne by (cases ws) (auto simp: list_all2_Cons2)
  obtain b where b: "cmd_echo (c # as) s = Some (print_text ''\<newline>'' (vga_print (join_words (tl ws)) (s\<lparr>echo_buffer := b\<rparr>)))" "length b = 1024"
    by (rule echo_words [OF argv(2) e l])
  have "vfs_rep a (s\<lparr>echo_buffer := b\<rparr>) T = vfs_rep a s T" for a
    using tree_rep_fields [of "s\<lparr>echo_buffer := b\<rparr>" s a T] by (simp add: vfs_rep_def)
  then have "shell_inv (s\<lparr>echo_buffer := b\<rparr>) T" using I b(2) by (simp add: shell_inv_def)
  moreover have "quiet (s\<lparr>echo_buffer := b\<rparr>) (print_text ''\<newline>'' (vga_print (join_words (tl ws)) (s\<lparr>echo_buffer := b\<rparr>)))"
    by (intro quiet_all)
  ultimately have "ends_well n (s\<lparr>echo_buffer := b\<rparr>) (cmd_echo argv s)" unfolding argv(1) b(1)
    by (intro same_ends quiet_console)
  then show ?thesis by (simp add: ends_well_def)
qed

lemma panic_halts:
  assumes h: "list_all2 holds argv ws" and ne: "ws \<noteq> []" and l: "length (join_words (tl ws)) < 128"
  shows "\<exists>t. cmd_panic argv s = Some (Halts t)"
proof (cases "length argv < 2")
  case False
  obtain c as where argv: "argv = c # as" "list_all2 holds as (tl ws)" using h ne by (cases ws) (auto simp: list_all2_Cons2)
  have "holds (buf_at ((replicate 128 0)[0 := 0]) 0) []" by (simp add: holds_Nil buf_at_def)
  moreover have "length (join_words (tl ws)) < length ((replicate 128 (0 :: u8))[0 := 0])" using l by simp
  ultimately obtain b where "join_args True as ((replicate 128 0)[0 := 0]) = Some b" "holds (buf_at b 0) (join_words (tl ws))"
    using join_args_holds [OF argv(2)] by blast
  then show ?thesis using False argv(1) by (simp add: cmd_panic_def read_str_holds debug_panic_def Let_def)
qed (simp add: cmd_panic_def debug_panic_def Let_def)

text \<open>Where the machine does not go down, the command returns after its pause.\<close>

lemma power_console:
  fixes s :: "'a shell_scheme"
  assumes w: "device_wake wake"
  shows "\<exists>t. cmd_shutdown wake argv s = Some t \<and> console.more t = console.more s"
    "\<exists>t. cmd_reboot wake argv s = Some t \<and> console.more t = console.more s"
proof -
  have e: "\<exists>t. map_option (vga_print_color m c) (sleep wake 1000 u) = Some t \<and> console.more t = console.more s"
    if "quiet s u" for u :: "'a shell_scheme" and m c
  proof -
    obtain t where t: "sleep wake 1000 u = Some t" "calm u t" by (rule sleep_calm [OF w])
    have "console.more (vga_print_color m c t) = console.more s"
      using quiet_console [OF that] calm_machine(2) [OF t(2)] quiet_console [OF quiet_print_color] by metis
    then show ?thesis by (simp add: t(1))
  qed
  have "quiet s (outw p v u)" "quiet s (outb p' v' u)" if "quiet s u" for p v p' v' and u :: "'a shell_scheme"
    using that by (simp_all add: quiet_def outw_def outb_def)
  then show "\<exists>t. cmd_shutdown wake argv s = Some t \<and> console.more t = console.more s"
    "\<exists>t. cmd_reboot wake argv s = Some t \<and> console.more t = console.more s"
    unfolding cmd_shutdown_def cmd_reboot_def by (intro e; blast intro: quiet_print(1))+
qed

lemma power_ends:
  fixes s :: "'a shell_scheme"
  assumes I: "shell_inv s T" and w: "device_wake wake"
  shows "ends_well n s (cmd_shutdown wake argv s)" "ends_well n s (cmd_reboot wake argv s)"
  using power_console [OF w, of argv s] same_ends [OF I] by auto

end
