(* ===== verification/Session.thy ===== *)
theory Session
  imports ShellSafe
begin

text \<open>
  The shell never faults: progress and preservation for whole lines (\<open>execute_command\<close> of \<open>shell/shell.c\<close>), and the
  locale that lifts them to sessions of any length.
\<close>

section \<open>Sessions in general\<close>

text \<open>The contract of one step, and what it gives for a run: \<open>extent\<close> is the resource a step may use up, \<open>cost\<close> a
  bound for one step.\<close>

fun run_all :: "('c \<Rightarrow> 's \<Rightarrow> 's outcome option) \<Rightarrow> 'c list \<Rightarrow> 's \<Rightarrow> 's outcome option" where
  "run_all step [] s = Some (Returns s)"
| "run_all step (c # cs) s = do {
     r \<leftarrow> step c s;
     case r of Returns s \<Rightarrow> run_all step cs s | Halts s \<Rightarrow> Some (Halts s) }"

locale sound_steps =
  fixes step :: "'c \<Rightarrow> 's \<Rightarrow> 's outcome option"
    and inv :: "'s \<Rightarrow> bool"
    and safe :: "'c \<Rightarrow> bool"
    and cost :: "'c \<Rightarrow> nat"
    and extent :: "'s \<Rightarrow> nat"
    and limit :: nat
  assumes step_sound: "inv s \<Longrightarrow> safe c \<Longrightarrow> extent s + cost c < limit \<Longrightarrow>
    \<exists>r. step c s = Some r \<and> (\<forall>t. r = Returns t \<longrightarrow> inv t \<and> extent t \<le> extent s + cost c)"
begin

lemma run_sound:
  assumes "inv s" and "\<forall>c \<in> set cs. safe c" and "extent s + sum_list (map cost cs) < limit"
  shows "\<exists>r. run_all step cs s = Some r
    \<and> (\<forall>t. r = Returns t \<longrightarrow> inv t \<and> extent t \<le> extent s + sum_list (map cost cs))"
  using assms
proof (induction cs arbitrary: s)
  case Nil
  then show ?case by simp
next
  case (Cons c cs)
  obtain r where r: "step c s = Some r" "\<And>t. r = Returns t \<Longrightarrow> inv t \<and> extent t \<le> extent s + cost c"
    using step_sound [of s c] Cons.prems by auto
  show ?case
  proof (cases r)
    case (Returns t)
    then have t: "inv t" "extent t \<le> extent s + cost c" using r(2) by blast+
    then have "extent t + sum_list (map cost cs) < limit" using Cons.prems(3) by simp
    from Cons.IH [OF t(1) _ this] Cons.prems(2) t(2) show ?thesis using r(1) Returns by fastforce
  qed (simp add: r(1))
qed

end

section \<open>Which lines are safe, and what they cost\<close>

text \<open>Excluded are the three commands that take any address or can damage the heap (\<open>free\<close>, \<open>freelast\<close>,
  \<open>memdump\<close>), paths and names of 64 bytes and more, the one division of \<open>calc\<close> that faults, and messages of \<open>panic\<close> above its buffer.
  All other words, known or
  not, with any arguments, are allowed.\<close>

definition allowed :: "cstr list \<Rightarrow> bool" where
  "allowed ws \<longleftrightarrow> hd ws \<notin> {lit ''free'', lit ''freelast'', lit ''memdump''}
     \<and> (hd ws \<in> {lit ''cd'', lit ''ls'', lit ''rd'', lit ''write'', lit ''mk'', lit ''mkr''} \<longrightarrow> 2 \<le> length ws \<longrightarrow> length (ws ! 1) < 64)
     \<and> (hd ws = lit ''calc'' \<longrightarrow> \<not> quotient_overflows ws)
     \<and> (hd ws = lit ''panic'' \<longrightarrow> length (join_words (tl ws)) < 128)"

definition words_cost :: "cstr list \<Rightarrow> nat" where
  "words_cost ws =
     (if hd ws \<in> {lit ''mk'', lit ''mkr'', lit ''write''} then 0x4000
      else if hd ws = lit ''alloc'' \<and> 2 \<le> length ws \<and> 0 < sint (leading 0 (ws ! 1)) then unat (leading 0 (ws ! 1)) + 40
      else 0)"

definition safe_line :: "cstr \<Rightarrow> bool" where
  "safe_line t \<longleftrightarrow> 0 \<notin> set t \<and> length t < 256
     \<and> (pieces 0x20 t \<noteq> [] \<longrightarrow> allowed (take 8 (pieces 0x20 t)))"

definition line_cost :: "cstr \<Rightarrow> nat" where
  "line_cost t = (if pieces 0x20 t = [] then 0 else words_cost (take 8 (pieces 0x20 t)))"

section \<open>Every command is sound\<close>

definition line_ends :: "nat \<Rightarrow> 'a shell_scheme \<Rightarrow> 'a shell_scheme outcome option \<Rightarrow> bool" where
  "line_ends n s r \<longleftrightarrow> (\<exists>out. r = Some out
     \<and> (\<forall>t. out = Returns t \<longrightarrow> (\<exists>T. shell_inv t T) \<and> unat (heap_end t) \<le> unat (heap_end s) + n))"

lemma returns_ends: "ends_well n s (cmd argv s) \<Longrightarrow> line_ends n s (returns cmd argv s)"
  by (auto simp: ends_well_def line_ends_def returns_def)

text \<open>A call of the shell on the words of a line.\<close>

definition call_ok :: "reader list \<Rightarrow> cstr list \<Rightarrow> 'a shell_scheme \<Rightarrow> tree \<Rightarrow> bool" where
  "call_ok argv ws s T \<longleftrightarrow> list_all2 holds argv ws \<and> ws \<noteq> [] \<and> [] \<notin> set ws \<and> length ws \<le> 8
     \<and> length (join_words (tl ws)) \<le> 256 \<and> allowed ws \<and> shell_inv s T \<and> unat (heap_end s) + words_cost ws < 0x800000"

definition sound_command :: "string \<times> 'a shell_scheme handler \<Rightarrow> bool" where
  "sound_command c \<longleftrightarrow>
     (\<forall>argv ws s T. call_ok argv ws s T \<longrightarrow> hd ws = lit (fst c) \<longrightarrow> line_ends (words_cost ws) s (snd c argv s))"

lemma sound_shows:
  assumes "\<And>argv ws s. list_all2 holds argv ws \<Longrightarrow> argv \<noteq> [] \<Longrightarrow> [] \<notin> set ws \<Longrightarrow> only_shows s (cmd argv s)"
  shows "sound_command (name, returns cmd)"
  unfolding sound_command_def
proof (intro allI impI)
  fix argv ws T and s :: "'a shell_scheme"
  assume c: "call_ok argv ws s T"
  then have "argv \<noteq> []" by (auto simp: call_ok_def)
  then show "line_ends (words_cost ws) s (snd (name, returns cmd) argv s)"
    using shows_ends [OF _ assms] c by (auto simp: call_ok_def intro: returns_ends)
qed

lemma sound_ends:
  assumes "\<And>argv ws s T. call_ok argv ws s T \<Longrightarrow> hd ws = lit name \<Longrightarrow> ends_well (words_cost ws) s (cmd argv s)"
  shows "sound_command (name, returns cmd)"
  using assms by (auto simp: sound_command_def intro: returns_ends)

lemma call_inv: "call_ok argv ws s T \<Longrightarrow> shell_inv s T"
  and call_held: "call_ok argv ws s T \<Longrightarrow> list_all2 holds argv ws"
  by (simp_all add: call_ok_def)

lemma second_word:
  assumes "call_ok argv ws s T" and "hd ws \<in> {lit ''cd'', lit ''ls'', lit ''rd'', lit ''write'', lit ''mk'', lit ''mkr''}"
    and "2 \<le> length argv"
  shows "length (ws ! 1) < 64"
  using assms list_all2_lengthD [of holds argv ws] by (auto simp: call_ok_def allowed_def)

lemma join_tail_le: "length (join_words (tl ws)) \<le> length (join_words ws)"
  by (cases ws rule: join_words.cases) simp_all

lemma sound_paths:
  "sound_command (''cd'', returns cmd_cd)" "sound_command (''ls'', returns cmd_ls)" "sound_command (''rd'', returns cmd_rd)"
  by (rule sound_ends, rule cd_ends ls_ends rd_ends, erule call_inv, erule call_held, rule second_word, assumption, simp, assumption)+

lemma create_sound:
  fixes s :: "'a shell_scheme"
  assumes c: "call_ok argv ws s T" and n: "hd ws = lit ''mk'' \<or> hd ws = lit ''mkr''"
  shows "ends_well (words_cost ws) s (cmd_mk argv s)" "ends_well (words_cost ws) s (cmd_mkr argv s)"
proof -
  have w: "words_cost ws = 0x4000" using n by (auto simp: words_cost_def)
  have room: "heap_room NODE_SIZEOF s" using c w by (simp add: call_ok_def heap_room_def)
  have l: "2 \<le> length argv \<Longrightarrow> length (ws ! 1) < 64" using second_word [OF c] n by blast
  note m = mk_ends [OF call_inv [OF c] call_held [OF c] l room]
  have le: "4 * NODE_SIZEOF + 80 \<le> words_cost ws" by (simp add: w)
  show "ends_well (words_cost ws) s (cmd_mk argv s)" by (rule ends_mono [OF m(1) le])
  show "ends_well (words_cost ws) s (cmd_mkr argv s)" by (rule ends_mono [OF m(2) le])
qed

lemma sound_create:
  "sound_command (''mk'', returns cmd_mk)" "sound_command (''mkr'', returns cmd_mkr)"
  by (rule sound_ends, erule create_sound, simp)+

lemma sound_write: "sound_command (''write'', returns cmd_write)"
proof (rule sound_ends)
  fix argv ws T and s :: "'a shell_scheme"
  assume c: "call_ok argv ws s T" and n: "hd ws = lit ''write''"
  have w: "words_cost ws = 0x4000" using n by (auto simp: words_cost_def)
  have l: "2 \<le> length argv \<Longrightarrow> length (ws ! 1) < 64" using second_word [OF c] n by blast
  have p: "shell_inv s T" "list_all2 holds argv ws" "[] \<notin> set ws" "length ws \<le> 8" "length (join_words (tl ws)) \<le> 256"
    "unat (heap_end s) + 0x4000 < 0x800000"
    using c w by (simp_all add: call_ok_def)
  have "drop 2 ws = tl (tl ws)" by (simp add: numeral_2_eq_2 drop_Suc)
  then have d: "length (join_words (drop 2 ws)) \<le> 256" using p(5) join_tail_le [of "tl ws"] by simp
  show "ends_well (words_cost ws) s (cmd_write argv s)" unfolding w by (rule write_ends [OF p(1,2) l p(3,4) d p(6)])
qed

lemma sound_alloc: "sound_command (''alloc'', returns cmd_alloc)"
proof (rule sound_ends)
  fix argv ws T and s :: "'a shell_scheme"
  assume c: "call_ok argv ws s T" and n: "hd ws = lit ''alloc''"
  have "words_cost ws = (if 2 \<le> length ws \<and> 0 < sint (leading 0 (ws ! 1)) then unat (leading 0 (ws ! 1)) + 40 else 0)"
    using n by (simp add: words_cost_def lit_simps)
  then show "ends_well (words_cost ws) s (cmd_alloc argv s)" using alloc_ends [of s T argv ws] c by (simp add: call_ok_def)
qed

lemma sound_echo: "sound_command (''echo'', returns cmd_echo)"
  by (rule sound_ends, rule echo_ends) (auto simp: call_ok_def)

lemma sound_heap:
  "sound_command (''heapval'', returns cmd_heapval)" "sound_command (''heapinfo'', returns cmd_heapinfo)"
  by (rule sound_ends, rule shows_ends, erule call_inv, rule heap_reports, erule call_inv)+

lemma sound_panic: "sound_command (''panic'', cmd_panic)"
proof -
  have "line_ends n s (cmd_panic argv s)" if "call_ok argv ws s T" "hd ws = lit ''panic''" for argv ws T n and s :: "'a shell_scheme"
  proof -
    have "length (join_words (tl ws)) < 128" using that by (simp add: call_ok_def allowed_def)
    then show ?thesis using panic_halts [of argv ws s] that(1) by (auto simp: call_ok_def line_ends_def)
  qed
  then show ?thesis by (simp add: sound_command_def)
qed

lemma sound_power:
  assumes "device_wake wake"
  shows "sound_command (''shutdown'', returns (cmd_shutdown wake))" "sound_command (''reboot'', returns (cmd_reboot wake))"
  by (rule sound_ends, rule power_ends [OF call_inv assms], assumption)+

lemma sound_calc: "sound_command (''calc'', returns cmd_calc)"
proof (rule sound_ends)
  fix argv ws T and s :: "'a shell_scheme"
  assume c: "call_ok argv ws s T" and n: "hd ws = lit ''calc''"
  have h: "list_all2 holds argv ws" "[] \<notin> set ws" "allowed ws" using c unfolding call_ok_def by blast+
  then have "\<not> quotient_overflows ws" using n unfolding allowed_def by blast
  then show "ends_well (words_cost ws) s (cmd_calc argv s)" by (rule shows_ends [OF call_inv [OF c] calc_shows [OF h(1,2)]])
qed

lemma sound_unsafe:
  "sound_command (''free'', returns cmd_free)" "sound_command (''freelast'', returns cmd_freelast)"
  "sound_command (''memdump'', returns cmd_memdump)"
  by (auto simp: sound_command_def call_ok_def allowed_def)

lemma all_sound:
  assumes "device_wake wake"
  shows "\<forall>c \<in> set (commands wake). sound_command c"
  unfolding commands_def
  by (simp add: sound_paths sound_create sound_write sound_alloc sound_echo sound_heap sound_panic sound_power [OF assms] sound_unsafe sound_calc)
    (intro conjI sound_shows help_shows cur_shows inttoascii_shows asciitoint_shows reports_show; assumption)

section \<open>Lines\<close>

lemma command_named_in: "command_named w cs = Some h \<Longrightarrow> \<exists>n. (n, h) \<in> set cs \<and> lit n = w"
  unfolding command_named_def find_Some_iff map_option_eq_Some by (metis nth_mem prod.collapse)

text \<open>A safe line prints at most, or it is a call of the command it names.\<close>

lemma line_call:
  fixes s :: "'a shell_scheme"
  assumes I: "shell_inv s T" and t: "safe_line t" "holds input t" and room: "unat (heap_end s) + line_cost t < 0x800000"
  obtains (prints) u where "execute_command wake input s = Some (Returns u)" "quiet s u"
    | (calls) argv ws n h where "call_ok argv ws s T" "ws = take 8 (pieces 0x20 t)" "pieces 0x20 t \<noteq> []"
        "(n, h) \<in> set (commands wake)" "hd ws = lit n" "execute_command wake input s = h argv s"
proof -
  let ?ps = "pieces 0x20 t"
  let ?ws = "take 8 ?ps"
  have len: "length t < 256" using t(1) by (simp add: safe_line_def)
  obtain argv where a: "list_all2 holds argv ?ws"
    "execute_command wake input s = (if ?ps = [] then Some (Returns s)
       else case command_named (hd ?ps) (commands wake) of
         None \<Rightarrow> Some (Returns (print_text ''Unknown command\<newline>'' s)) | Some h \<Rightarrow> h argv s)"
    by (rule execute_words [OF t(2) len])
  show ?thesis
  proof (cases "?ps = []")
    case True
    then show ?thesis using prints [of s] a(2) by simp
  next
    case ne: False
    show ?thesis
    proof (cases "command_named (hd ?ps) (commands wake)")
      case None
      then show ?thesis using prints [OF _ quiet_print(1)] a(2) ne by simp
    next
      case (Some h)
      obtain n where n: "(n, h) \<in> set (commands wake)" "lit n = hd ?ps" using command_named_in [OF Some] by blast
      have "[] \<notin> set ?ws" by (auto simp: pieces_def dest: in_set_takeD)
      moreover have "length (join_words (tl ?ws)) \<le> 256"
      proof (cases ?ps)
        case (Cons c cs)
        then show ?thesis using pieces_tail_length [OF Cons, of 7] len by simp
      qed simp
      ultimately have c: "call_ok argv ?ws s T"
        using a(1) ne t(1) I room by (simp add: call_ok_def safe_line_def line_cost_def)
      have "hd ?ws = lit n" using ne n(2) by (cases ?ps) simp_all
      then show ?thesis using calls [OF c refl ne n(1)] a(2) ne Some by simp
    qed
  qed
qed

lemma line_sound:
  fixes s :: "'a shell_scheme"
  assumes w: "device_wake wake" and I: "shell_inv s T" and t: "safe_line t" "holds input t"
    and room: "unat (heap_end s) + line_cost t < 0x800000"
  shows "line_ends (line_cost t) s (execute_command wake input s)"
  using I t room
proof (cases rule: line_call [where wake = wake])
  case (prints u)
  then show ?thesis using same_ends [OF I quiet_console [OF prints(2)]] by (auto simp: ends_well_def line_ends_def)
next
  case (calls argv ws n h)
  have "sound_command (n, h)" using all_sound [OF w] calls(4) by blast
  then have "line_ends (words_cost ws) s (h argv s)" using calls(1,5) unfolding sound_command_def by fastforce
  then show ?thesis using calls(2,3,6) by (simp add: line_cost_def)
qed

text \<open>Only \<open>panic\<close> halts.\<close>

lemma line_halts:
  fixes s :: "'a shell_scheme"
  assumes t: "safe_line t" "holds input t" and r: "execute_command wake input s = Some (Halts v)"
  shows "take 1 (pieces 0x20 t) = [lit ''panic'']"
proof -
  let ?ps = "pieces 0x20 t"
  have len: "length t < 256" using t(1) by (simp add: safe_line_def)
  obtain argv where e: "execute_command wake input s = (if ?ps = [] then Some (Returns s)
       else case command_named (hd ?ps) (commands wake) of
         None \<Rightarrow> Some (Returns (print_text ''Unknown command\<newline>'' s)) | Some h \<Rightarrow> h argv s)"
    by (rule execute_words [OF t(2) len])
  then obtain h where h: "?ps \<noteq> []" "command_named (hd ?ps) (commands wake) = Some h" "h argv s = Some (Halts v)"
    using r by (auto split: if_splits option.splits)
  obtain n where n: "(n, h) \<in> set (commands wake)" "lit n = hd ?ps" using command_named_in [OF h(2)] by blast
  have "n = ''panic''" using n(1) h(3) by (auto simp: commands_def returns_def bind_Some_iff)
  then show ?thesis using h(1) n(2) by (cases ?ps) simp_all
qed

section \<open>From the boot sequence\<close>

text \<open>The state the shell starts in.\<close>

lemma shell_init_inv:
  fixes t :: "'a shell_scheme"
  assumes r: "files_ready t" and e: "length (echo_buffer t) = 1024"
  obtains T where "shell_inv (shell_init t) T" "heap_end (shell_init t) = heap_end t"
proof -
  obtain r c d a where b: "vfs_rep a t (boot_tree r c d)" "vfs_root t = r" "distinct [0, r, c, d]" "op_create t" "op_read t" "op_write t"
    "op_list t" and tab: "length (fd_table t) = MAX_FDS" "\<forall>i < MAX_FDS. \<not> fd_used (fd_table t ! i)"
    using r by (auto simp: files_ready_def)
  let ?u = "t\<lparr>cwd := vfs_root t\<rparr>"
  have "vfs_rep a ?u (boot_tree r c d)" using b(1) tree_rep_fields [of ?u t a "boot_tree r c d"] by (simp add: vfs_rep_def)
  moreover have "is_dir (boot_tree r c d) r" using b(3) by (simp add: is_dir_def boot_tree_def empty_node_def)
  moreover have "plain_dirs (boot_tree r c d)" by (auto simp: plain_dirs_def boot_tree_def empty_node_def)
  moreover have "free_fds (fd_table t) = {..<MAX_FDS}" using tab by (auto simp: free_fds_def)
  ultimately have I: "shell_inv ?u (boot_tree r c d)" using b tab(1) e unfolding shell_inv_def by (intro conjI exI [of _ a]) simp_all
  have "quiet ?u (shell_init t)"
    by (simp add: shell_init_def shell_prompt_def) (intro conjI impI quiet_all)
  note q = quiet_console [OF this]
  show ?thesis using that I shell_inv_cong [OF q] shell_fields(4) [OF q] by simp
qed

end
