(* ===== verification/Typing.thy ===== *)
theory Typing
  imports Session
begin

text \<open>
  From keys to commands for as long as the kernel runs: no command touches the keys still waiting or the line editor, so
  the characters typed decide which lines run; as long as these are safe, neither \<open>shell_update\<close> nor the loop of
  \<open>kernel_main\<close> faults.
\<close>

section \<open>Commands leave the keys alone\<close>

text \<open>The ring of the keyboard and the line editor.\<close>

definition keys :: "'a console_scheme \<Rightarrow> (u32 \<Rightarrow> u8) \<times> u32 \<times> u32 \<times> u8 list \<times> u32" where
  "keys s = (keyboard_buffer s, buffer_head s, buffer_tail s, line_buffer s, line_length s)"

text \<open>The page tables and the frames.\<close>

definition tables :: "'a paging_scheme \<Rightarrow> (u32 \<Rightarrow> u32) \<times> (u32 \<Rightarrow> u32) \<times> (u32 \<Rightarrow> u32 \<Rightarrow> u32) \<times> (u32 \<Rightarrow> u32) \<times> u32" where
  "tables s = (page_directory s, page_tables s, table_mem s, bitmap s, total_frames s)"

text \<open>Both are parts of the state that no command but \<open>shutdown\<close> and \<open>reboot\<close>, which wait for interrupts, can change:
  what the heap and the file system keep, printing keeps, and so do the fields of the shell and the open files.\<close>

definition waits :: "cstr \<Rightarrow> bool" where
  "waits t \<longleftrightarrow> pieces 0x20 t \<noteq> [] \<and> hd (pieces 0x20 t) \<in> {lit ''shutdown'', lit ''reboot''}"

locale session_frame = fs_frame part
  for part :: "'a shell_scheme \<Rightarrow> 'b" +
  assumes part_more: "vga.more t = vga.more s \<Longrightarrow> part t = part s"
    and part_table [simp]: "part (s\<lparr>fd_table := tab\<rparr>) = part s"
    and part_shell [simp]: "part (s\<lparr>cwd := c\<rparr>) = part s" "part (s\<lparr>last_alloc := c\<rparr>) = part s" "part (s\<lparr>echo_buffer := b\<rparr>) = part s"
begin

lemma part_print [simp]: "part (vga_print m s) = part s"
  by (rule part_more) simp

lemma part_quiet: "quiet s t \<Longrightarrow> part t = part s"
  by (rule part_more) (simp add: quiet_def)

lemma set_fd_part [simp]: "part (set_fd fd f s) = part s" "part (sys_close fd s) = part s" "part (snd (sys_seek fd k s)) = part s"
  by (simp_all add: set_fd_def sys_close_def sys_seek_def)

lemma sys_part:
  "sys_open p s = Some (r, t) \<Longrightarrow> part t = part s"
  "sys_write fd b n s = Some (r, t) \<Longrightarrow> part t = part s"
  "sys_read fd b' n s = Some (r, d, t) \<Longrightarrow> part t = part s"
  by (auto simp: sys_open_def fd_alloc_def sys_write_def sys_read_def bind_Some_iff Let_def dest!: write_part
      split: if_splits prod.splits)

lemma write_words_part: "write_words fd ws s = Some t \<Longrightarrow> part t = part s"
  by (induction ws arbitrary: s) (auto simp: bind_Some_iff dest!: sys_part split: if_splits)

lemma create_file_part: "create_file d n m s = Some t \<Longrightarrow> part t = part s"
  by (auto simp: create_file_def bind_Some_iff dest!: create_part split: if_splits)

lemma list_part: "list_children x i k s = Some t \<Longrightarrow> part t = part s"
  by (induction k arbitrary: i s) (auto simp: bind_Some_iff)

lemma cmd_part:
  "cmd_cd argv s = Some t \<Longrightarrow> part t = part s"
  "cmd_mk argv s = Some t \<Longrightarrow> part t = part s"
  "cmd_mkr argv s = Some t \<Longrightarrow> part t = part s"
  "cmd_write argv s = Some t \<Longrightarrow> part t = part s"
  "cmd_rd argv s = Some t \<Longrightarrow> part t = part s"
  "cmd_echo argv s = Some t \<Longrightarrow> part t = part s"
  "cmd_ls argv s = Some t \<Longrightarrow> part t = part s"
  "cmd_alloc argv s = Some t \<Longrightarrow> part t = part s"
  "cmd_calc argv s = Some t \<Longrightarrow> part t = part s"
proof -
  show "cmd_cd argv s = Some t \<Longrightarrow> part t = part s" by (auto simp: cmd_cd_def bind_Some_iff split: if_splits)
  show "cmd_mk argv s = Some t \<Longrightarrow> part t = part s" by (auto simp: cmd_mk_def dest!: create_file_part split: if_splits)
  show "cmd_mkr argv s = Some t \<Longrightarrow> part t = part s"
    by (auto simp: cmd_mkr_def bind_Some_iff dest!: create_file_part split: if_splits)
  show "cmd_write argv s = Some t \<Longrightarrow> part t = part s"
    by (auto simp: cmd_write_def bind_Some_iff dest!: sys_part write_words_part split: if_splits)
  show "cmd_rd argv s = Some t \<Longrightarrow> part t = part s"
    by (auto simp: cmd_rd_def bind_Some_iff dest!: sys_part split: if_splits)
  have out: "\<exists>m m'. t = print_text m (vga_print m' s)" if "Option.bind x (\<lambda>buf. Option.bind (y buf) (\<lambda>text. Some (print_text m (vga_print text s)))) = Some t"
    for x :: "'c option" and y m using that by (auto simp: bind_Some_iff)
  show "part t = part s" if r: "cmd_calc argv s = Some t"
  proof (cases "length argv = 4")
    case True
    obtain a where a: "atoi (argv ! 1) = Some a" using r True by (cases "atoi (argv ! 1)") (simp_all add: cmd_calc_def)
    obtain b where b: "atoi (argv ! 3) = Some b" using r True a by (cases "atoi (argv ! 3)") (simp_all add: cmd_calc_def)
    obtain op where "(argv ! 2) 0 = Some op" using r True a b by (cases "(argv ! 2) 0") (simp_all add: cmd_calc_def)
    then show ?thesis using r True a b by (cases "op = 0x2F") (auto simp: cmd_calc_def Let_def dest!: out split: if_splits)
  qed (use r in \<open>simp add: cmd_calc_def, force\<close>)
  show "cmd_echo argv s = Some t \<Longrightarrow> part t = part s" by (auto simp: cmd_echo_def bind_Some_iff)
  show "cmd_ls argv s = Some t \<Longrightarrow> part t = part s"
    by (auto simp: cmd_ls_def ramfs_list_def bind_Some_iff dest!: list_part split: if_splits)
  show "cmd_alloc argv s = Some t \<Longrightarrow> part t = part s"
    by (auto simp: cmd_alloc_def bind_Some_iff part_quiet [OF quiet_print(3)] dest!: kmalloc_part split: if_splits)
qed

definition keeps_part :: "string \<times> 'a shell_scheme handler \<Rightarrow> bool" where
  "keeps_part c \<longleftrightarrow> (\<forall>argv ws s T t. call_ok argv ws s T \<longrightarrow> hd ws = lit (fst c) \<longrightarrow>
     hd ws \<notin> {lit ''shutdown'', lit ''reboot''} \<longrightarrow> snd c argv s = Some (Returns t) \<longrightarrow> part t = part s)"

lemma keeps_returns:
  assumes "\<And>argv s t. cmd argv s = Some t \<Longrightarrow> part t = part s"
  shows "keeps_part (n, returns cmd)"
  using assms by (auto simp: keeps_part_def returns_def)

lemma keeps_shows:
  assumes "\<And>argv ws s T. list_all2 holds argv ws \<Longrightarrow> argv \<noteq> [] \<Longrightarrow> [] \<notin> set ws \<Longrightarrow> shell_inv s T \<Longrightarrow> only_shows s (cmd argv s)"
  shows "keeps_part (n, returns cmd)"
  unfolding keeps_part_def
proof (intro allI impI)
  fix argv ws T t and s :: "'a shell_scheme"
  assume c: "call_ok argv ws s T" and r: "snd (n, returns cmd) argv s = Some (Returns t)"
  have "argv \<noteq> []" using c by (auto simp: call_ok_def)
  then have "only_shows s (cmd argv s)" using assms [of argv ws s T] c by (auto simp: call_ok_def)
  moreover have "cmd argv s = Some t" using r by (simp add: returns_def)
  ultimately show "part t = part s" by (auto simp: only_shows_def intro: part_quiet)
qed

lemma all_keep_part: "\<forall>c \<in> set (commands wake). keeps_part c"
proof -
  have unsafe: "keeps_part (''panic'', cmd_panic)" "keeps_part (''free'', returns cmd_free)" "keeps_part (''freelast'', returns cmd_freelast)"
    "keeps_part (''memdump'', returns cmd_memdump)" "keeps_part (''shutdown'', returns (cmd_shutdown wake))"
    "keeps_part (''reboot'', returns (cmd_reboot wake))"
    by (auto simp: keeps_part_def call_ok_def allowed_def cmd_panic_def debug_panic_def Let_def bind_Some_iff split: if_splits)
  show ?thesis
    unfolding commands_def
    by (simp add: unsafe keeps_returns [OF cmd_part(1)] keeps_returns [OF cmd_part(2)] keeps_returns [OF cmd_part(3)]
        keeps_returns [OF cmd_part(4)] keeps_returns [OF cmd_part(5)] keeps_returns [OF cmd_part(6)] keeps_returns [OF cmd_part(7)]
        keeps_returns [OF cmd_part(8)] keeps_returns [OF cmd_part(9)])
      (intro conjI keeps_shows heap_reports help_shows cur_shows inttoascii_shows asciitoint_shows reports_show; assumption)
qed

lemma line_part:
  assumes I: "shell_inv s T" and t: "safe_line t" "\<not> waits t" "holds input t" and room: "unat (heap_end s) + line_cost t < 0x800000"
    and r: "execute_command wake input s = Some (Returns u)"
  shows "part u = part s"
proof -
  from I t(1,3) room show ?thesis
  proof (cases rule: line_call [where wake = wake])
    case (prints v)
    then show ?thesis using r part_quiet by auto
  next
    case (calls argv ws n h)
    have "hd ws = hd (pieces 0x20 t)" using calls(2,3) by (cases "pieces 0x20 t") simp_all
    then have "hd ws \<notin> {lit ''shutdown'', lit ''reboot''}" using t(2) calls(3) by (simp add: waits_def)
    moreover have "keeps_part (n, h)" using all_keep_part calls(4) by blast
    ultimately show ?thesis using calls(1,5,6) r unfolding keeps_part_def by fastforce
  qed
qed

end

lemma part_updates [simp]:
  "keys (s\<lparr>ram := m\<rparr>) = keys (s :: 'a heap_scheme)" "keys (s\<lparr>heap_end := e\<rparr>) = keys (s :: 'a heap_scheme)"
  "keys (s\<lparr>heap_head := h\<rparr>) = keys (s :: 'a heap_scheme)" "keys (u\<lparr>cwd := c\<rparr>) = keys (u :: 'b shell_scheme)"
  "tables (s\<lparr>ram := m\<rparr>) = tables s" "tables (s\<lparr>heap_end := e\<rparr>) = tables s" "tables (s\<lparr>heap_head := h\<rparr>) = tables s"
  by (simp_all add: keys_def tables_def)

lemma keys_more: "vga.more t = vga.more s \<Longrightarrow> keys t = keys (s :: 'a console_scheme)"
  by (cases s; cases t) (simp add: keys_def)

lemma tables_more: "console.more t = console.more s \<Longrightarrow> tables t = tables (s :: 'a paging_scheme)"
  by (cases s; cases t) (simp add: tables_def)

lemma tables_backed:
  fixes s t :: "'a paging_scheme"
  assumes "tables t = tables s"
  shows "heap_backed t = heap_backed s" "frames_left t = frames_left s"
proof -
  have "same_memory s t" using assms by (simp add: tables_def same_memory_def)
  then show "heap_backed t = heap_backed s" "frames_left t = frames_left s" by (rule heap_backed_same, rule same_memory_frames)
qed

lemma keys_quiet: "quiet s t \<Longrightarrow> keys t = keys s"
  by (rule keys_more) (simp add: quiet_def)

interpretation unread: session_frame "keys :: 'a shell_scheme \<Rightarrow> _"
proof
  show "vga.more t = vga.more s \<Longrightarrow> keys t = keys s" for s t :: "'a shell_scheme" by (rule keys_more)
qed (simp_all add: keys_def)

interpretation paged: session_frame "tables :: 'a shell_scheme \<Rightarrow> _"
proof
  show "vga.more t = vga.more s \<Longrightarrow> tables t = tables s" for s t :: "'a shell_scheme"
    by (rule tables_more) (rule console_of_vga)
qed (simp_all add: tables_def)

lemma line_tables:
  fixes s :: "'a shell_scheme"
  assumes w: "device_wake wake" and I: "shell_inv s T" and t: "safe_line t" "holds input t"
    and room: "unat (heap_end s) + line_cost t < 0x800000" and r: "execute_command wake input s = Some (Returns u)"
  shows "tables u = tables s"
proof (cases "waits t")
  case False
  then show ?thesis using paged.line_part [OF I t(1) _ t(2) room r] by blast
next
  case True
  from I t room show ?thesis
  proof (cases rule: line_call [where wake = wake])
    case (prints v)
    then show ?thesis using r paged.part_quiet by auto
  next
    case (calls argv ws n h)
    have "hd ws = hd (pieces 0x20 t)" using calls(2,3) by (cases "pieces 0x20 t") simp_all
    then have "lit n = lit ''shutdown'' \<or> lit n = lit ''reboot''" using True calls(5) by (auto simp: waits_def)
    then have "h = returns (cmd_shutdown wake) \<or> h = returns (cmd_reboot wake)"
      using calls(4) by (auto simp: commands_def lit_simps)
    then have "console.more u = console.more s"
      using r calls(6) power_console [OF w, of argv s] by (auto simp: returns_def)
    then show ?thesis by (rule tables_more)
  qed
qed

interpretation waiting: trap_frame "keys :: 'a paging_scheme \<Rightarrow> _"
  by unfold_locales (simp_all add: keys_def)

section \<open>Keys as lines\<close>

text \<open>A safe line that neither waits for interrupts nor stops the machine.\<close>

definition patient :: "cstr \<Rightarrow> bool" where
  "patient t \<longleftrightarrow> safe_line t \<and> \<not> waits t \<and> take 1 (pieces 0x20 t) \<noteq> [lit ''panic'']"

text \<open>The lines that waiting keys complete, behind a line already begun.\<close>

fun typed_lines :: "cstr \<Rightarrow> cstr \<Rightarrow> cstr list" where
  "typed_lines l [] = []"
| "typed_lines l (c # cs) = (if c = 10 then l # typed_lines [] cs else typed_lines (edit c l) cs)"

text \<open>What is typed is all right: the ring and the line editor are well formed, and the lines the keys complete are safe and
  affordable.\<close>

definition typing_ok :: "'a shell_scheme \<Rightarrow> bool" where
  "typing_ok s \<longleftrightarrow> ring_ok s \<and> console_ok s \<and> (\<forall>l \<in> set (typed_lines (line s) (pending s)). patient l)
     \<and> unat (heap_end s) + sum_list (map line_cost (typed_lines (line s) (pending s))) < 0x800000"

lemma keys_fields:
  assumes "keys t = keys s"
  shows "ring_ok t = ring_ok s" "console_ok t = console_ok s" "line t = line s" "pending t = pending s"
    "line_buffer t = line_buffer s"
  using assms by (simp_all add: keys_def ring_ok_def console_ok_def line_def pending_def ring_count_def)

lemma typing_frame: "keys t = keys s \<Longrightarrow> heap_end t = heap_end s \<Longrightarrow> typing_ok t \<longleftrightarrow> typing_ok s"
  using keys_fields [of t s] by (simp add: typing_ok_def)

lemma typing_quiet:
  fixes s t :: "'a shell_scheme"
  assumes "typing_ok s" and "vga.more t = vga.more s"
  shows "typing_ok t"
  using assms(1) keys_fields [OF keys_more [OF assms(2)]] shell_fields(4) [OF console_of_vga [OF assms(2)]]
  by (simp add: typing_ok_def)

lemma clear_line_fields:
  fixes s :: "'a shell_scheme"
  assumes "length (line_buffer s) = 256"
  shows "console_ok (console_clear_line s)" "line (console_clear_line s) = []" "pending (console_clear_line s) = pending s"
    "ring_ok (console_clear_line s) = ring_ok s" "console.more (console_clear_line s) = console.more s"
  using console_cleared [OF assms] by (simp_all add: pending_def ring_ok_def ring_count_def)

lemma quiet_prompt: "quiet s (shell_prompt s)"
  by (simp add: shell_prompt_def) (intro conjI impI quiet_all)

text \<open>One line: its keys are used up, the editor is empty again, and what is still to come is as it was.\<close>

lemma shell_line_typed:
  fixes s :: "'a shell_scheme"
  assumes w: "device_wake wake" and I: "shell_inv s T" and c: "ring_ok s" "console_ok s" and l: "patient (line s)"
    and room: "unat (heap_end s) + line_cost (line s) < 0x800000"
  obtains t T' where "shell_line wake s = Some (Returns t)" "shell_inv t T'" "ring_ok t" "console_ok t" "line t = []" "pending t = pending s"
      "unat (heap_end t) \<le> unat (heap_end s) + line_cost (line s)" "tables t = tables s"
proof -
  let ?u = "vga_putchar 10 s"
  have q: "quiet s ?u" by (rule quiet_print)
  have safe: "safe_line (line s)" and nw: "\<not> waits (line s)" using l by (simp_all add: patient_def)
  then have nul: "0 \<notin> set (line s)" by (simp add: safe_line_def)
  have "0 \<in> set (console_get_line s)"
  proof -
    have "length (line_buffer s) = 256" "line_buffer s ! 255 = 0" using c(2) by (simp_all add: console_ok_def)
    then show ?thesis using nth_mem [of 255 "line_buffer s"] by (simp add: console_get_line_def)
  qed
  then have h: "holds (buf_at (console_get_line s) 0) (line s)"
    using holds_buf [of 0 "console_get_line s"] console_line_string [OF c(2) nul] by simp
  have u: "shell_inv ?u T" "unat (heap_end ?u) + line_cost (line s) < 0x800000"
    using I room shell_inv_cong [OF quiet_console [OF q]] shell_fields(4) [OF quiet_console [OF q]] by simp_all
  have "line_ends (line_cost (line s)) ?u (execute_command wake (buf_at (console_get_line s) 0) ?u)"
    by (rule line_sound [OF w u(1) safe h u(2)])
  then obtain out where r: "execute_command wake (buf_at (console_get_line s) 0) ?u = Some out"
    "\<And>v. out = Returns v \<Longrightarrow> (\<exists>T. shell_inv v T) \<and> unat (heap_end v) \<le> unat (heap_end ?u) + line_cost (line s)"
    by (auto simp: line_ends_def)
  show ?thesis
  proof (cases out)
    case (Halts v)
    have "take 1 (pieces 0x20 (line s)) = [lit ''panic'']" by (rule line_halts [OF safe h]) (rule r(1) [unfolded Halts])
    then show ?thesis using l unfolding patient_def by blast
  next
    case (Returns v)
    obtain T' where v: "shell_inv v T'" "unat (heap_end v) \<le> unat (heap_end ?u) + line_cost (line s)" using r(2) [OF Returns] by blast
    have k: "keys v = keys s"
      using unread.line_part [OF u(1) safe nw h u(2) r(1) [unfolded Returns]] keys_quiet [OF q] by simp
    have b: "length (line_buffer v) = 256" using c(2) keys_fields(5) [OF k] by (simp add: console_ok_def)
    let ?t = "shell_prompt (console_clear_line v)"
    note f = clear_line_fields [OF b]
    note p = keys_fields [OF keys_quiet [OF quiet_prompt [of "console_clear_line v"]]]
    have m: "console.more ?t = console.more v" using quiet_console [OF quiet_prompt [of "console_clear_line v"]] f(5) by simp
    show ?thesis
    proof (rule that)
      show "shell_line wake s = Some (Returns ?t)" using r(1) Returns by (simp add: shell_line_def)
      show "shell_inv ?t T'" using v(1) shell_inv_cong [OF m] by simp
      show "ring_ok ?t" "console_ok ?t" "line ?t = []" "pending ?t = pending s"
        using p f keys_fields [OF k] c(1) by simp_all
      show "unat (heap_end ?t) \<le> unat (heap_end s) + line_cost (line s)"
        using v(2) shell_fields(4) [OF m] shell_fields(4) [OF quiet_console [OF q]] by simp
      show "tables ?t = tables s"
        using tables_more [OF m] paged.line_part [OF u(1) safe nw h u(2) r(1) [unfolded Returns]] paged.part_quiet [OF q] by simp
    qed
  qed
qed

text \<open>All keys that wait: the shell returns with none left.\<close>

lemma shell_update_sound:
  fixes s :: "'a shell_scheme"
  assumes w: "device_wake wake" and "shell_inv s T" and "typing_ok s"
  shows "\<exists>t T'. shell_update wake s = Some (Returns t) \<and> shell_inv t T' \<and> typing_ok t \<and> pending t = [] \<and> tables t = tables s"
  using assms(2,3)
proof (induction "length (pending s)" arbitrary: s T rule: less_induct)
  case less
  have ok: "ring_ok s" "console_ok s" using less.prems(2) by (simp_all add: typing_ok_def)
  show ?case
  proof (cases "pending s")
    case Nil
    then have "shell_update wake s = Some (Returns s)"
      using has_input_pending [OF ok(1)] by (subst shell_update.simps) simp
    then show ?thesis using less.prems Nil by auto
  next
    case (Cons c rest)
    show ?thesis
    proof (cases "c = 10")
      case False
      obtain t where t: "shell_update wake s = shell_update wake t" "ring_ok t" "console_ok t" "pending t = rest"
        "line t = edit c (line s)" "console.more t = console.more s"
        using shell_update_chars [OF ok, of "[c]" rest wake] Cons False by auto
      have "shell_inv t T" using less.prems(1) shell_inv_cong [OF t(6)] by simp
      moreover have "typing_ok t"
        using less.prems(2) Cons False t(2-5) shell_fields(4) [OF t(6)] by (simp add: typing_ok_def)
      moreover have "length (pending t) < length (pending s)" using Cons t(4) by (simp del: length_pending)
      ultimately show ?thesis using less.hyps [of t T] t(1) tables_more [OF t(6)] by simp
    next
      case True
      let ?g = "snd (keyboard_getchar s)"
      have g: "pending ?g = rest" "ring_ok ?g" "console_ok ?g" "line ?g = line s" "console.more ?g = console.more s"
        using getchar_pending [OF ok(1)] Cons getchar_console [of s] ok(2) by (simp_all add: console_ok_def line_def)
      have p: "pending s = 10 # rest" using Cons True by simp
      have pat: "patient (line s)" and ty: "\<forall>l \<in> set (typed_lines [] rest). patient l"
        and room: "unat (heap_end s) + line_cost (line s) + sum_list (map line_cost (typed_lines [] rest)) < 0x800000"
        using less.prems(2) p by (simp_all add: typing_ok_def add.assoc)
      have I: "shell_inv ?g T" using less.prems(1) shell_inv_cong [OF g(5)] by simp
      have he: "heap_end ?g = heap_end s" by (rule shell_fields(4) [OF g(5)])
      have rg: "patient (line ?g)" "unat (heap_end ?g) + line_cost (line ?g) < 0x800000" using pat room g(4) he by simp_all
      obtain t T' where t: "shell_line wake ?g = Some (Returns t)" "shell_inv t T'" "ring_ok t" "console_ok t" "line t = []"
        "pending t = pending ?g" "unat (heap_end t) \<le> unat (heap_end ?g) + line_cost (line ?g)" "tables t = tables ?g"
        by (rule shell_line_typed [OF w I g(2,3) rg])
      have "typing_ok t" using t(3-7) ty room g(1,4) he by (simp add: typing_ok_def)
      moreover have "length (pending t) < length (pending s)" using t(6) g(1) p by (simp del: length_pending)
      ultimately obtain u T'' where "shell_update wake t = Some (Returns u)" "shell_inv u T''" "typing_ok u" "pending u = []" "tables u = tables t"
        using less.hyps [of t T'] t(2) by blast
      then show ?thesis using shell_update_enter(1) [OF ok(1) p, of wake] t(1,8) tables_more [OF g(5)] by (intro exI [of _ u] exI [of _ T'']) simp
    qed
  qed
qed

section \<open>The kernel between two steps\<close>

text \<open>The invariant: files, mounts, heap and descriptors, keys and line editor, the pages behind the heap, and a frame for
  every page of it still to come.\<close>

definition kernel_ok :: "'a shell_scheme \<Rightarrow> bool" where
  "kernel_ok s \<longleftrightarrow> (\<exists>T. shell_inv s T) \<and> typing_ok s \<and> heap_backed s \<and> frames_left s"

lemma wake_ok:
  fixes s :: "'a shell_scheme"
  assumes "device_wake wake" and "kernel_ok s" and "typing_ok (wake s)"
  shows "kernel_ok (wake s)"
proof -
  have "calm s (wake s)" using assms(1) by (simp add: device_wake_def calm_def)
  then have "console.more (wake s) = console.more s" by (rule calm_machine(2))
  note shell_inv_cong [OF this] tables_backed [OF tables_more [OF this]]
  then show ?thesis using assms(2,3) by (simp add: kernel_ok_def)
qed

lemma touch_ok:
  fixes s :: "'a shell_scheme"
  assumes "kernel_ok s" and "\<forall>a \<in> set fs. heap_address (snd a)"
  shows "\<exists>t. page_in fs s = Some (Returns t) \<and> kernel_ok t"
proof -
  obtain t where t: "page_in fs s = Some (Returns t)" "heap_backed t" "frames_left t"
    using page_in_served [of s fs] assms by (auto simp: kernel_ok_def)
  note h = shell_inv_holdings [OF held.page_in_part [OF t(1)]]
  have "typing_ok t" using typing_frame [OF waiting.page_in_part [OF t(1)] h(2)] assms(1) by (simp add: kernel_ok_def)
  then show ?thesis using t h(1) assms(1) by (auto simp: kernel_ok_def)
qed

lemma update_ok:
  fixes s :: "'a shell_scheme"
  assumes w: "device_wake wake" and ok: "kernel_ok s"
  shows "\<exists>t. shell_update wake s = Some (Returns t) \<and> kernel_ok t \<and> \<not> keyboard_has_input t"
proof -
  obtain T where s: "shell_inv s T" "typing_ok s" "heap_backed s" "frames_left s" using ok by (auto simp: kernel_ok_def)
  obtain t T' where t: "shell_update wake s = Some (Returns t)" "shell_inv t T'" "typing_ok t" "pending t = []" "tables t = tables s"
    using shell_update_sound [OF w s(1,2)] by blast
  have "\<not> keyboard_has_input t" using has_input_pending [of t] t(3,4) by (simp add: typing_ok_def)
  moreover have "kernel_ok t" using t(2,3) s(3,4) tables_backed [OF t(5)] by (auto simp: kernel_ok_def)
  ultimately show ?thesis using t(1) by blast
qed

lemma kernel_loop_sound:
  fixes s :: "'a shell_scheme"
  assumes w: "device_wake wake" and ty: "\<And>u. typing_ok u \<Longrightarrow> typing_ok (wake u)"
    and tch: "\<And>u. \<forall>a \<in> set (touches u). heap_address (snd a)" and "kernel_ok s"
  shows "\<exists>t. kernel_loop wake touches n s = Some (Returns t) \<and> kernel_ok t"
  using assms(4)
proof (induction n arbitrary: s)
  case (Suc n)
  obtain u where u: "page_in (touches s) s = Some (Returns u)" "kernel_ok u" using touch_ok [OF Suc.prems tch] by blast
  obtain v where v: "shell_update wake u = Some (Returns v)" "kernel_ok v" using update_ok [OF w u(2)] by blast
  have "kernel_ok (wake v)" by (rule wake_ok [OF w v(2) ty]) (use v(2) in \<open>simp add: kernel_ok_def\<close>)
  then show ?case using Suc.IH u(1) v(1) by simp
qed simp

end
