(* ===== verification/KernelSafe.thy ===== *)
theory KernelSafe
  imports Typing
begin

text \<open>
  \<open>kernel_main\<close> from the boot loader on: the boot sequence hands the shell an empty line editor and the keys typed
  meanwhile, and from there the kernel runs for any number of rounds.
\<close>

lemma returns_case:
  "(case x of Returns s \<Rightarrow> f s | Halts s \<Rightarrow> Some (Halts s)) = Some (Returns t) \<longleftrightarrow> (\<exists>s. x = Returns s \<and> f s = Some (Returns t))"
  by (cases x) simp_all

section \<open>The boot sequence and the keys\<close>

lemma keys_desc [simp]:
  fixes s :: "'a descriptors_scheme"
  shows "keys (s\<lparr>regs := r\<rparr>) = keys s" "keys (s\<lparr>bitmap := b\<rparr>) = keys s" "keys (s\<lparr>total_frames := n\<rparr>) = keys s"
    "keys (s\<lparr>page_directory := p\<rparr>) = keys s" "keys (s\<lparr>page_tables := q\<rparr>) = keys s" "keys (s\<lparr>table_mem := m\<rparr>) = keys s"
    "keys (s\<lparr>gdt := g\<rparr>) = keys s" "keys (s\<lparr>idt := i\<rparr>) = keys s" "keys (s\<lparr>heap_start := h\<rparr>) = keys s"
  by (simp_all add: keys_def)

lemma keys_status [simp]: "keys (status_begin m s) = keys s" "keys (status_end_ok s) = keys s"
  by (rule keys_more [OF vga_more_status(1)], rule keys_more [OF vga_more_status(2)])

lemma keys_for: "(\<And>i u. keys (f i u) = keys u) \<Longrightarrow> keys (for_upto n f s) = keys s"
  by (rule for_upto_cong_result) simp

lemma processor_keys [simp]:
  fixes s :: "'a descriptors_scheme"
  shows "keys (gdt_init a s) = keys s" "keys (tss_init a s) = keys s" "keys (idt_init a f g s) = keys s"
    "keys (pic_remap s) = keys s" "keys (sti s) = keys s" "keys (heap_init s) = keys s"
proof -
  show "keys (gdt_init a s) = keys s" "keys (tss_init a s) = keys s"
    by (simp_all add: gdt_init_def tss_init_def gdt_set_entry_def gdt_flush_def tss_flush_def Let_def keys_def)
  have "keys (for_upto n (\<lambda>i. idt_set_gate (h i) (k i)) u) = keys u" "keys (for_upto n (\<lambda>i s. s\<lparr>idt := (idt s)(i := e)\<rparr>) u) = keys u"
    for n h k e and u :: "'a descriptors_scheme"
    by (rule keys_for, simp add: idt_set_gate_def)+
  then show "keys (idt_init a f g s) = keys s" by (simp add: idt_init_def idt_load_def Let_def keys_def)
  show "keys (pic_remap s) = keys s" by (rule keys_quiet) (rule quiet_ports)
  show "keys (sti s) = keys s" "keys (heap_init s) = keys s" by (simp_all add: sti_def heap_init_def keys_def)
qed

lemma paging_keys [simp]: "keys (paging_init pd s) = keys (s :: 'a descriptors_scheme)"
proof -
  define s0 where "s0 = for_upto 1024 (\<lambda>i s. s\<lparr>page_directory := (page_directory s)(of_nat i := 0),
                                 page_tables := (page_tables s)(of_nat i := 0)\<rparr>) s"
  obtain p s1 where p: "pmm_alloc_frame s0 = (p, s1)" by fastforce
  have "keys s1 = keys s0" using p by (auto simp: pmm_alloc_frame_def Let_def set_frame_def split: if_splits)
  moreover have "keys s0 = keys s" unfolding s0_def by (rule keys_for) simp
  moreover have "keys (for_upto n (\<lambda>i. table_set p (a i) (b i)) t) = keys t" for n a b and t :: "'a descriptors_scheme"
    by (rule keys_for) (simp add: table_set_def)
  ultimately show ?thesis
    unfolding paging_init_def s0_def [symmetric] by (simp add: p Let_def enable_paging_def load_page_directory_def)
qed

lemma pit_keys: "pit_init n s = Some t \<Longrightarrow> keys t = keys (s :: 'a descriptors_scheme)"
  using pit_quiet [of n s] by (cases "n = 0") (auto simp: pit_init_def intro: keys_quiet)

lemma boot_machine_keys: "boot_machine im s = Some t \<Longrightarrow> keys t = keys s"
  by (auto simp: boot_machine_def boot_step_def bind_Some_iff dest!: pit_keys)

lemma filesystems_keys:
  fixes s :: "'a shell_scheme"
  assumes "boot_filesystems s = Some t"
  shows "keys t = keys s"
proof -
  have f: "keys (u\<lparr>vfs_root := r\<rparr>) = keys u" "keys (u\<lparr>mounts := ms\<rparr>) = keys u" "keys (u\<lparr>mount_count := c\<rparr>) = keys u"
    "keys (ramfs_init_ops u) = keys u" for u :: "'a shell_scheme" and r ms c
    by (simp_all add: keys_def ramfs_init_ops_def)
  have m: "keys v = keys u" if "vfs_mount path r u = Some v" for path r and u v :: "'a shell_scheme"
    using that by (auto simp: vfs_mount_def bind_Some_iff f split: if_splits)
  show ?thesis
    using assms by (auto simp: boot_filesystems_def ramfs_create_instance_def bind_Some_iff f
        dest!: unread.new_root_part unread.create_part m split: if_splits)
qed

text \<open>After the file stage the line editor is empty, and the ring is as it was.\<close>

lemma console_init_cleared: "length (line_buffer s) = 256 \<Longrightarrow> console_init s = console_clear_line s"
  by (simp add: console_init_def console_clear_line_def clear_loop)

lemma boot_files_keys:
  fixes s :: "'a shell_scheme"
  assumes "boot_files im s = Some (Returns t)" and "length (line_buffer s) = 256"
  shows "ring_ok t = ring_ok s" "pending t = pending s" "console_ok t" "line t = []"
proof -
  have e: "fd_init u = u\<lparr>fd_table := map (\<lambda>d. d\<lparr>fd_used := False\<rparr>) (fd_table u)\<rparr>" for u :: "'a shell_scheme"
    by (simp add: fd_init_def)
  define s1 where "s1 = status_begin (lit ''Initializing Root Filesystem'')
    (boot_step ''Initializing FD'' fd_init (boot_step ''Initializing VFS'' vfs_init s))"
  have s1: "keys s1 = keys s" by (simp add: s1_def boot_step_def vfs_init_def e)
  obtain u v where p: "page_in [(im_touch im, heap_start s1)] s1 = Some (Returns u)" and v: "boot_filesystems u = Some v"
    "t = boot_step ''Initializing Keyboard'' keyboard_init (boot_step ''Initializing Console'' console_init v)"
    using assms(1) by (auto simp only: boot_files_def s1_def [symmetric] Option.bind.simps bind_Some_iff returns_case option.inject outcome.inject)
  let ?v = "status_begin (lit ''Initializing Console'') v"
  have k: "keys ?v = keys s" using filesystems_keys [OF v(1)] waiting.page_in_part [OF p] s1 by simp
  have b: "length (line_buffer ?v) = 256" using keys_fields(5) [OF k] assms(2) by simp
  have t: "keys t = keys (console_clear_line ?v)"
    unfolding v(2) boot_step_def keyboard_init_def console_init_cleared [OF b] by simp
  show "ring_ok t = ring_ok s" "pending t = pending s" "console_ok t" "line t = []"
    using keys_fields [OF t] clear_line_fields [OF b] keys_fields [OF k] by simp_all
qed

section \<open>The pauses\<close>

text \<open>What the screen and the halts keep, the pauses keep.\<close>

lemma sleep_keeps:
  assumes "steps_clock wake" and "\<And>u. P u \<Longrightarrow> P (wake u)" and "P s" and "sleep wake ms s = Some t"
  shows "P t"
proof -
  have "P ((wake ^^ n) s)" for n using assms(2,3) by (induction n) simp_all
  then show ?thesis
    using sleep_until_ends [OF assms(1), of s "ticks s" "unat (ms div 10)" "ms div 10"] assms(4) by (auto simp: sleep_def)
qed

lemma boot_show_keeps:
  fixes s :: "'a shell_scheme"
  assumes w: "steps_clock wake" "\<And>u. P u \<Longrightarrow> P (wake u)" and q: "\<And>u v. quiet u v \<Longrightarrow> P u \<Longrightarrow> P v"
    and "P s" and "boot_show wake s = Some t"
  shows "P t"
proof -
  have sl: "P v" if "P u" "sleep wake ms u = Some v" for u v ms by (rule sleep_keeps [where P = P and wake = wake]) (fact w that)+
  have dots: "P v" if "P u" "loading_dots wake d n u = Some v" for d n u v
    using that
  proof (induction n arbitrary: u)
    case (Suc n)
    then obtain z where "sleep wake d (print_text ''.'' u) = Some z" "loading_dots wake d n z = Some v"
      by (auto simp: bind_Some_iff)
    then show ?case using Suc.IH sl [OF q [OF quiet_print(1) Suc.prems(1)]] by blast
  qed simp
  obtain u v x where u: "status_loading_animation wake 823 (status_begin (lit ''Booting system'') s) = Some u"
    "sleep wake 1700 (status_end_ok u) = Some v" "sleep wake 2200 (boot_screen (vga_clear v)) = Some x"
    "t = vga_print_color boot_logo BOOT_LOGO_COLOR (vga_enable_cursor 14 15 (vga_clear x))"
    using assms(5) by (auto simp: boot_show_def bind_Some_iff)
  have "P u" using u(1) dots [OF q [OF quiet_status(1) assms(4)]] q [OF quiet_status(1) assms(4)]
    by (auto simp: status_loading_animation_def Let_def split: if_splits)
  then have "P v" using sl [OF q [OF quiet_status(2)]] u(2) by blast
  then have "P x" using sl [OF q [OF quiet_trans [OF quiet_print(5) quiet_screen]]] u(3) by blast
  then show ?thesis
    unfolding u(4) by (rule q [rotated]) (rule quiet_trans [OF quiet_print(5) quiet_trans [OF quiet_cursor(2) quiet_print_color]])
qed

section \<open>The whole boot sequence\<close>

lemma frames_keys: "only_frames s t \<Longrightarrow> keys t = keys (s :: 'a descriptors_scheme)"
  by (auto simp: only_frames_def)

lemma typing_fresh: "ring_ok s \<Longrightarrow> console_ok s \<Longrightarrow> pending s = [] \<Longrightarrow> unat (heap_end s) < 0x800000 \<Longrightarrow> typing_ok s"
  by (simp add: typing_ok_def del: length_pending)

lemma kernel_boot_typing:
  fixes s :: "'a shell_scheme"
  assumes mb: "loader_map mb rs (ram s)" and w: "device_wake wake" "\<And>u. typing_ok u \<Longrightarrow> typing_ok (wake u)"
    and k: "ring_ok s" "pending s = []" "length (line_buffer s) = 256"
    and r: "kernel_boot im wake mb s = Some (Returns t)" and h: "unat (heap_end t) < 0x800000"
  shows "typing_ok t"
proof -
  have mb': "loader_map mb rs (ram (vga_clear s))" using mb unfolding quiet_fields(8) [OF quiet_print(5)] .
  obtain s1 where s1: "multiboot_print_memory mb (vga_clear s) = Some s1" "quiet (vga_clear s) s1"
    by (rule print_memory_quiet [OF mb'])
  let ?b = "status_begin (lit ''Initializing PMM'') s1"
  have q: "quiet s ?b" by (rule quiet_trans [OF quiet_print(5) quiet_trans [OF s1(2) quiet_status(1)]])
  obtain s2 s3 s4 where c: "pmm_init (im_kernel_start im) (im_kernel_end im) mb ?b = Some (0, s2)"
    "boot_machine im (status_end_ok s2) = Some s3" "boot_files im s3 = Some (Returns s4)" "boot_show wake s4 = Some t"
    using r by (auto simp: kernel_boot_def s1(1) bind_Some_iff returns_case debug_panic_def split: if_splits prod.splits)
  have map: "mmap_is (ram ?b) (get32 (ram ?b) (mb + 48) + get32 (ram ?b) (mb + 44)) (get32 (ram ?b) (mb + 48)) rs"
    using mb unfolding quiet_fields(8) [OF q] loader_map_def by simp
  have e: "keys s3 = keys s"
    using boot_machine_keys [OF c(2)] frames_keys [OF pmm_init_shape [OF c(1) map]] keys_quiet [OF q] by simp
  have b: "length (line_buffer s3) = 256" using keys_fields(5) [OF e] k(3) by simp
  obtain t' where t': "boot_show wake s4 = Some t'" "calm s4 t'" by (rule boot_show_calm [OF w(1)])
  have "heap_end s4 = heap_end t" using shell_fields(4) [OF calm_machine(2) [OF t'(2)]] t'(1) c(4) by simp
  then have "typing_ok s4"
    using boot_files_keys [OF c(3) b] keys_fields [OF e] k(1,2) h by (intro typing_fresh) simp_all
  moreover have "steps_clock wake" using w(1) by (simp add: device_wake_def)
  ultimately show ?thesis
    using boot_show_keeps [where P = typing_ok, OF _ w(2) _ _ c(4)] typing_quiet unfolding quiet_def by blast
qed

section \<open>Sessions\<close>

text \<open>A step of a session: the first touches of heap pages, then a line.\<close>

type_synonym 's step = "('s \<Rightarrow> 's) \<times> (registers_t \<times> u32) list \<times> cstr"

definition line_step :: "('a shell_scheme) step \<Rightarrow> 'a shell_scheme \<Rightarrow> 'a shell_scheme outcome option" where
  "line_step c s = (case c of (wake, touches, text) \<Rightarrow> do {
     touched \<leftarrow> page_in touches s;
     case touched of Returns s \<Rightarrow> execute_command wake (str_at text) s | Halts s \<Rightarrow> Some (Halts s) })"

fun safe_step :: "('a shell_scheme) step \<Rightarrow> bool" where
  "safe_step (wake, touches, text) \<longleftrightarrow> device_wake wake \<and> (\<forall>a \<in> set touches. heap_address (snd a)) \<and> safe_line text"

fun step_cost :: "'s step \<Rightarrow> nat" where
  "step_cost (wake, touches, text) = line_cost text"

definition session_ok :: "'a shell_scheme \<Rightarrow> bool" where
  "session_ok s \<longleftrightarrow> (\<exists>T. shell_inv s T) \<and> heap_backed s \<and> frames_left s"

lemma step_runs:
  fixes s :: "'a shell_scheme"
  assumes I: "session_ok s" and c: "safe_step c" and room: "unat (heap_end s) + step_cost c < 0x800000"
  shows "\<exists>r. line_step c s = Some r \<and> (\<forall>t. r = Returns t \<longrightarrow> session_ok t \<and> unat (heap_end t) \<le> unat (heap_end s) + step_cost c)"
    and "line_step c s = Some (Halts v) \<Longrightarrow> take 1 (pieces 0x20 (snd (snd c))) = [lit ''panic'']"
proof -
  obtain wake fs l where cc: "c = (wake, fs, l)" by (cases c)
  obtain T where T: "shell_inv s T" "heap_backed s" "frames_left s" using I by (auto simp: session_ok_def)
  have w: "device_wake wake" "safe_line l" "\<forall>a \<in> set fs. heap_address (snd a)" using c by (simp_all add: cc)
  have h: "holds (str_at l) l" using w(2) by (simp add: safe_line_def)
  obtain u where u: "page_in fs s = Some (Returns u)" "heap_backed u" "frames_left u" using page_in_served [OF T(2,3) w(3)] by blast
  note hu = shell_inv_holdings [OF held.page_in_part [OF u(1)]]
  have U: "shell_inv u T" "unat (heap_end u) + line_cost l < 0x800000" using T(1) hu room by (simp_all add: cc)
  have e: "line_step c s = execute_command wake (str_at l) u" by (simp add: line_step_def cc u(1))
  obtain r where r: "execute_command wake (str_at l) u = Some r"
    "\<And>t. r = Returns t \<Longrightarrow> (\<exists>T. shell_inv t T) \<and> unat (heap_end t) \<le> unat (heap_end u) + line_cost l"
    using line_sound [OF w(1) U(1) w(2) h U(2)] by (auto simp: line_ends_def)
  have "session_ok t \<and> unat (heap_end t) \<le> unat (heap_end s) + line_cost l" if "r = Returns t" for t
  proof -
    have "tables t = tables u" by (rule line_tables [OF w(1) U(1) w(2) h U(2)]) (use r(1) that in simp)
    then show ?thesis using r(2) [OF that] tables_backed [of t u] u(2,3) hu(2) by (simp add: session_ok_def)
  qed
  then show "\<exists>r. line_step c s = Some r \<and> (\<forall>t. r = Returns t \<longrightarrow> session_ok t \<and> unat (heap_end t) \<le> unat (heap_end s) + step_cost c)"
    using r(1) e by (simp add: cc)
  show "take 1 (pieces 0x20 (snd (snd c))) = [lit ''panic'']" if "line_step c s = Some (Halts v)"
    using line_halts [OF w(2) h] that unfolding e by (simp add: cc)
qed

interpretation lines: sound_steps line_step session_ok safe_step step_cost "\<lambda>s. unat (heap_end s)" "0x800000"
  by unfold_locales (rule step_runs(1))

lemma run_halts:
  fixes s :: "'a shell_scheme"
  assumes "session_ok s" and "\<forall>c \<in> set cs. safe_step c" and "unat (heap_end s) + sum_list (map step_cost cs) < 0x800000"
    and "run_all line_step cs s = Some (Halts v)"
  shows "\<exists>c \<in> set cs. take 1 (pieces 0x20 (snd (snd c))) = [lit ''panic'']"
  using assms
proof (induction cs arbitrary: s)
  case (Cons c cs)
  have c: "safe_step c" "unat (heap_end s) + step_cost c < 0x800000" using Cons.prems(2,3) by simp_all
  note st = step_runs [OF Cons.prems(1) c]
  obtain r where r: "line_step c s = Some r"
    "\<And>t. r = Returns t \<Longrightarrow> session_ok t \<and> unat (heap_end t) \<le> unat (heap_end s) + step_cost c" using st(1) by blast
  show ?case
  proof (cases r)
    case (Returns t)
    then show ?thesis using Cons.IH [of t] r Cons.prems(2-4) by fastforce
  next
    case (Halts t)
    then show ?thesis using st(2) r(1) by simp
  qed
qed simp

text \<open>The state of the shell after the boot sequence.\<close>

lemma shell_init_parts:
  fixes t :: "'a shell_scheme"
  shows "keys (shell_init t) = keys t" "tables (shell_init t) = tables t"
proof -
  have "quiet (t\<lparr>cwd := vfs_root t\<rparr>) (shell_init t)"
    by (simp add: shell_init_def shell_prompt_def) (intro conjI impI quiet_all)
  then show "keys (shell_init t) = keys t" "tables (shell_init t) = tables t"
    using unread.part_quiet paged.part_quiet by fastforce+
qed

lemma shell_booted:
  fixes s :: "'a shell_scheme"
  assumes mb: "loader_map mb rs (ram s)"
    and fr: "3 \<le> card {g \<in> kernel_frames im rs. g < 0x400}" "1026 \<le> card (kernel_frames im rs)" "0 \<notin> kernel_frames im rs"
    and zero: "fresh_tables s" "heap_head s = 0" "\<not> ramfs_initialized s" "mount_count s = 0" "length (fd_table s) = MAX_FDS"
    and w: "device_wake wake" and e: "length (echo_buffer s) = 1024"
  obtains t T where "kernel_boot im wake mb s = Some (Returns t)" "shell_inv (shell_init t) T"
    "heap_end (shell_init t) = heap_end t" "unat (heap_end t) \<le> 0x400000 + 2976" "heap_backed (shell_init t)" "frames_left (shell_init t)"
proof -
  obtain t where t: "kernel_boot im wake mb s = Some (Returns t)" "files_ready t" "fd.more t = fd.more s"
    "unat (heap_end t) \<le> 0x400000 + 2976" "heap_backed t" "frame_used t 0" "reachable_table (page_tables t 1)"
    "card (absent t) \<le> 1023" "card (available t) + 3 = card (kernel_frames im rs)"
    using kernel_boot_state [OF mb fr(1,3) zero w] by blast
  have "frames_left t" using t(6-9) fr(2) by (simp add: frames_left_def)
  note b = tables_backed [OF shell_init_parts(2), of t] this t(5)
  have e': "length (echo_buffer t) = 1024" using t(3) e by (cases s; cases t) simp
  obtain T where "shell_inv (shell_init t) T" "heap_end (shell_init t) = heap_end t" by (rule shell_init_inv [OF t(2) e'])
  then show ?thesis using that [OF t(1)] t(4) b by blast
qed

text \<open>C2: whatever lines are typed at the shell in a well-formed state, known commands or not, with any arguments, as long as
  they leave out \<open>free\<close>, \<open>freelast\<close> and \<open>memdump\<close> and the \<open>calc\<close> whose quotient overflows, and fit the buffers, and the
  heap has room for the files and blocks they make, and whatever heap pages they touch first, with a frame left for each:
  no command faults or loops, and after the last one the file tree, the mounts, the heap and the descriptors are well
  formed again, and there is still a frame for every page of the heap to come. The session ends early only at a \<open>panic\<close>.\<close>

theorem shell_session_safe:
  fixes s :: "'a shell_scheme"
  assumes "shell_inv s T" and "heap_backed s" and "frames_left s" and "\<forall>c \<in> set cs. safe_step c"
    and "unat (heap_end s) + sum_list (map step_cost cs) < 0x800000"
  shows "(\<exists>t T'. run_all line_step cs s = Some (Returns t) \<and> shell_inv t T' \<and> heap_backed t \<and> frames_left t
        \<and> unat (heap_end t) \<le> unat (heap_end s) + sum_list (map step_cost cs))
    \<or> (\<exists>t. run_all line_step cs s = Some (Halts t) \<and> (\<exists>c \<in> set cs. take 1 (pieces 0x20 (snd (snd c))) = [lit ''panic'']))"
proof -
  have I: "session_ok s" using assms(1-3) by (auto simp: session_ok_def)
  obtain r where r: "run_all line_step cs s = Some r"
    "\<And>t. r = Returns t \<Longrightarrow> session_ok t \<and> unat (heap_end t) \<le> unat (heap_end s) + sum_list (map step_cost cs)"
    using lines.run_sound [OF I assms(4,5)] by blast
  show ?thesis
  proof (cases r)
    case (Returns t)
    then show ?thesis using r unfolding session_ok_def by blast
  next
    case (Halts t)
    then show ?thesis using run_halts [OF I assms(4,5)] r(1) by blast
  qed
qed

lemma loaded_echo: "length (echo_buffer loaded) = 1024" "ring_ok loaded" "pending loaded = []" "length (line_buffer loaded) = 256"
  by (simp_all add: loaded_def empty_disk_def boot_tables_def descriptors.defs heap.defs fs.defs fd.defs shell.defs power_on_def
      ring_ok_def pending_def ring_count_def)

text \<open>A file made, written, read and listed, a line of blanks, and a word that is no command.\<close>

definition demo_lines :: "cstr list" where
  "demo_lines = [lit ''mk a'', lit ''write a hi'', lit ''rd a'', lit ''ls'', lit ''  '', lit ''what?'', lit ''cd /tmp'']"

lemma demo_words:
  "pieces 0x20 (lit ''mk a'') = [lit ''mk'', lit ''a'']" "pieces 0x20 (lit ''write a hi'') = [lit ''write'', lit ''a'', lit ''hi'']"
  "pieces 0x20 (lit ''rd a'') = [lit ''rd'', lit ''a'']" "pieces 0x20 (lit ''ls'') = [lit ''ls'']" "pieces 0x20 (lit ''  '') = []"
  "pieces 0x20 (lit ''what?'') = [lit ''what?'']" "pieces 0x20 (lit ''cd /tmp'') = [lit ''cd'', lit ''/tmp'']"
  by (simp_all add: lit_simps pieces_def)

lemma demo_safe:
  "list_all (\<lambda>l. safe_line l \<and> take 1 (pieces 0x20 l) \<noteq> [lit ''panic'']) demo_lines"
  "map line_cost demo_lines = [0x4000, 0x4000, 0, 0, 0, 0, 0]"
  unfolding demo_lines_def list.map list.pred_inject safe_line_def line_cost_def demo_words
  by (simp_all add: lit_simps allowed_def words_cost_def)

theorem shell_session_safe_witness:
  "\<exists>t u T. kernel_boot small_image timer_tick 0x2000 loaded = Some (Returns t)
     \<and> run_all line_step (map (\<lambda>l. (timer_tick, [(heap_touch, 0x400FFC), (heap_touch, 0x405000)], l)) demo_lines) (shell_init t)
          = Some (Returns u) \<and> shell_inv u T"
proof -
  obtain t T where t: "kernel_boot small_image timer_tick 0x2000 loaded = Some (Returns t)" "shell_inv (shell_init t) T"
    "heap_end (shell_init t) = heap_end t" "unat (heap_end t) \<le> 0x400000 + 2976" "heap_backed (shell_init t)" "frames_left (shell_init t)"
    by (rule shell_booted [OF loaded_ready(1,2,9,3-8) timer_tick_wakes loaded_echo(1)])
  let ?cs = "map (\<lambda>l. (timer_tick, [(heap_touch, 0x400FFC), (heap_touch, 0x405000)], l)) demo_lines :: shell step list"
  have l: "\<forall>c \<in> set ?cs. safe_step c" "sum_list (map step_cost ?cs) = 0x8000"
    "\<forall>c \<in> set ?cs. take 1 (pieces 0x20 (snd (snd c))) \<noteq> [lit ''panic'']"
    using demo_safe(1) by (auto simp: list_all_iff timer_tick_wakes comp_def demo_safe(2))
  have "unat (heap_end (shell_init t)) + sum_list (map step_cost ?cs) < 0x800000" using t(3,4) l(2) by simp
  from shell_session_safe [OF t(2,5,6) l(1) this] l(3) t(1) show ?thesis by blast
qed

section \<open>The kernel\<close>

text \<open>The shell as the boot sequence leaves it.\<close>

lemma kernel_started:
  fixes s :: "'a shell_scheme"
  assumes mb: "loader_map mb rs (ram s)"
    and fr: "3 \<le> card {g \<in> kernel_frames im rs. g < 0x400}" "1026 \<le> card (kernel_frames im rs)" "0 \<notin> kernel_frames im rs"
    and zero: "fresh_tables s" "heap_head s = 0" "\<not> ramfs_initialized s" "mount_count s = 0" "length (fd_table s) = MAX_FDS"
    and keys: "ring_ok s" "pending s = []" "length (line_buffer s) = 256" "length (echo_buffer s) = 1024"
    and w: "device_wake wake" "\<forall>u. typing_ok u \<longrightarrow> typing_ok (wake u)"
  obtains t where "kernel_boot im wake mb s = Some (Returns t)" "kernel_ok (shell_init t)"
proof -
  obtain t T where t: "kernel_boot im wake mb s = Some (Returns t)" "shell_inv (shell_init t) T"
    "heap_end (shell_init t) = heap_end t" "unat (heap_end t) \<le> 0x400000 + 2976" "heap_backed (shell_init t)" "frames_left (shell_init t)"
    by (rule shell_booted [OF mb fr zero w(1) keys(4)])
  have "typing_ok t"
    by (rule kernel_boot_typing [OF mb w(1) _ keys(1-3) t(1)]) (use w(2) t(4) in simp_all)
  then have "typing_ok (shell_init t)" using typing_frame [OF shell_init_parts(1) t(3)] by simp
  then show ?thesis using that [OF t(1)] t(2,5,6) unfolding kernel_ok_def by blast
qed

text \<open>A visitor who types \<open>ls\<close> whenever all keys have been read.\<close>

definition visitor :: "'a shell_scheme \<Rightarrow> 'a shell_scheme" where
  "visitor s = (if pending s = [] \<and> line s = [] then fold keyboard_store (lit ''ls\<newline>'') (timer_tick s) else timer_tick s)"

lemma visitor_wakes: "device_wake (visitor :: shell \<Rightarrow> shell)"
proof -
  have k: "ticks (fold keyboard_store cs u) = ticks u" "keyboard.more (fold keyboard_store cs u) = keyboard.more u"
    "regs (fold keyboard_store cs u) = regs u" "interrupts_on (fold keyboard_store cs u) = interrupts_on u" for cs and u :: shell
    by (induction cs arbitrary: u) (simp_all add: keyboard_store_def)
  have t: "ticks (timer_tick u) = ticks u + 1" "keyboard.more (timer_tick u) = keyboard.more u" "regs (timer_tick u) = regs u"
    "interrupts_on (timer_tick u) = interrupts_on u" for u :: shell
    by (simp_all add: timer_tick_def Let_def)
  have v: "ticks (visitor u) = ticks u + 1" "keyboard.more (visitor u) = keyboard.more u" "regs (visitor u) = regs u"
    "interrupts_on (visitor u) = interrupts_on u" for u :: shell
    by (simp_all add: visitor_def k t del: length_pending)
  have "ticks ((visitor ^^ 1) u) \<noteq> ticks u" for u :: shell by (simp add: v)
  then show ?thesis using v unfolding device_wake_def steps_clock_def by blast
qed

lemma visitor_types:
  fixes u :: shell
  assumes "typing_ok u"
  shows "typing_ok (visitor u)"
proof -
  let ?t = "timer_tick u" and ?l = "lit ''ls\<newline>''"
  have k: "keys ?t = keys u" "heap_end ?t = heap_end u" by (simp_all add: timer_tick_def Let_def keys_def)
  show ?thesis
  proof (cases "pending u = [] \<and> line u = []")
    case False
    then show ?thesis using assms keys_fields [OF k(1)] k(2) by (auto simp: visitor_def typing_ok_def simp del: length_pending)
  next
    case True
    have same: "line (keyboard_store c v) = line v" "console_ok (keyboard_store c v) = console_ok v"
      "heap_end (keyboard_store c v) = heap_end v" for c and v :: shell
      by (simp_all add: keyboard_store_def line_def console_ok_def)
    have e: "pending ?t = []" "ring_ok ?t" "console_ok ?t" "line ?t = []" "heap_end ?t = heap_end u"
      using True assms keys_fields [OF k(1)] k(2) by (simp_all add: typing_ok_def)
    have p: "ring_ok (keyboard_store 10 (keyboard_store 0x73 (keyboard_store 0x6C ?t)))"
      "pending (keyboard_store 10 (keyboard_store 0x73 (keyboard_store 0x6C ?t))) = [0x6C, 0x73, 10]"
      using e(1,2) by (simp_all add: pending_store flip: length_pending)
    have v: "visitor u = keyboard_store 10 (keyboard_store 0x73 (keyboard_store 0x6C ?t))"
      using True by (simp add: visitor_def lit_simps)
    have "patient [0x6C, 0x73]" "line_cost [0x6C, 0x73] = 0"
      by (simp_all add: patient_def waits_def safe_line_def line_cost_def words_cost_def allowed_def lit_simps pieces_def)
    moreover have "unat (heap_end u) < 0x800000" using assms by (simp add: typing_ok_def)
    ultimately show ?thesis
      unfolding v typing_ok_def same using p e by (simp add: edit_def)
  qed
qed

text \<open>C1: the whole kernel, from a well-formed record of the boot loader through any number of rounds of its loop, with
  whatever the timer and the keyboard bring and whichever heap pages a round touches first: if the lines typed are all
  right (no \<open>free\<close>, \<open>freelast\<close>, \<open>memdump\<close>, \<open>panic\<close>, \<open>shutdown\<close> or \<open>reboot\<close>, not the \<open>calc\<close> whose quotient overflows, texts within
  the buffers, files and blocks within the heap), and memory has at least three frames below 4 MB, frame 0 reserved, and
  1026 frames in all (one for each page of the heap, and two page tables), \<open>kernel_main\<close> never faults, hangs or panics, and in every round
  the files, mounts, heap, descriptors, ring and line editor are well formed, and a frame is left for every page of the heap that is
  still absent.\<close>

theorem kernel_never_faults:
  fixes s :: "'a shell_scheme"
  assumes mb: "loader_map mb rs (ram s)"
    and fr: "3 \<le> card {g \<in> kernel_frames im rs. g < 0x400}" "1026 \<le> card (kernel_frames im rs)" "0 \<notin> kernel_frames im rs"
    and zero: "fresh_tables s" "heap_head s = 0" "\<not> ramfs_initialized s" "mount_count s = 0" "length (fd_table s) = MAX_FDS"
    and keys: "ring_ok s" "pending s = []" "length (line_buffer s) = 256" "length (echo_buffer s) = 1024"
    and w: "device_wake wake" "\<forall>u. typing_ok u \<longrightarrow> typing_ok (wake u)"
    and touched: "\<forall>u. \<forall>a \<in> set (touches u). heap_address (snd a)"
  shows "\<exists>t. kernel_main im wake touches mb n s = Some (Returns t) \<and> kernel_ok t"
proof -
  obtain t where t: "kernel_boot im wake mb s = Some (Returns t)" "kernel_ok (shell_init t)"
    by (rule kernel_started [OF mb fr zero keys w])
  have "\<exists>u. kernel_loop wake touches n (shell_init t) = Some (Returns u) \<and> kernel_ok u"
    by (rule kernel_loop_sound [OF w(1) _ _ t(2)]) (use w(2) touched in blast)+
  then show ?thesis by (simp add: kernel_main_def t(1))
qed

theorem kernel_never_faults_witness:
  "\<exists>t. kernel_main small_image visitor (\<lambda>_. [(heap_touch, 0x400010), (heap_touch, 0x500000)]) 0x2000 1000 loaded = Some (Returns t)
     \<and> kernel_ok t"
  by (rule kernel_never_faults [OF loaded_ready(1,2,9,3-8) loaded_echo(2-4,1) visitor_wakes]) (use visitor_types in auto)

end
