(* ===== verification/KernelRun.thy ===== *)
theory KernelRun
  imports KernelSafe
begin

text \<open>
  The loop of \<open>kernel_main\<close> as a transition system: between two updates of the shell any interrupts and exceptions may
  occur, handled by \<open>isr_handler\<close> of \<open>core/idt.c\<close>. The invariant joins the shell, the keys and the page tables.
\<close>

section \<open>What the handlers leave alone\<close>

lemma keyboard_holdings: "holdings (keyboard_irq_handler s) = holdings (s :: 'a heap_scheme)"
  by (simp add: holdings_def keyboard_irq_handler_def keyboard_read_scancode_def inb_def keyboard_store_def pic_send_eoi_def outb_def Let_def)

lemma isr_holdings:
  fixes s :: "'a heap_scheme"
  assumes "isr_handler r s = Some (Returns t)"
  shows "holdings t = holdings s"
proof (cases "int_no r = 33")
  case True
  have "holdings (pic_send_eoi i u) = holdings u" for i and u :: "'a heap_scheme"
    by (simp add: holdings_def pic_send_eoi_def outb_def Let_def)
  then show ?thesis using assms True keyboard_holdings by (auto simp: isr_handler_def Let_def)
qed (use assms held.isr_part in blast)

section \<open>The transition system\<close>

text \<open>A trap is any interrupt or exception with any fault address from which the handler returns. The processor reports a
  page as absent only when it is, and after a key press what is typed has to be all right still.\<close>

inductive kernel_run :: "('a shell_scheme \<Rightarrow> 'a shell_scheme) \<Rightarrow> 'a shell_scheme \<Rightarrow> 'a shell_scheme \<Rightarrow> bool" for wake s0 where
  start: "kernel_run wake s0 s0"
| trap: "kernel_run wake s0 s \<Longrightarrow> isr_handler r (s\<lparr>regs := (regs s)\<lparr>r_cr2 := a\<rparr>\<rparr>) = Some (Returns t) \<Longrightarrow>
    int_no r = 14 \<and> err_code r AND 1 = 0 \<longrightarrow> translate s a = None \<Longrightarrow> int_no r = 33 \<longrightarrow> typing_ok t \<Longrightarrow> kernel_run wake s0 t"
| update: "kernel_run wake s0 s \<Longrightarrow> shell_update wake s = Some (Returns t) \<Longrightarrow> kernel_run wake s0 t"

lemma trap_frames:
  fixes s :: "'a shell_scheme"
  assumes hb: "heap_backed s" and fl: "frames_left s" and r: "isr_handler r (s\<lparr>regs := (regs s)\<lparr>r_cr2 := a\<rparr>\<rparr>) = Some (Returns t)"
    and p: "int_no r = 14 \<and> err_code r AND 1 = 0 \<longrightarrow> translate s a = None"
  shows "heap_backed t" "frames_left t"
proof -
  let ?s = "s\<lparr>regs := (regs s)\<lparr>r_cr2 := a\<rparr>\<rparr>"
  have s: "same_memory s ?s" by (simp add: same_memory_def)
  from r have "heap_backed t \<and> frames_left t"
  proof (cases rule: isr_returns_cases)
    case quiet
    have "same_memory s t" by (rule same_memory_trans [OF s quiet])
    then show ?thesis using hb fl heap_backed_same same_memory_frames by blast
  next
    case (mapped frame s1)
    then have e: "int_no r = 14" "err_code r AND 1 = 0" "err_code r AND 4 = 0" and v: "heap_address a" by (simp_all add: heap_fault_def)
    obtain t' where "isr_handler r ?s = Some (Returns t')" "heap_backed t'" "frames_left t'"
      by (rule touch_frames_left [OF hb fl v _ e]) (use p e in blast)
    then show ?thesis using r by simp
  qed
  then show "heap_backed t" "frames_left t" by blast+
qed

lemma trap_ok:
  fixes s :: "'a shell_scheme"
  assumes ok: "kernel_ok s" and r: "isr_handler r (s\<lparr>regs := (regs s)\<lparr>r_cr2 := a\<rparr>\<rparr>) = Some (Returns t)"
    and p: "int_no r = 14 \<and> err_code r AND 1 = 0 \<longrightarrow> translate s a = None" and k: "int_no r = 33 \<longrightarrow> typing_ok t"
  shows "kernel_ok t"
proof -
  have s: "holdings (s\<lparr>regs := (regs s)\<lparr>r_cr2 := a\<rparr>\<rparr>) = holdings s" "keys (s\<lparr>regs := (regs s)\<lparr>r_cr2 := a\<rparr>\<rparr>) = keys s"
    by (simp_all add: holdings_def)
  note h = shell_inv_holdings [OF isr_holdings [OF r, unfolded s(1)]]
  have "typing_ok t"
  proof (cases "int_no r = 33")
    case False
    have "keys t = keys s" using waiting.isr_part [OF r False] s(2) by simp
    from typing_frame [OF this h(2)] show ?thesis using ok by (simp add: kernel_ok_def)
  qed (use k in simp)
  moreover have "heap_backed s" "frames_left s" using ok by (simp_all add: kernel_ok_def)
  note trap_frames [OF this r p]
  moreover have "\<exists>T. shell_inv t T" using ok h(1) by (simp add: kernel_ok_def)
  ultimately show ?thesis by (simp add: kernel_ok_def)
qed

lemma run_ok:
  assumes "kernel_run wake s0 s" and "device_wake wake" and "kernel_ok s0"
  shows "kernel_ok s"
  using assms
proof (induction rule: kernel_run.induct)
  case (trap s r a t)
  then show ?case using trap_ok by blast
next
  case (update s t)
  then show ?case using update_ok by fastforce
qed

text \<open>The rounds of \<open>kernel_loop\<close> are runs, when a halt brings traps only: the faults of a round are traps.\<close>

lemma page_in_run: "kernel_run wake s0 s \<Longrightarrow> page_in fs s = Some (Returns t) \<Longrightarrow> kernel_run wake s0 t"
proof (induction fs s rule: page_in.induct)
  case (2 r v fs s)
  let ?r = "r\<lparr>int_no := 14, err_code := err_code r AND 2\<rparr>"
  show ?case
  proof (cases "translate s v")
    case None
    then obtain u where u: "isr_handler ?r (s\<lparr>regs := (regs s)\<lparr>r_cr2 := v\<rparr>\<rparr>) = Some (Returns u)" "page_in fs u = Some (Returns t)"
      using "2.prems"(2) by (auto simp: bind_Some_iff returns_case)
    have "kernel_run wake s0 u" by (rule kernel_run.trap [OF "2.prems"(1) u(1)]) (simp_all add: None)
    then show ?thesis using "2.IH"(2) [OF _ u(1) refl _ u(2)] None by simp
  qed (use 2 in simp)
qed simp

lemma kernel_loop_run:
  assumes "\<And>u. kernel_run wake s0 u \<Longrightarrow> kernel_run wake s0 (wake u)"
  shows "kernel_run wake s0 s \<Longrightarrow> kernel_loop wake touches n s = Some (Returns t) \<Longrightarrow> kernel_run wake s0 t"
proof (induction n arbitrary: s)
  case (Suc n)
  obtain u v where u: "page_in (touches s) s = Some (Returns u)" "shell_update wake u = Some (Returns v)"
    "kernel_loop wake touches n (wake v) = Some (Returns t)"
    using Suc.prems(2) by (auto simp only: kernel_loop.simps bind_Some_iff returns_case)
  have "kernel_run wake s0 (wake v)" by (rule assms, rule kernel_run.update, rule page_in_run) (fact Suc.prems(1) u)+
  then show ?case using u(3) by (rule Suc.IH)
qed simp

section \<open>The property\<close>

text \<open>C8: in every state the kernel can reach from a well-formed one by updates of the shell and by interrupts and
  exceptions in any order, as long as what is typed stays all right: the state is well formed, no two pages of the heap
  share a frame, every hardware interrupt is handled and returns, the first touch of any absent page of the heap is served
  and leaves the page mapped, and \<open>shell_update\<close> neither faults nor spins nor panics but reads all keys and
  returns.\<close>

theorem kernel_run_safe:
  assumes "device_wake wake" and "kernel_ok s0" and "kernel_run wake s0 s"
  shows "kernel_ok s
    \<and> (\<exists>t. shell_update wake s = Some (Returns t) \<and> \<not> keyboard_has_input t)
    \<and> (\<forall>r. 32 \<le> int_no r \<and> int_no r \<le> 47 \<longrightarrow> (\<exists>t. isr_handler r s = Some (Returns t)))
    \<and> (\<forall>r a. heap_address a \<and> translate s a = None \<and> int_no r = 14 \<and> err_code r AND 1 = 0 \<and> err_code r AND 4 = 0 \<longrightarrow>
         (\<exists>t. isr_handler r (s\<lparr>regs := (regs s)\<lparr>r_cr2 := a\<rparr>\<rparr>) = Some (Returns t) \<and> translate t a \<noteq> None))"
proof -
  have ok: "kernel_ok s" by (rule run_ok [OF assms(3,1,2)])
  have i: "\<exists>t. isr_handler r s = Some (Returns t)" if "32 \<le> int_no r" "int_no r \<le> 47" for r
  proof -
    have "\<not> int_no r < 32" using that(1) by (simp add: not_less)
    then show ?thesis using that by (simp add: isr_handler_def)
  qed
  have fl: "heap_backed s" "frames_left s" using ok by (simp_all add: kernel_ok_def)
  have "\<exists>t. isr_handler r (s\<lparr>regs := (regs s)\<lparr>r_cr2 := a\<rparr>\<rparr>) = Some (Returns t) \<and> translate t a \<noteq> None"
    if "heap_address a" "translate s a = None" "int_no r = 14" "err_code r AND 1 = 0" "err_code r AND 4 = 0" for r a
    by (rule touch_frames_left [OF fl that]) blast
  then show ?thesis using ok i update_ok [OF assms(1) ok] by blast
qed

text \<open>After the boot sequence: nobody has typed yet, and the keyboard sends the code of the key \<open>l\<close>.\<close>

definition first_key :: "'a shell_scheme \<Rightarrow> 'a shell_scheme" where
  "first_key t = t\<lparr>dev_in := \<lambda>_ _. 0x26, buffer_head := 0, buffer_tail := 0\<rparr>"

lemma first_key_ok:
  fixes t :: "'a shell_scheme"
  assumes "kernel_ok t"
  shows "kernel_ok (first_key t)"
proof -
  have h: "holdings (first_key t) = holdings t" "same_memory t (first_key t)"
    by (simp_all add: first_key_def holdings_def same_memory_def)
  have "ring_ok (first_key t)" "pending (first_key t) = []" "console_ok (first_key t) = console_ok t"
    by (simp_all add: first_key_def ring_ok_def pending_def ring_count_def console_ok_def)
  then have "typing_ok (first_key t)"
    using assms shell_inv_holdings(2) [OF h(1)] by (simp add: kernel_ok_def typing_ok_def)
  then show ?thesis
    using assms shell_inv_holdings(1) [OF h(1)] heap_backed_same [OF h(2)] same_memory_frames [OF h(2)] by (simp add: kernel_ok_def)
qed

lemma first_key_pressed:
  fixes s :: "'a shell_scheme"
  assumes "typing_ok (first_key t)" and s: "s = (first_key t)\<lparr>regs := r\<rparr>"
  obtains u where "isr_handler (heap_touch\<lparr>int_no := 33\<rparr>) s = Some (Returns u)" "pending u = lit ''l''" "typing_ok u"
proof -
  let ?u = "pic_send_eoi 1 (keyboard_irq_handler s)"
  have p: "pending s = []" "ring_ok s" "ring_count s < 255"
    by (simp_all add: s first_key_def pending_def ring_ok_def ring_count_def)
  have "fst (keyboard_read_scancode s) = 0x26" by (simp add: s first_key_def keyboard_read_scancode_def inb_def Let_def)
  then have k: "pending (keyboard_irq_handler s) = [0x6C]" "ring_ok (keyboard_irq_handler s)"
    using irq_pending [OF p(2,3)] p(1)
    by (simp_all add: key_of_def keyboard_scancode_to_ascii_def keymap_def lit_simps)
  have e: "pending ?u = [0x6C]" "ring_ok ?u" using k pending_cong [of ?u "keyboard_irq_handler s"] by simp_all
  have "isr_handler (heap_touch\<lparr>int_no := 33\<rparr>) s = Some (Returns ?u)" by (simp add: isr_handler_def)
  moreover from this have "holdings ?u = holdings s" by (rule isr_holdings)
  moreover have "line_buffer ?u = line_buffer s" "line_length ?u = line_length s"
    by (simp_all add: keyboard_irq_handler_def keyboard_read_scancode_def inb_def keyboard_store_def pic_send_eoi_def outb_def Let_def)
  then have "console_ok ?u = console_ok s" by (simp add: console_ok_def)
  moreover have "console_ok s" "unat (heap_end s) < 0x800000"
    using assms(1) by (simp_all add: s typing_ok_def console_ok_def)
  ultimately show ?thesis using that [of ?u] e by (simp add: typing_ok_def holdings_def lit_simps)
qed

theorem kernel_run_safe_witness:
  "\<exists>s0 s :: shell. kernel_run timer_tick s0 s \<and> pending s = lit ''l'' \<and> kernel_ok s
     \<and> (\<exists>t. shell_update timer_tick s = Some (Returns t) \<and> \<not> keyboard_has_input t)"
proof -
  have v: "\<forall>u :: shell. typing_ok u \<longrightarrow> typing_ok (visitor u)" using visitor_types by blast
  obtain t where t: "kernel_boot small_image visitor 0x2000 loaded = Some (Returns t)" "kernel_ok (shell_init t)"
    by (rule kernel_started [OF loaded_ready(1,2,9,3-8) loaded_echo(2-4,1) visitor_wakes v])
  define s0 where "s0 = first_key (shell_init t)"
  have ok: "kernel_ok s0" unfolding s0_def by (rule first_key_ok [OF t(2)])
  then have ty: "typing_ok s0" by (simp add: kernel_ok_def)
  obtain u where u: "isr_handler (heap_touch\<lparr>int_no := 33\<rparr>) (s0\<lparr>regs := (regs s0)\<lparr>r_cr2 := 0\<rparr>\<rparr>) = Some (Returns u)"
    "pending u = lit ''l''" "typing_ok u"
    by (rule first_key_pressed [where t = "shell_init t", folded s0_def, OF ty refl])
  have "kernel_run timer_tick s0 u" by (rule kernel_run.trap [OF kernel_run.start u(1)]) (simp_all add: u(3))
  from kernel_run_safe [OF timer_tick_wakes ok this] this u(2) show ?thesis by blast
qed

end
