(* ===== verification/Spec2Isabelle.thy ===== *)
theory Spec2Isabelle
  imports HeapCycle KernelRun
begin

text \<open>
  \<^bold>\<open>SpatulaOS: a verification development\<close>

  SpatulaOS is a small 32-bit x86 kernel in C. The boot loader enters \<open>kernel_main\<close> (\<open>kernel.c\<close>), which
  runs \<open>kernel_boot\<close> (\<open>core/boot.c\<close>) and then, for ever, the shell (\<open>shell/shell.c\<close>) and a halt until the
  next interrupt. The parts share global variables; each file below (all paths are under \<open>src/src/kernel\<close>) is
  modelled by the theory named, which opens with the definitions and closes with the properties.

  \<^bold>\<open>State.\<close> The globals of the C files are the fields of one record, extended file by file in the order in which
  the files build on each other: \<open>hw\<close> (registers, the log of port accesses, the devices' answers), \<open>vga\<close>,
  \<open>timer\<close>, \<open>keyboard\<close>, \<open>console\<close>, \<open>pmm\<close>, \<open>paging\<close>, \<open>heap\<close> (theory \<open>Machine\<close>), \<open>descriptors\<close>
  (\<open>Descriptors\<close>), \<open>fs\<close> (\<open>Ramfs\<close>), \<open>fd\<close> (\<open>Fd\<close>), \<open>shell\<close> (\<open>Commands\<close>). An operation takes the record
  with any extension and returns it updated, so an operation of a lower part runs unchanged inside of a higher one.

  \<^bold>\<open>Conventions.\<close> Integers are words of their width and wrap around; \<open>int\<close> and \<open>char\<close> are read with \<open>sint\<close>.
  Heap objects live in a byte memory at 32-bit addresses (\<open>Memory\<close>): block headers, file nodes and file contents are
  read and written field by field at the offsets the compiler gives them. A result \<open>None\<close> means undefined behaviour
  (a store outside of an array or of the mapped memory, a divide error, a call through an empty table entry), a loop
  without end, or a panic of a part whose panics are not followed further (\<open>Ramfs\<close> and \<open>Vfs\<close>, on a NULL node or a
  missing mount point; \<open>shell_session_safe\<close> shows that no session of the shell gets there); everywhere else a panic is the value \<open>Halts\<close> of the type \<open>outcome\<close>. There is no fuel: loops
  that may not end are partial functions into \<open>option\<close>, and the theorems state that a result \<open>Some\<close> exists.

  \<^bold>\<open>Parameters.\<close> What the sources do not fix is an argument: the answers of devices (\<open>dev_in\<close>, \<open>cpuid_leaf\<close>), the
  addresses given by the linker and the interrupt stubs (record \<open>image\<close>, with the registers at the first store to the
  heap), the build date, \<open>wake\<close>, what the interrupts taken during one \<open>hlt\<close> do to the state, and \<open>touches\<close>, the heap addresses
  that a round of the main loop accesses. The theorems assume of \<open>wake\<close> that it moves the clock by at most
  one tick, some time does (\<open>steps_clock\<close>), and during boot touches the clock and the keyboard ring only (\<open>device_wake\<close>).

  \<^bold>\<open>Theories, in order.\<close>

  \<^item> \<open>Prelude\<close>: types, strings, counting loops, word arithmetic. \<open>Machine\<close>: the records up to the heap.
  \<^item> \<open>Ports\<close>: \<open>drivers/io.c\<close>, \<open>pic.c\<close>, \<open>pit.c\<close>, \<open>arch/x86/cpuid.c\<close>. \<open>Vga\<close>: \<open>video/vga.c\<close>; printing is
    an append at a linear position, the cursor never leaves the screen, numbers print in shortest decimal.
  \<^item> \<open>Memory\<close>, \<open>Heap\<close>: \<open>mm/heap.c\<close> at the level of bytes. \<open>HeapSpec\<close>: the abstract heap, a list of blocks, and
    the invariant \<open>heap_inv\<close> that ties it to memory. \<open>HeapAlloc\<close>, \<open>HeapFree\<close>: \<open>kmalloc\<close> and \<open>kfree\<close> refine the
    abstract first-fit allocator. \<open>HeapUse\<close>: the interface for clients (a locale of what allocation promises about
    payloads), interpreted on \<open>kmalloc\<close>. \<open>HeapProps\<close>: the properties and two defects. \<open>HeapCycle\<close>: the cycle test
    of \<open>heap_validate\<close> decides on any readable chain, damaged or not, whether it ends.
  \<^item> \<open>Pmm\<close>: \<open>mm/pmm.c\<close>, frames as bits, and the locale of frame sources. \<open>Paging\<close>: \<open>mm/paging.c\<close>, with the
    address translation of the processor as the meaning of the tables.
  \<^item> \<open>Clock\<close>: \<open>core/time.c\<close>, \<open>core/status.c\<close>. \<open>Input\<close>: \<open>drivers/keyboard.c\<close>, \<open>core/console.c\<close>, the ring as a
    queue under an inductive run of presses and reads. \<open>Descriptors\<close>: \<open>arch/x86/gdt.c\<close>, \<open>tss.c\<close> and the table of
    \<open>core/idt.c\<close>. \<open>Debug\<close>: \<open>core/debug.c\<close>. \<open>Interrupts\<close>: the handlers of \<open>core/idt.c\<close>, demand paging. \<open>Demand\<close>:
    first touches of heap pages as faults of the processor (\<open>page_in\<close>), the frames they need (\<open>frames_left\<close>), and what
    they leave alone.
  \<^item> \<open>CString\<close>: \<open>lib/string.c\<close>, over locales of destinations that are interpreted on arrays and on memory.
  \<^item> \<open>Ramfs\<close>, \<open>Files\<close>: \<open>fs/ramfs/ramfs.c\<close> on single nodes. \<open>FileTree\<close>: the whole tree, abstractly and in memory
    (\<open>tree_rep\<close>); creating and writing are updates of the tree. \<open>Vfs\<close>: \<open>fs/vfs/path.c\<close>, \<open>vfs.c\<close>; looking up is
    walking the tree. \<open>Fd\<close>, \<open>FdSafe\<close>: \<open>fs/fd/fd.c\<close>, sessions and type safety of the calls.
  \<^item> \<open>Parse\<close>, \<open>Commands\<close>, \<open>Shell\<close>: \<open>shell/shell.c\<close>, the line parser, one definition per command, the table, the
    dispatch and the loop. \<open>ShellLoop\<close>: from keys to the command that runs. \<open>ShellFiles\<close>, \<open>ShellDirs\<close>, \<open>ShellText\<close>:
    what the file, directory and text commands do to files and screen.
  \<^item> \<open>Boot\<close>: \<open>core/boot.c\<close>, \<open>core/multiboot.c\<close>, \<open>kernel.c\<close>. \<open>BootProps\<close>: the boot sequence as a whole establishes
    what the other theories assume: gates, segments, page tables, a heap with its first page brought in, the root file
    system and \<open>/tmp\<close>, a free descriptor table.
  \<^item> \<open>ShellInv\<close>: the state between two lines of the shell (\<open>shell_inv\<close>), and the commands that only print.
    \<open>ShellSafe\<close>: progress and preservation for the commands that change files, memory or the working directory.
    \<open>Session\<close>: whole lines and sessions of any length, through the locale of sound steps. \<open>Typing\<close>: from keys to
    lines, \<open>shell_update\<close> and the main loop. \<open>KernelSafe\<close>: from the boot loader on. \<open>KernelRun\<close>: the loop as a
    transition system of shell updates and traps through \<open>isr_handler\<close>, with its invariant \<open>kernel_ok\<close>.

  \<^bold>\<open>How the parts meet.\<close> \<open>heap_rep\<close> (heap) is part of \<open>tree_rep\<close> (files), which is part of \<open>vfs_rep\<close> (paths and
  mounts), which the theorems on descriptors and on the shell assume and re-establish; \<open>kernel_boot_ready\<close> gives the first
  instance. Room in the heap is assumed as a bound on \<open>heap_end\<close> (\<open>heap_room\<close>, \<open>words_room\<close>): each allocation of
  \<open>n\<close> bytes moves the end by at most \<open>4 * n + 80\<close>, a generous count of its header, tail and rounding. Paths have
  components below 64 bytes and lines below 256, the sizes of the arrays that receive them; longer components are shown to
  overrun (\<open>path_component_overrun\<close>).

  \<^bold>\<open>The whole kernel.\<close> \<open>kernel_never_faults\<close> puts the parts together in the manner of type soundness: every line
  accepted by \<open>safe_line\<close> makes progress and preserves \<open>shell_inv\<close>, so a run of \<open>kernel_main\<close> of any length returns, without a fault and without a panic.
  \<open>safe_line\<close> leaves out \<open>free\<close>, \<open>freelast\<close> and \<open>memdump\<close>, which take any address or can damage the list of blocks
  (\<open>kfree_last_double_allocation\<close>), the division of \<open>calc\<close> whose quotient overflows (\<open>cmd_calc_result\<close>), names and paths of
  64 bytes and more, and messages of \<open>panic\<close> above its 128
  bytes; each of these faults, or damages the heap, for some arguments. For lines that come from the keyboard (\<open>patient\<close>) also \<open>panic\<close>, which
  stops the machine, and \<open>shutdown\<close> and \<open>reboot\<close> are left out: they wait, and keys may arrive while they do. A line is charged for the heap it may take
  (\<open>line_cost\<close>): 0x4000 bytes for \<open>mk\<close>, \<open>mkr\<close> and \<open>write\<close>, the size and 40 bytes for \<open>alloc\<close>; the sum has to stay below
  the 4 MB of the heap, because \<open>ramfs_create\<close> and \<open>ramfs_write\<close> do not handle its exhaustion. What is typed is an
  assumption on \<open>wake\<close>: it keeps \<open>typing_ok\<close>, the ring and the editor well formed and the lines they hold accepted.
  \<open>kernel_run_safe\<close> replaces \<open>wake\<close> between two updates by the handlers themselves, in any order and with any fault
  addresses. Both rest on the invariant \<open>kernel_ok\<close>, which holds the page tables too (\<open>heap_backed\<close>). Three locales carry
  these frames: \<open>session_frame\<close> (parts of the state that commands leave alone, interpreted on the keys and on the tables),
  \<open>paging_frame\<close> and its extension \<open>trap_frame\<close> (parts no handler touches, interpreted on the heap with all above it, on the
  processor and on the keys).

  \<^bold>\<open>Demand paging.\<close> No page of the heap is mapped by \<open>paging_init\<close>; \<open>page_fault_handler\<close> brings each in on its first touch,
  or panics when no frame is left. The boot sequence takes this fault at the first store of \<open>kmalloc\<close> (\<open>boot_files\<close>); all it
  puts in the heap stays within that page. A round of the main loop takes the faults of the pages it is about to touch,
  any list of them (\<open>touches\<close>), at its start. Three frames below 4 MB are enough for the boot sequence (two page tables and the
  page), and 1026 frames for every page of the heap, however many rounds. Frame 0 has to be reserved by the memory
  map, because it is handed out as NULL (\<open>pmm_frame_zero\<close>).

  \<^bold>\<open>Interrupts and time.\<close> The handlers are modelled as whole steps on the state, and runs of them are covered by
  theorems (\<open>Interrupts\<close>, \<open>Input\<close>). They are not interleaved into the middle of kernel code: that takes the events
  between two halts as taken during the halt. The endless main loop is modelled by its first \<open>n\<close> rounds
  (\<open>kernel_loop\<close>). The heap theory reads and writes the heap area as bytes at its addresses; that each of its pages has a
  frame of its own behind it is the invariant \<open>heap_backed\<close> of the page tables. Taking the faults of a round at its
  start changes nothing else that the shell reads but the number of free frames that \<open>meminfo\<close> and \<open>sysfetch\<close> print.

  \<^bold>\<open>Not modelled.\<close> The assembly under \<open>src/src/boot\<close>: the loads of the tables appear as the register changes the C
  code asks for, the stubs as addresses, the frame they push as the argument \<open>isr_handler\<close> declares;
  \<open>context_switch.s\<close> is called by nothing. The linker script and the build. The text at the end of
  \<open>core/idt.c\<close> (from line 190) and of \<open>core/debug.c\<close> (from line 273), a left-over copy outside of any function.
  Caches, the translation buffer and the timing of devices. Overlap of the frame bitmap and the page tables with other
  memory: the bitmap and the tables are arrays of their own, and the boot loader's record is only read.
\<close>

end
